(* ===== verification/Prelude.thy ===== *)
theory Prelude
  imports Main "HOL-Library.Word"
begin

text \<open>
  Shared vocabulary of the development: the widths of the C integer types, the two
  result types of the model, the collections of simplification and invariant rules,
  and the facts on words, lists and modular arithmetic that several components use.
\<close>

unbundle bit_operations_syntax

section \<open>Machine integers\<close>

type_synonym u8 = "8 word"
type_synonym u16 = "16 word"
type_synonym u32 = "32 word"
type_synonym u64 = "64 word"

text \<open>
  \<open>cell_defs\<close> collects the definitions of small accessors that proofs always unfold;
  \<open>abs_simps\<close> the equations of the abstraction functions; \<open>inv_intros\<close> the facts that an
  operation keeps the invariant of its component.
\<close>

named_theorems cell_defs \<open>definitions of small accessors\<close>
named_theorems abs_simps \<open>equations of abstraction functions\<close>
named_theorems inv_intros \<open>preservation of the component invariants\<close>

section \<open>Words\<close>

lemma unat_and_mask_mod:
  fixes w :: "'a::len word"
  shows "unat (w AND mask n) = unat w mod 2 ^ n"
proof -
  have "w AND mask n = take_bit n w"
    by (simp add: take_bit_eq_mask)
  then have "unat (w AND mask n) = take_bit n (unat w)"
    by (simp only: unsigned_take_bit_eq)
  then show ?thesis
    by (simp only: take_bit_eq_mod)
qed

lemma unat_drop_bit_div: "unat (drop_bit n w) = unat w div 2 ^ n"
  by (subst unat_drop_bit_eq) (rule drop_bit_eq_div)

lemma bit_or_exp:
  fixes w :: "'a::len word"
  assumes "n < LENGTH('a)"
  shows "bit (w OR 2 ^ n) m \<longleftrightarrow> m = n \<or> bit w m"
  using assms by (auto simp: bit_simps)

lemma bit_and_not_exp:
  fixes w :: "'a::len word"
  assumes "n < LENGTH('a)"
  shows "bit (w AND NOT (2 ^ n)) m \<longleftrightarrow> m \<noteq> n \<and> bit w m"
  using assms by (auto simp: bit_simps dest: bit_imp_le_length)

lemma drop_bit_and_1_iff: "drop_bit n w AND 1 \<noteq> 0 \<longleftrightarrow> bit w n"
  for w :: "'a::len word"
  by (simp add: and_one_eq bit_iff_odd_drop_bit mod_2_eq_odd)

lemma word_bits_nonzero: "w \<noteq> 0 \<longleftrightarrow> (\<exists>n < LENGTH('a). bit w n)"
  for w :: "'a::len word"
  by (metis bit_0_eq bot_apply bot_bool_def bit_word_eqI)

lemma and_exp_nonzero: "n < LENGTH('a) \<Longrightarrow> w AND 2 ^ n \<noteq> 0 \<longleftrightarrow> bit w n"
  for w :: "'a::len word"
  by (auto simp: word_bits_nonzero bit_simps)

lemma unat_eq_iff_eq: "unat a = unat b \<longleftrightarrow> a = b"
  by (simp add: word_unat_eq_iff)

lemma unat_exp_2: "n < LENGTH('a) \<Longrightarrow> unat (2 ^ n :: 'a::len word) = 2 ^ n"
proof -
  assume "n < LENGTH('a)"
  then have "take_bit LENGTH('a) ((2::nat) ^ n) = 2 ^ n"
    by (intro take_bit_nat_eq_self power_strict_increasing) auto
  moreover have "(2 ^ n :: 'a word) = word_of_nat (2 ^ n)"
    by simp
  ultimately show ?thesis
    by (simp only: unsigned_of_nat) simp
qed

section \<open>TCP flags\<close>

definition TH_FIN :: u8 where "TH_FIN = 0x01"
definition TH_SYN :: u8 where "TH_SYN = 0x02"
definition TH_RST :: u8 where "TH_RST = 0x04"
definition TH_PUSH :: u8 where "TH_PUSH = 0x08"
definition TH_ACK :: u8 where "TH_ACK = 0x10"
definition TH_ECE :: u8 where "TH_ECE = 0x40"
definition TH_CWR :: u8 where "TH_CWR = 0x80"

lemmas TH_defs = TH_FIN_def TH_SYN_def TH_RST_def TH_PUSH_def TH_ACK_def TH_ECE_def TH_CWR_def

section \<open>Failures of C code\<close>

text \<open>
  \<open>Heap_overflow\<close>: an access outside the allocated block. \<open>Exit_failure\<close>: the process
  calls \<open>exit(-1)\<close>. \<open>Null_deref\<close>: a null pointer is followed. \<open>Use_after_free\<close>:
  a deleted object is read. \<open>Thrown\<close>: a C++ exception leaves the operation.
\<close>

datatype c_error = Heap_overflow | Exit_failure | Null_deref | Use_after_free | Thrown string

section \<open>Lists\<close>

lemma nth_list_update_cases:
  "i < length xs \<Longrightarrow> xs[i := v] ! j = (if i = j then v else xs ! j)"
  by simp

lemma length_takeWhile_less: "x \<in> set xs \<Longrightarrow> \<not> P x \<Longrightarrow> length (takeWhile P xs) < length xs"
  by (induction xs) auto

lemma div_mod_pair_eq: "(i::nat) div k = j div k \<Longrightarrow> i mod k = j mod k \<Longrightarrow> i = j"
  by (metis div_mult_mod_eq)

lemma mult_div_less: "(i::nat) < k * n \<Longrightarrow> i div k < n"
  by (simp add: less_mult_imp_div_less mult.commute)

end
