(* ===== verification/Bitmaps.thy ===== *)
theory Bitmaps
  imports Prelude
begin

text \<open>
  The bit containers of the program: the array-backed \<open>Bitmap<N>\<close> (include/Bitmap.h) that
  filters alerts by category, entity and host pool, the single-word \<open>UintBitmap\<close>
  (include/UintBitmap.h), and the 64-bit helpers of src/Utils.cpp. Each container is
  abstracted to the set of its bit numbers; the interface \<open>bit_container\<close> states what a
  client may rely on, and each container is an interpretation of it.
\<close>

section \<open>64-bit helpers (Utils)\<close>

text \<open>
  \<open>__builtin_ctzll\<close>: number of trailing zero bits (the caller excludes 0, where the
  builtin is undefined).
\<close>

definition ctzll :: "u64 \<Rightarrow> nat" where
  "ctzll w = length (takeWhile (\<lambda>n. \<not> bit w n) [0..<64])"

definition Utils_bitmapGetNext :: "u64 \<Rightarrow> u8 \<Rightarrow> int" where
  "Utils_bitmapGetNext bitmap start =
     (if start \<ge> 64 then -1
      else
        let m = push_bit (unat start) 1 - 1;
            b = bitmap AND NOT m
        in if b = 0 then -1 else int (ctzll b))"

section \<open>Bitmap (array of 64-bit words)\<close>

text \<open>\<open>Bitmap<N>\<close> is its array \<open>bitmap[N]\<close>: a list of \<open>N\<close> words.\<close>

type_synonym bitmap = "u64 list"

definition Bitmap_new :: "nat \<Rightarrow> bitmap" where
  "Bitmap_new n = replicate n 0"

definition Bitmap_numBits :: "bitmap \<Rightarrow> nat" where
  "Bitmap_numBits bm = length bm * 64"

definition Bitmap_reset :: "bitmap \<Rightarrow> bitmap" where
  "Bitmap_reset bm = replicate (length bm) 0"

definition Bitmap_setBit :: "bitmap \<Rightarrow> u16 \<Rightarrow> bitmap" where
  "Bitmap_setBit bm bid =
     (let idx = unat (drop_bit 6 bid); offset = unat (bid AND 0x3F)
      in if idx < length bm then bm[idx := bm ! idx OR push_bit offset 1] else bm)"

definition Bitmap_clearBit :: "bitmap \<Rightarrow> u16 \<Rightarrow> bitmap" where
  "Bitmap_clearBit bm bid =
     (let idx = unat (drop_bit 6 bid); offset = unat (bid AND 0x3F)
      in if idx < length bm then bm[idx := bm ! idx AND NOT (push_bit offset 1)] else bm)"

definition Bitmap_isSetBit :: "bitmap \<Rightarrow> u16 \<Rightarrow> bool" where
  "Bitmap_isSetBit bm bid =
     (let idx = unat (drop_bit 6 bid); offset = unat (bid AND 0x3F)
      in if idx < length bm then drop_bit offset (bm ! idx) AND 1 \<noteq> 0 else False)"

text \<open>
  The comma-separated list of \<open>setBits\<close>: \<open>strtok_r\<close> skips empty items, \<open>atoi\<close> reads an
  optional sign and the leading digits after white space (0 when there is none), and the
  \<open>int\<close> is converted to the \<open>u_int16_t\<close> argument of \<open>setBit\<close>.
\<close>

fun strtok_items :: "char \<Rightarrow> string \<Rightarrow> string \<Rightarrow> string list" where
  "strtok_items d acc [] = (if acc = [] then [] else [rev acc])"
| "strtok_items d acc (c # cs) =
     (if c = d then (if acc = [] then strtok_items d [] cs else rev acc # strtok_items d [] cs)
      else strtok_items d (c # acc) cs)"

definition digit_val :: "char \<Rightarrow> nat option" where
  "digit_val c = (let n = of_char c :: nat in if 48 \<le> n \<and> n \<le> 57 then Some (n - 48) else None)"

definition is_space :: "char \<Rightarrow> bool" where
  "is_space c = (let n = of_char c :: nat in n = 32 \<or> (9 \<le> n \<and> n \<le> 13))"

fun atoi_digits :: "int \<Rightarrow> string \<Rightarrow> int" where
  "atoi_digits acc [] = acc"
| "atoi_digits acc (c # cs) =
     (case digit_val c of None \<Rightarrow> acc | Some d \<Rightarrow> atoi_digits (10 * acc + int d) cs)"

definition atoi :: "string \<Rightarrow> int" where
  "atoi s =
     (case dropWhile is_space s of
        [] \<Rightarrow> 0
      | c # cs \<Rightarrow> if c = CHR ''-'' then - atoi_digits 0 cs
                  else if c = CHR ''+'' then atoi_digits 0 cs
                  else atoi_digits 0 (c # cs))"

definition Bitmap_setBits :: "bitmap \<Rightarrow> string \<Rightarrow> bitmap" where
  "Bitmap_setBits bm list =
     foldl (\<lambda>b item. Bitmap_setBit b (word_of_int (atoi item))) bm (strtok_items CHR '','' [] list)"

definition Bitmap_fromList :: "nat \<Rightarrow> string \<Rightarrow> bitmap" where
  "Bitmap_fromList n list = Bitmap_setBits (Bitmap_new n) list"

function Bitmap_getNext_loop :: "bitmap \<Rightarrow> nat \<Rightarrow> u8 \<Rightarrow> nat \<Rightarrow> int" where
  "Bitmap_getNext_loop bm start_idx start_offset i =
     (if i < length bm then
        let b = Utils_bitmapGetNext (bm ! i) (if i = start_idx then start_offset else 0)
        in if b \<ge> 0 then int (i * 64) + b
           else Bitmap_getNext_loop bm start_idx start_offset (Suc i)
      else -1)"
  by pat_completeness auto
termination
  by (relation "measure (\<lambda>(bm, si, so, i). length bm - i)") auto

declare Bitmap_getNext_loop.simps [simp del]

definition Bitmap_getNext :: "bitmap \<Rightarrow> u16 \<Rightarrow> int" where
  "Bitmap_getNext bm start =
     (let start_idx = unat (drop_bit 6 start); start_offset = ucast (start AND 0x3F)
      in Bitmap_getNext_loop bm start_idx start_offset start_idx)"

definition Bitmap_bitmapOr :: "bitmap \<Rightarrow> bitmap \<Rightarrow> bitmap" where
  "Bitmap_bitmapOr bm b = map2 (OR) bm b"

definition Bitmap_set :: "bitmap \<Rightarrow> bitmap \<Rightarrow> bitmap" where
  "Bitmap_set bm b = take (length bm) b"

definition Bitmap_equal :: "bitmap \<Rightarrow> bitmap \<Rightarrow> bool" where
  "Bitmap_equal bm b \<longleftrightarrow> bm = b"

definition Bitmap_getBits64 :: "bitmap \<Rightarrow> nat \<Rightarrow> u64" where
  "Bitmap_getBits64 bm idx = (if idx < length bm then bm ! idx else 0)"

definition Bitmap_setBits64 :: "bitmap \<Rightarrow> u64 \<Rightarrow> nat \<Rightarrow> bitmap" where
  "Bitmap_setBits64 bm val idx = (if idx < length bm then bm[idx := val] else bm)"

section \<open>UintBitmap (one 32-bit word)\<close>

text \<open>
  \<open>UintBitmap<u_int32_t>\<close>, the \<open>HostAlertBitmap\<close>. A shift by 32 or more is undefined in
  C++; the facts below are therefore about identifiers under the width.
\<close>

definition UintBitmap_setBit :: "u32 \<Rightarrow> u8 \<Rightarrow> u32" where
  "UintBitmap_setBit bm bid = bm OR push_bit (unat bid) 1"

definition UintBitmap_clearBit :: "u32 \<Rightarrow> u8 \<Rightarrow> u32" where
  "UintBitmap_clearBit bm bid = bm AND NOT (push_bit (unat bid) 1)"

definition UintBitmap_isSetBit :: "u32 \<Rightarrow> u8 \<Rightarrow> bool" where
  "UintBitmap_isSetBit bm bid = (drop_bit (unat bid) bm AND 1 \<noteq> 0)"

section \<open>The interface of a bit container\<close>

locale bit_container =
  fixes bits :: "'s \<Rightarrow> nat set"
    and capacity :: "'s \<Rightarrow> nat set"
    and key :: "'i \<Rightarrow> nat"
    and setb :: "'s \<Rightarrow> 'i \<Rightarrow> 's"
    and clrb :: "'s \<Rightarrow> 'i \<Rightarrow> 's"
    and isset :: "'s \<Rightarrow> 'i \<Rightarrow> bool"
  assumes isset_iff: "isset s i \<longleftrightarrow> key i \<in> bits s"
    and bits_setb: "bits (setb s i) = (if key i \<in> capacity s then insert (key i) (bits s) else bits s)"
    and bits_clrb: "bits (clrb s i) = bits s - {key i}"
    and bits_capacity: "bits s \<subseteq> capacity s"
    and capacity_setb: "capacity (setb s i) = capacity s"
    and capacity_clrb: "capacity (clrb s i) = capacity s"
begin

lemma isset_setb:
  "isset (setb s i) j \<longleftrightarrow> (key j = key i \<and> key i \<in> capacity s) \<or> isset s j"
  by (auto simp: isset_iff bits_setb)

lemma isset_clrb: "isset (clrb s i) j \<longleftrightarrow> key j \<noteq> key i \<and> isset s j"
  by (auto simp: isset_iff bits_clrb)

lemma capacity_fold: "capacity (foldl setb s is) = capacity s"
  by (induction "is" arbitrary: s) (simp_all add: capacity_setb)

lemma bits_fold_setb:
  "bits (foldl setb s is) = bits s \<union> (key ` set is \<inter> capacity s)"
proof (induction "is" arbitrary: s)
  case Nil
  then show ?case by simp
next
  case (Cons i "is")
  have "bits (foldl setb s (i # is)) = bits (setb s i) \<union> (key ` set is \<inter> capacity s)"
    by (simp add: Cons.IH capacity_setb)
  then show ?case by (auto simp: bits_setb)
qed

lemma clrb_setb_bits: "key i \<notin> bits s \<Longrightarrow> bits (clrb (setb s i) i) = bits s"
  by (auto simp: bits_setb bits_clrb)

end

section \<open>Bitmap: abstraction and correctness\<close>

definition Bitmap_bits :: "bitmap \<Rightarrow> nat set" where
  "Bitmap_bits bm = {i. i < 64 * length bm \<and> bit (bm ! (i div 64)) (i mod 64)}"

lemma bid_split [cell_defs]:
  "unat (drop_bit 6 (bid :: u16)) = unat bid div 64"
  "unat ((bid :: u16) AND 0x3F) = unat bid mod 64"
proof -
  show "unat (drop_bit 6 bid) = unat bid div 64"
    by (simp add: unat_drop_bit_div)
  have "(0x3F :: u16) = mask 6"
    by (simp add: mask_eq_exp_minus_1)
  then show "unat (bid AND 0x3F) = unat bid mod 64"
    by (simp only: unat_and_mask_mod) simp
qed

lemma Bitmap_isSetBit_iff: "Bitmap_isSetBit bm bid \<longleftrightarrow> unat bid \<in> Bitmap_bits bm"
  by (auto simp: Bitmap_isSetBit_def Bitmap_bits_def Let_def bid_split drop_bit_and_1_iff
      intro: mult_div_less)

lemma length_Bitmap_ops [simp]:
  "length (Bitmap_setBit bm bid) = length bm"
  "length (Bitmap_clearBit bm bid) = length bm"
  "length (Bitmap_reset bm) = length bm"
  "length (Bitmap_new n) = n"
  by (simp_all add: Bitmap_setBit_def Bitmap_clearBit_def Bitmap_reset_def Bitmap_new_def Let_def)

lemma Bitmap_bits_setBit:
  "Bitmap_bits (Bitmap_setBit bm bid) =
    (if unat bid < 64 * length bm then insert (unat bid) (Bitmap_bits bm) else Bitmap_bits bm)"
proof (cases "unat bid div 64 < length bm")
  case True
  then have lt: "unat bid < 64 * length bm" by auto
  have "i \<in> Bitmap_bits (Bitmap_setBit bm bid) \<longleftrightarrow> i = unat bid \<or> i \<in> Bitmap_bits bm" for i
    using True lt
    by (auto simp: Bitmap_setBit_def Let_def bid_split Bitmap_bits_def nth_list_update_cases
        bit_or_exp dest: div_mod_pair_eq)
  with lt show ?thesis by auto
next
  case False
  then have "\<not> unat bid < 64 * length bm" by auto
  with False show ?thesis by (simp add: Bitmap_setBit_def Let_def bid_split)
qed

lemma Bitmap_bits_clearBit: "Bitmap_bits (Bitmap_clearBit bm bid) = Bitmap_bits bm - {unat bid}"
proof (cases "unat bid div 64 < length bm")
  case True
  have "i \<in> Bitmap_bits (Bitmap_clearBit bm bid) \<longleftrightarrow> i \<noteq> unat bid \<and> i \<in> Bitmap_bits bm" for i
    using True
    by (auto simp: Bitmap_clearBit_def Let_def bid_split Bitmap_bits_def nth_list_update_cases
        bit_and_not_exp dest: div_mod_pair_eq)
  then show ?thesis by auto
next
  case False
  then show ?thesis
    by (auto simp: Bitmap_clearBit_def Let_def bid_split Bitmap_bits_def)
qed

interpretation bm: bit_container Bitmap_bits "\<lambda>bm. {..<64 * length bm}" unat
  Bitmap_setBit Bitmap_clearBit Bitmap_isSetBit
  by unfold_locales
    (auto simp: Bitmap_isSetBit_iff Bitmap_bits_setBit Bitmap_bits_clearBit, auto simp: Bitmap_bits_def)

definition UintBitmap_bits :: "u32 \<Rightarrow> nat set" where
  "UintBitmap_bits bm = {i. bit bm i}"

interpretation ub: bit_container UintBitmap_bits "\<lambda>_. {..<32}" unat
  UintBitmap_setBit UintBitmap_clearBit UintBitmap_isSetBit
  by unfold_locales
    (auto simp: UintBitmap_bits_def UintBitmap_setBit_def UintBitmap_clearBit_def
      UintBitmap_isSetBit_def drop_bit_and_1_iff bit_simps dest: bit_imp_le_length)

lemma Bitmap_bits_reset [simp]: "Bitmap_bits (Bitmap_reset bm) = {}" "Bitmap_bits (Bitmap_new n) = {}"
  by (auto simp: Bitmap_bits_def Bitmap_reset_def Bitmap_new_def dest: mult_div_less)

lemma Bitmap_bits_bitmapOr:
  "length b = length bm \<Longrightarrow> Bitmap_bits (Bitmap_bitmapOr bm b) = Bitmap_bits bm \<union> Bitmap_bits b"
  by (auto simp: Bitmap_bits_def Bitmap_bitmapOr_def bit_simps mult_div_less)

subsection \<open>Scanning for the next bit\<close>

lemma ctzll_least:
  assumes "b \<noteq> 0"
  shows "bit b (ctzll b) \<and> (\<forall>n < ctzll b. \<not> bit b n)"
proof -
  let ?P = "\<lambda>n. \<not> bit b n"
  from assms obtain n where n: "n < 64" "bit b n"
    by (auto simp: word_bits_nonzero)
  then have lt: "ctzll b < 64"
    using length_takeWhile_less [of n "[0..<64]" ?P] by (simp add: ctzll_def)
  have "\<not> ?P ([0..<64] ! length (takeWhile ?P [0..<64]))"
    using lt by (intro nth_length_takeWhile) (simp add: ctzll_def)
  then have "bit b (ctzll b)"
    using lt by (simp add: ctzll_def)
  moreover have "\<not> bit b n" if "n < ctzll b" for n
  proof -
    have "takeWhile ?P [0..<64] ! n \<in> set (takeWhile ?P [0..<64])"
      using that by (intro nth_mem) (simp add: ctzll_def)
    moreover have "takeWhile ?P [0..<64] ! n = n"
      using that lt by (simp add: ctzll_def takeWhile_nth)
    ultimately show ?thesis
      by (metis set_takeWhileD)
  qed
  ultimately show ?thesis by blast
qed

lemma bitmapGetNext_spec:
  assumes "start < 64"
  shows "case Utils_bitmapGetNext w start of r \<Rightarrow>
    (if r < 0 then \<forall>n \<ge> unat start. \<not> bit w n
     else bit w (nat r) \<and> unat start \<le> nat r \<and> (\<forall>n. unat start \<le> n \<and> n < nat r \<longrightarrow> \<not> bit w n))"
proof -
  define b where "b = w AND NOT (push_bit (unat start) 1 - 1)"
  have "push_bit (unat start) 1 - 1 = (mask (unat start) :: u64)"
    by (simp add: mask_eq_exp_minus_1 push_bit_of_1)
  then have bb: "bit b n \<longleftrightarrow> bit w n \<and> unat start \<le> n" for n
    by (auto simp: b_def bit_simps dest: bit_imp_le_length)
  show ?thesis
  proof (cases "b = 0")
    case True
    then have "\<not> bit b n" for n by simp
    with assms True bb show ?thesis
      by (auto simp: Utils_bitmapGetNext_def Let_def b_def)
  next
    case False
    with assms have "Utils_bitmapGetNext w start = int (ctzll b)"
      by (auto simp: Utils_bitmapGetNext_def Let_def b_def)
    with ctzll_least [OF False] bb show ?thesis by auto
  qed
qed

text \<open>The value a scan from bit \<open>lo\<close> on must return.\<close>

definition next_bit_spec :: "nat set \<Rightarrow> nat \<Rightarrow> int \<Rightarrow> bool" where
  "next_bit_spec S lo r \<longleftrightarrow>
     (if r < 0 then r = -1 \<and> (\<forall>n \<ge> lo. n \<notin> S)
      else nat r \<in> S \<and> lo \<le> nat r \<and> (\<forall>n. lo \<le> n \<and> n < nat r \<longrightarrow> n \<notin> S))"

lemma next_bit_spec_skip:
  assumes "next_bit_spec S lo' r" "lo \<le> lo'" "\<And>n. lo \<le> n \<Longrightarrow> n < lo' \<Longrightarrow> n \<notin> S"
  shows "next_bit_spec S lo r"
proof -
  have "n \<notin> S" if "lo \<le> n" "lo' \<le> n \<Longrightarrow> n \<notin> S" for n
    using that assms(3) [of n] by (cases "lo' \<le> n") auto
  with assms(1,2) show ?thesis
    by (auto simp: next_bit_spec_def split: if_splits)
qed

lemma Bitmap_bits_word:
  "i < length bm \<Longrightarrow> n < 64 \<Longrightarrow> i * 64 + n \<in> Bitmap_bits bm \<longleftrightarrow> bit (bm ! i) n"
  by (auto simp: Bitmap_bits_def)

lemma getNext_word:
  assumes "i < length bm" "off < 64"
  shows "(Utils_bitmapGetNext (bm ! i) off < 0 \<longrightarrow>
            (\<forall>n. i * 64 + unat off \<le> n \<and> n < Suc i * 64 \<longrightarrow> n \<notin> Bitmap_bits bm)) \<and>
         (0 \<le> Utils_bitmapGetNext (bm ! i) off \<longrightarrow>
            next_bit_spec (Bitmap_bits bm) (i * 64 + unat off) (int (i * 64) + Utils_bitmapGetNext (bm ! i) off))"
proof -
  define r where "r = Utils_bitmapGetNext (bm ! i) off"
  have off: "unat off < 64" using assms(2) by (simp add: word_less_nat_alt)
  have spec: "if r < 0 then \<forall>n \<ge> unat off. \<not> bit (bm ! i) n
     else bit (bm ! i) (nat r) \<and> unat off \<le> nat r \<and> (\<forall>n. unat off \<le> n \<and> n < nat r \<longrightarrow> \<not> bit (bm ! i) n)"
    using bitmapGetNext_spec [OF assms(2), of "bm ! i"] by (simp add: r_def)
  have word: "n \<in> Bitmap_bits bm \<longleftrightarrow> bit (bm ! i) (n - i * 64)" if "i * 64 \<le> n" "n < Suc i * 64" for n
    using Bitmap_bits_word [OF assms(1), of "n - i * 64"] that by simp
  show ?thesis
  proof (cases "r < 0")
    case True
    have "n \<notin> Bitmap_bits bm" if "i * 64 + unat off \<le> n" "n < Suc i * 64" for n
      using that True spec word [of n] by auto
    then show ?thesis using True by (auto simp: r_def)
  next
    case False
    then have b: "bit (bm ! i) (nat r)" "unat off \<le> nat r"
      and least: "\<And>n. unat off \<le> n \<Longrightarrow> n < nat r \<Longrightarrow> \<not> bit (bm ! i) n"
      using spec by auto
    have lt: "nat r < 64" using bit_imp_le_length [OF b(1)] by simp
    have "n \<notin> Bitmap_bits bm" if "i * 64 + unat off \<le> n" "n < i * 64 + nat r" for n
      using that lt word [of n] least [of "n - i * 64"] by auto
    moreover have "i * 64 + nat r \<in> Bitmap_bits bm"
      using Bitmap_bits_word [OF assms(1) lt] b(1) by simp
    moreover have "nat (int (i * 64) + r) = i * 64 + nat r"
      using False by linarith
    ultimately show ?thesis
      using False b(2) unfolding next_bit_spec_def r_def [symmetric] by auto
  qed
qed

lemma Bitmap_getNext_loop_spec:
  assumes "start_idx \<le> i" "start_offset < 64"
  shows "next_bit_spec (Bitmap_bits bm)
    (if i = start_idx then i * 64 + unat start_offset else i * 64)
    (Bitmap_getNext_loop bm start_idx start_offset i)"
  using assms
proof (induction bm start_idx start_offset i rule: Bitmap_getNext_loop.induct)
  case (1 bm start_idx start_offset i)
  define off where "off = (if i = start_idx then start_offset else 0)"
  define r where "r = Utils_bitmapGetNext (bm ! i) off"
  have lo: "(if i = start_idx then i * 64 + unat start_offset else i * 64) = i * 64 + unat off"
    by (simp add: off_def)
  show ?case
  proof (cases "i < length bm")
    case False
    then show ?thesis
      by (auto simp: Bitmap_getNext_loop.simps [of bm start_idx] next_bit_spec_def Bitmap_bits_def)
  next
    case True
    have "off < 64" using "1.prems" by (simp add: off_def)
    note word = getNext_word [OF True this, folded r_def]
    show ?thesis
    proof (cases "0 \<le> r")
      case True
      with \<open>i < length bm\<close> word show ?thesis
        unfolding lo by (simp add: Bitmap_getNext_loop.simps [of bm start_idx] Let_def off_def r_def)
    next
      case False
      have "next_bit_spec (Bitmap_bits bm) (Suc i * 64)
          (Bitmap_getNext_loop bm start_idx start_offset (Suc i))"
        using "1.IH" [OF True refl] "1.prems" False by (simp add: r_def off_def)
      moreover have "i * 64 + unat off \<le> Suc i * 64"
        using \<open>off < 64\<close> by (simp add: word_less_nat_alt)
      ultimately have "next_bit_spec (Bitmap_bits bm) (i * 64 + unat off)
          (Bitmap_getNext_loop bm start_idx start_offset (Suc i))"
        using word False by (elim next_bit_spec_skip) auto
      with True False show ?thesis
        unfolding lo by (simp add: Bitmap_getNext_loop.simps [of bm start_idx] Let_def off_def r_def)
    qed
  qed
qed

section \<open>Properties\<close>

text \<open>
  \<open>Bitmap::getNext\<close> scans word by word and returns the least bit that is set at or
  after \<open>start\<close>, and -1 exactly when there is none.
\<close>

theorem Bitmap_getNext_least:
  "next_bit_spec (Bitmap_bits bm) (unat start) (Bitmap_getNext bm start)"
proof -
  have off: "unat (ucast (start AND 0x3F) :: u8) = unat start mod 64"
    by (simp add: unsigned_ucast_eq take_bit_eq_mod bid_split)
  then have "(ucast (start AND 0x3F) :: u8) < 64"
    by (simp add: word_less_nat_alt)
  from Bitmap_getNext_loop_spec [OF order_refl this, of bm "unat start div 64"] off
  show ?thesis
    by (simp add: Bitmap_getNext_def bid_split Let_def)
qed

text \<open>
  the bits set from a comma-separated list (\<open>Bitmap(char *list)\<close>) are exactly the
  numbers of the list, each reduced to 16 bits, that fit the bitmap.
\<close>

theorem Bitmap_fromList_bits:
  "Bitmap_isSetBit (Bitmap_fromList n list) bid \<longleftrightarrow>
     unat bid < 64 * n \<and>
     bid \<in> (\<lambda>item. word_of_int (atoi item)) ` set (strtok_items CHR '','' [] list)"
proof -
  let ?ids = "map (\<lambda>item. word_of_int (atoi item) :: u16) (strtok_items CHR '','' [] list)"
  have "Bitmap_fromList n list = foldl Bitmap_setBit (Bitmap_new n) ?ids"
    by (simp add: Bitmap_fromList_def Bitmap_setBits_def foldl_map)
  then have "Bitmap_bits (Bitmap_fromList n list) = unat ` set ?ids \<inter> {..<64 * n}"
    by (simp add: bm.bits_fold_setb)
  then show ?thesis
    by (simp add: bm.isset_iff inj_image_mem_iff [OF inj_unsigned] conj_commute)
qed

end
