(* ===== verification/Pow2.thy ===== *)
theory Pow2
  imports Prelude
begin

text \<open>
  \<open>Utils::pow2\<close> (src/Utils.cpp), which sizes the rings and the bloom filter: the
  bit-smearing code is shown to compute the least power of two that is not below its
  argument.
\<close>

section \<open>Rounding up to a power of two (Utils::pow2)\<close>

definition Utils_pow2 :: "u32 \<Rightarrow> u32" where
  "Utils_pow2 v0 =
     (let v = v0 - 1;
          v = v OR drop_bit 1 v;
          v = v OR drop_bit 2 v;
          v = v OR drop_bit 4 v;
          v = v OR drop_bit 8 v;
          v = v OR drop_bit 16 v
      in v + 1)"

lemma smear_step:
  fixes s x :: "'a::len word"
  assumes "\<And>i. bit s i \<longleftrightarrow> (\<exists>j. i \<le> j \<and> j < i + k \<and> bit x j)"
  shows "bit (s OR drop_bit k s) i \<longleftrightarrow> (\<exists>j. i \<le> j \<and> j < i + (k + k) \<and> bit x j)"
proof -
  have split: "i \<le> j \<and> j < i + (k + k) \<longleftrightarrow> (i \<le> j \<and> j < i + k) \<or> (k + i \<le> j \<and> j < k + i + k)" for j
    by arith
  have "bit (s OR drop_bit k s) i \<longleftrightarrow> bit s i \<or> bit s (k + i)"
    by (simp add: bit_simps)
  also have "\<dots> \<longleftrightarrow> (\<exists>j. i \<le> j \<and> j < i + k \<and> bit x j) \<or> (\<exists>j. k + i \<le> j \<and> j < k + i + k \<and> bit x j)"
    by (simp add: assms)
  also have "\<dots> \<longleftrightarrow> (\<exists>j. i \<le> j \<and> j < i + (k + k) \<and> bit x j)"
    using split by blast
  finally show ?thesis .
qed

definition smear32 :: "u32 \<Rightarrow> u32" where
  "smear32 x =
     (let v = x OR drop_bit 1 x; v = v OR drop_bit 2 v; v = v OR drop_bit 4 v;
          v = v OR drop_bit 8 v
      in v OR drop_bit 16 v)"

lemma Utils_pow2_smear: "Utils_pow2 v = smear32 (v - 1) + 1"
  by (simp add: Utils_pow2_def smear32_def Let_def)

lemma bit_smear32: "bit (smear32 x) i \<longleftrightarrow> (\<exists>j \<ge> i. bit x j)"
proof -
  define v1 where "v1 = x OR drop_bit 1 x"
  define v2 where "v2 = v1 OR drop_bit 2 v1"
  define v3 where "v3 = v2 OR drop_bit 4 v2"
  define v4 where "v4 = v3 OR drop_bit 8 v3"
  define v5 where "v5 = v4 OR drop_bit 16 v4"
  have 0: "bit x i \<longleftrightarrow> (\<exists>j. i \<le> j \<and> j < i + 1 \<and> bit x j)" for i
    by (metis Suc_eq_plus1 le_antisym less_Suc_eq_le order_refl)
  have 1: "bit v1 i \<longleftrightarrow> (\<exists>j. i \<le> j \<and> j < i + 2 \<and> bit x j)" for i
    using smear_step [of x 1 x i, OF 0] by (simp add: v1_def)
  have 2: "bit v2 i \<longleftrightarrow> (\<exists>j. i \<le> j \<and> j < i + 4 \<and> bit x j)" for i
    using smear_step [of v1 2 x i, OF 1] by (simp add: v2_def)
  have 3: "bit v3 i \<longleftrightarrow> (\<exists>j. i \<le> j \<and> j < i + 8 \<and> bit x j)" for i
    using smear_step [of v2 4 x i, OF 2] by (simp add: v3_def)
  have 4: "bit v4 i \<longleftrightarrow> (\<exists>j. i \<le> j \<and> j < i + 16 \<and> bit x j)" for i
    using smear_step [of v3 8 x i, OF 3] by (simp add: v4_def)
  have 5: "bit v5 i \<longleftrightarrow> (\<exists>j. i \<le> j \<and> j < i + 32 \<and> bit x j)" for i
    using smear_step [of v4 16 x i, OF 4] by (simp add: v5_def)
  have "smear32 x = v5"
    by (simp add: smear32_def Let_def v5_def v4_def v3_def v2_def v1_def)
  moreover have "j < 32" if "bit x j" for j
    using bit_imp_le_length [OF that] by simp
  ultimately show ?thesis
    using 5 [of i] by (metis trans_less_add2)
qed

lemma word_top_bit:
  fixes x :: "'a::len word"
  assumes "x \<noteq> 0"
  obtains m where "m < LENGTH('a)" "\<And>j. bit x j \<Longrightarrow> j \<le> m" "2 ^ m \<le> unat x" "unat x < 2 ^ Suc m" "bit x m"
proof -
  let ?B = "{j. bit x j}"
  have fin: "finite ?B"
    by (rule finite_subset [of _ "{..<LENGTH('a)}"]) (auto dest: bit_imp_le_length)
  from assms have ne: "?B \<noteq> {}" by (auto simp: word_bits_nonzero)
  define m where "m = Max ?B"
  have bm: "bit x m" using Max_in [OF fin ne] by (simp add: m_def)
  have le: "j \<le> m" if "bit x j" for j using Max_ge [OF fin] that by (simp add: m_def)
  have "bit (unat x) m" using bm by (simp add: bit_unsigned_iff bit_imp_le_length)
  then have "unat x div 2 ^ m \<noteq> 0" by (metis bit_iff_odd even_zero)
  then have lo: "2 ^ m \<le> unat x" by (metis div_less not_le)
  have "take_bit (Suc m) x = x"
    by (rule bit_word_eqI) (auto simp: bit_take_bit_iff less_Suc_eq_le dest: le)
  then have "unat x = take_bit (Suc m) (unat x)" by (metis unsigned_take_bit_eq)
  then have hi: "unat x < 2 ^ Suc m" by (metis take_bit_nat_less_exp)
  show thesis
    using that [of m] bm le lo hi by (auto dest: bit_imp_le_length)
qed

lemma smear32_mask:
  assumes "m < 32" "bit x m" "\<And>j. bit x j \<Longrightarrow> j \<le> m"
  shows "smear32 x = mask (Suc m)"
  using assms by (intro bit_word_eqI) (auto simp: bit_smear32 bit_mask_iff less_Suc_eq_le dest: order_trans)

lemma Utils_pow2_bounds:
  assumes "1 \<le> unat v" "unat v \<le> 2 ^ 31"
  obtains k where "k \<le> 31" "unat (Utils_pow2 v) = 2 ^ k" "unat v \<le> 2 ^ k" "2 ^ k < 2 * unat v"
proof (cases "v - 1 = 0")
  case True
  then have "v = 1" by simp
  moreover have "smear32 0 = 0" by (simp add: smear32_def)
  ultimately have "unat (Utils_pow2 v) = 2 ^ 0" "unat v = 1" by (simp_all add: Utils_pow2_smear)
  then show ?thesis using that [of 0] by simp
next
  case False
  have v1: "unat (v - 1) = unat v - 1"
    using assms(1) by (simp add: unat_sub word_le_nat_alt)
  from False obtain m where m: "m < 32" "bit (v - 1) m" "\<And>j. bit (v - 1) j \<Longrightarrow> j \<le> m"
    "2 ^ m \<le> unat (v - 1)" "unat (v - 1) < 2 ^ Suc m"
    by (rule word_top_bit) auto
  have "(2::nat) ^ m < 2 ^ 31" using m(4) v1 assms by simp
  then have m31: "m < 31" by (rule power_less_imp_less_exp [rotated]) simp
  have "Utils_pow2 v = 2 ^ Suc m"
    by (simp add: Utils_pow2_smear smear32_mask [OF m(1,2,3)] mask_eq_exp_minus_1)
  moreover have "unat (2 ^ Suc m :: u32) = 2 ^ Suc m"
    using m31 by (intro unat_exp_2) simp
  ultimately show ?thesis
    using that [of "Suc m"] m(4,5) v1 assms m31 by auto
qed

section \<open>Properties\<close>

text \<open>
  \<open>Utils::pow2\<close> returns the least power of two that is not below its argument, for
  every argument from 1 to 2 to the 31.
\<close>

theorem Utils_pow2_least:
  assumes "1 \<le> unat v" "unat v \<le> 2 ^ 31"
  shows "\<exists>k. unat (Utils_pow2 v) = 2 ^ k \<and> unat v \<le> 2 ^ k \<and> (\<forall>j. unat v \<le> 2 ^ j \<longrightarrow> k \<le> j)"
proof -
  obtain k where k: "unat (Utils_pow2 v) = 2 ^ k" "unat v \<le> 2 ^ k" "2 ^ k < 2 * unat v"
    using assms by (rule Utils_pow2_bounds)
  have "k \<le> j" if "unat v \<le> 2 ^ j" for j
  proof -
    have "(2::nat) ^ k < 2 ^ Suc j" using k(3) that by simp
    then have "k < Suc j" by (rule power_less_imp_less_exp [rotated]) simp
    then show ?thesis by simp
  qed
  with k show ?thesis by blast
qed

theorem Utils_pow2_least_witness:
  "\<exists>k. unat (Utils_pow2 1000) = 2 ^ k \<and> unat (1000 :: u32) \<le> 2 ^ k \<and> (\<forall>j. unat (1000 :: u32) \<le> 2 ^ j \<longrightarrow> k \<le> j)"
  by (rule Utils_pow2_least) simp_all

end
