(* ===== verification/Bloom_Filter.thy ===== *)
theory Bloom_Filter
  imports Pow2
begin

text \<open>
  The bloom filter that remembers which addresses were already resolved (include/Bloom.h,
  src/Bloom.cpp), over the heap-allocated \<open>Bitmask\<close> (include/Bitmask.h, src/Bitmask.cpp).
  The bitmask's block is a list of bytes that the code reads and
  writes through an \<open>u_int32_t *\<close>: an access that leaves the block is the error
  \<open>Heap_overflow\<close>.
\<close>

section \<open>Bitmask: a heap block of bytes read as 32-bit words\<close>

record bitmask =
  tot_elems :: u32 \<comment> \<open>size in bits\<close>
  num_elems :: u32 \<comment> \<open>size in bytes, as the header says\<close>
  block :: "u8 list" \<comment> \<open>the malloc'ed block behind \<open>bits\<close>\<close>

definition load32 :: "u8 list \<Rightarrow> nat \<Rightarrow> c_error + u32" where
  "load32 m idx =
     (if 4 * idx + 4 \<le> length m then
        Inr (ucast (m ! (4 * idx)) OR push_bit 8 (ucast (m ! (4 * idx + 1)))
          OR push_bit 16 (ucast (m ! (4 * idx + 2))) OR push_bit 24 (ucast (m ! (4 * idx + 3))))
      else Inl Heap_overflow)"

definition store32 :: "u8 list \<Rightarrow> nat \<Rightarrow> u32 \<Rightarrow> c_error + u8 list" where
  "store32 m idx w =
     (if 4 * idx + 4 \<le> length m then
        Inr (m[4 * idx := ucast w, 4 * idx + 1 := ucast (drop_bit 8 w),
               4 * idx + 2 := ucast (drop_bit 16 w), 4 * idx + 3 := ucast (drop_bit 24 w)])
      else Inl Heap_overflow)"

text \<open>\<open>malloc_ok\<close>: whether the allocation succeeds; the constructor exits when it does not.\<close>

definition Bitmask_new :: "bool \<Rightarrow> u32 \<Rightarrow> c_error + bitmask" where
  "Bitmask_new malloc_ok num_tot_elems =
     (let n = num_tot_elems div 8
      in if n = 0 \<or> num_tot_elems \<noteq> n * 8 then Inl Exit_failure
         else if \<not> malloc_ok then Inl Exit_failure
         else Inr \<lparr>tot_elems = num_tot_elems, num_elems = n, block = replicate (unat n) 0\<rparr>)"

text \<open>The guards compare a word index with the number of bytes, as the source does.\<close>

definition bitmask_set :: "bitmask \<Rightarrow> u32 \<Rightarrow> c_error + bitmask" where
  "bitmask_set b n =
     (let idx = drop_bit 5 n
      in if idx \<ge> num_elems b then Inr b
         else case load32 (block b) (unat idx) of
           Inl e \<Rightarrow> Inl e
         | Inr w \<Rightarrow>
             (case store32 (block b) (unat idx) (w OR push_bit (unat (n AND 0x1F)) 1) of
                Inl e \<Rightarrow> Inl e
              | Inr m \<Rightarrow> Inr (b\<lparr>block := m\<rparr>)))"

definition bitmask_clr :: "bitmask \<Rightarrow> u32 \<Rightarrow> c_error + bitmask" where
  "bitmask_clr b n =
     (let idx = drop_bit 5 n
      in if idx \<ge> num_elems b then Inr b
         else case load32 (block b) (unat idx) of
           Inl e \<Rightarrow> Inl e
         | Inr w \<Rightarrow>
             (case store32 (block b) (unat idx) (w AND NOT (push_bit (unat (n AND 0x1F)) 1)) of
                Inl e \<Rightarrow> Inl e
              | Inr m \<Rightarrow> Inr (b\<lparr>block := m\<rparr>)))"

definition bitmask_isset :: "bitmask \<Rightarrow> u32 \<Rightarrow> c_error + bool" where
  "bitmask_isset b n =
     (let idx = drop_bit 5 n
      in if idx \<ge> num_elems b then Inr False
         else case load32 (block b) (unat idx) of
           Inl e \<Rightarrow> Inl e
         | Inr w \<Rightarrow> Inr (w AND push_bit (unat (n AND 0x1F)) 1 \<noteq> 0))"

definition bitmask_clr_all :: "bitmask \<Rightarrow> bitmask" where
  "bitmask_clr_all b = b\<lparr>block := replicate (unat (num_elems b)) 0\<rparr>"

section \<open>Bloom\<close>

record bloom =
  bl_bitmask :: bitmask
  num_bloom_bits :: u32
  bl_mask :: u32

definition Bloom_new :: "bool \<Rightarrow> u32 \<Rightarrow> c_error + bloom" where
  "Bloom_new malloc_ok n =
     (case Bitmask_new malloc_ok n of
        Inl e \<Rightarrow> Inl e
      | Inr b \<Rightarrow> Inr \<lparr>bl_bitmask = b, num_bloom_bits = Utils_pow2 n, bl_mask = Utils_pow2 n - 1\<rparr>)"

text \<open>
  \<open>tolower\<close> in the C locale, on a \<open>char\<close> that is signed and promoted to \<open>int\<close>; the
  string ends at its NUL byte.
\<close>

definition c_tolower :: "char \<Rightarrow> int" where
  "c_tolower c =
     (let v = sint (of_char c :: u8) in if 65 \<le> v \<and> v \<le> 90 then v + 32 else v)"

fun ntophash_loop :: "u32 \<Rightarrow> u32 \<Rightarrow> string \<Rightarrow> u32" where
  "ntophash_loop hash i [] = hash"
| "ntophash_loop hash i (c # cs) =
     (if (of_char c :: nat) = 0 then hash
      else ntophash_loop (hash + word_of_int (c_tolower c) * (i + 1)) (i + 1) cs)"

definition Bloom_ntophash :: "bloom \<Rightarrow> string \<Rightarrow> u32" where
  "Bloom_ntophash bl str = ntophash_loop 0 0 str AND bl_mask bl"

definition Bloom_setBit :: "bloom \<Rightarrow> string \<Rightarrow> c_error + bloom" where
  "Bloom_setBit bl str =
     map_sum (\<lambda>e. e) (\<lambda>b. bl\<lparr>bl_bitmask := b\<rparr>) (bitmask_set (bl_bitmask bl) (Bloom_ntophash bl str))"

definition Bloom_unsetBit :: "bloom \<Rightarrow> string \<Rightarrow> c_error + bloom" where
  "Bloom_unsetBit bl str =
     map_sum (\<lambda>e. e) (\<lambda>b. bl\<lparr>bl_bitmask := b\<rparr>) (bitmask_clr (bl_bitmask bl) (Bloom_ntophash bl str))"

definition Bloom_isSetBit :: "bloom \<Rightarrow> string \<Rightarrow> c_error + bool" where
  "Bloom_isSetBit bl str = bitmask_isset (bl_bitmask bl) (Bloom_ntophash bl str)"

section \<open>Bitmask correctness inside its block\<close>

text \<open>
  A bitmask whose size is a multiple of 32 bits. The constructor accepts every positive
  multiple of 8; the program builds one of 4096 bits (VLANBidirectionalTraffic) and one of
  2 << 19 bits (the bloom filter).
\<close>

definition Bitmask_wf :: "bitmask \<Rightarrow> bool" where
  "Bitmask_wf b \<longleftrightarrow>
     length (block b) = unat (num_elems b) \<and> unat (tot_elems b) = 8 * unat (num_elems b) \<and>
     4 dvd unat (num_elems b)"

definition block_bits :: "u8 list \<Rightarrow> nat set" where
  "block_bits m = {n. n < 8 * length m \<and> bit (m ! (n div 8)) (n mod 8)}"

lemma in_block_bits:
  "4 * idx + 4 \<le> length m \<Longrightarrow> k < 32 \<Longrightarrow>
    32 * idx + k \<in> block_bits m \<longleftrightarrow> bit (m ! (4 * idx + k div 8)) (k mod 8)"
proof -
  assume "4 * idx + 4 \<le> length m" "k < 32"
  moreover have "(32 * idx + k) div 8 = 4 * idx + k div 8" "(32 * idx + k) mod 8 = k mod 8"
    by presburger+
  ultimately show ?thesis by (auto simp: block_bits_def)
qed

lemma byte_cases: "(k::nat) < 32 \<Longrightarrow> k div 8 = 0 \<or> k div 8 = 1 \<or> k div 8 = 2 \<or> k div 8 = 3"
  by presburger

lemma byte_bound: "bit (b::u8) i \<Longrightarrow> i < 8"
  by (drule bit_imp_le_length) simp

lemma load32_bits:
  assumes "load32 m idx = Inr w" "k < 32"
  shows "bit w k \<longleftrightarrow> 32 * idx + k \<in> block_bits m"
proof -
  have len: "4 * idx + 4 \<le> length m"
    using assms(1) by (auto simp: load32_def split: if_splits)
  then have w: "w = ucast (m ! (4 * idx)) OR push_bit 8 (ucast (m ! (4 * idx + 1)))
          OR push_bit 16 (ucast (m ! (4 * idx + 2))) OR push_bit 24 (ucast (m ! (4 * idx + 3)))"
    using assms(1) by (simp add: load32_def)
  have k: "k = 8 * (k div 8) + k mod 8" "k mod 8 < 8" by simp_all
  obtain q r where qr: "k div 8 = q" "k mod 8 = r" "k = 8 * q + r" "r < 8" "q = 0 \<or> q = 1 \<or> q = 2 \<or> q = 3"
    using k byte_cases [OF assms(2)] by metis
  have "bit w k \<longleftrightarrow> bit (m ! (4 * idx + q)) r"
    using qr(3,4,5) unfolding w by (elim disjE) (auto simp: bit_simps dest: byte_bound)
  then show ?thesis using in_block_bits [OF len assms(2)] qr by simp
qed

lemma store32_bits:
  assumes "store32 m idx w = Inr m'"
  shows "length m' = length m"
    and "n \<in> block_bits m' \<longleftrightarrow>
      (if 32 * idx \<le> n \<and> n < 32 * idx + 32 then bit w (n - 32 * idx) else n \<in> block_bits m)"
proof -
  have len: "4 * idx + 4 \<le> length m"
    using assms by (auto simp: store32_def split: if_splits)
  then have m': "m' = m[4 * idx := ucast w, 4 * idx + 1 := ucast (drop_bit 8 w),
               4 * idx + 2 := ucast (drop_bit 16 w), 4 * idx + 3 := ucast (drop_bit 24 w)]"
    using assms by (simp add: store32_def)
  show len': "length m' = length m" by (simp add: m')
  show "n \<in> block_bits m' \<longleftrightarrow>
      (if 32 * idx \<le> n \<and> n < 32 * idx + 32 then bit w (n - 32 * idx) else n \<in> block_bits m)"
  proof (cases "32 * idx \<le> n \<and> n < 32 * idx + 32")
    case True
    define k where "k = n - 32 * idx"
    have k32: "k < 32" and n: "n = 32 * idx + k" using True by (auto simp: k_def)
    obtain q r where qr: "k div 8 = q" "k mod 8 = r" "k = 8 * q + r" "r < 8"
      "q = 0 \<or> q = 1 \<or> q = 2 \<or> q = 3"
      using byte_cases [OF k32] by (metis mod_less_divisor mult_div_mod_eq zero_less_numeral)
    have "n \<in> block_bits m' \<longleftrightarrow> bit (m' ! (4 * idx + q)) r"
      using in_block_bits [of idx m' k] len len' k32 qr n by simp
    also have "\<dots> \<longleftrightarrow> bit w k"
      using qr(3,4,5) len unfolding m'
      by (elim disjE) (auto simp: bit_simps nth_list_update)
    finally show ?thesis using True by (simp add: k_def)
  next
    case False
    then have "n div 8 < 4 * idx \<or> 4 * idx + 4 \<le> n div 8" by auto
    then have "m' ! (n div 8) = m ! (n div 8)" unfolding m' by auto
    with False len' show ?thesis by (auto simp: block_bits_def)
  qed
qed

lemma unat_word_index: "unat (drop_bit 5 (n::u32)) = unat n div 32" "unat ((n::u32) AND 0x1F) = unat n mod 32"
proof -
  show "unat (drop_bit 5 n) = unat n div 32" by (simp add: unat_drop_bit_div)
  have "(0x1F :: u32) = mask 5" by (simp add: mask_eq_exp_minus_1)
  then show "unat (n AND 0x1F) = unat n mod 32" by (simp only: unat_and_mask_mod) simp
qed

lemma Bitmask_wf_index:
  fixes n :: u32
  assumes "Bitmask_wf b" "unat n < unat (tot_elems b)"
  shows "\<not> drop_bit 5 n \<ge> num_elems b" "4 * unat (drop_bit 5 n) + 4 \<le> length (block b)"
proof -
  obtain j where j: "unat (num_elems b) = 4 * j" and tot: "unat (tot_elems b) = 8 * (4 * j)"
    and len: "length (block b) = 4 * j"
    using assms(1) by (auto simp: Bitmask_wf_def)
  have "unat n div 32 < j" using assms(2) tot by auto
  with len show "4 * unat (drop_bit 5 n) + 4 \<le> length (block b)"
    by (simp add: unat_word_index)
  show "\<not> drop_bit 5 n \<ge> num_elems b"
    using \<open>unat n div 32 < j\<close> j by (simp add: word_le_nat_alt unat_word_index)
qed

lemma Bitmask_wf_load:
  fixes n :: u32
  assumes "Bitmask_wf b" "unat n < unat (tot_elems b)"
  shows "\<exists>w. load32 (block b) (unat (drop_bit 5 n)) = Inr w \<and>
    (\<forall>k < 32. bit w k \<longleftrightarrow> 32 * (unat n div 32) + k \<in> block_bits (block b))"
proof -
  obtain w where w: "load32 (block b) (unat (drop_bit 5 n)) = Inr w"
    using Bitmask_wf_index(2) [OF assms] by (auto simp: load32_def)
  from w load32_bits [OF w] show ?thesis by (auto simp: unat_word_index)
qed

lemma Bitmask_update_bits:
  fixes n :: u32
  assumes "Bitmask_wf b" "unat n < unat (tot_elems b)"
    and "\<And>k. k < 32 \<Longrightarrow> bit w k \<longleftrightarrow> (if k = unat n mod 32 then v else 32 * (unat n div 32) + k \<in> block_bits (block b))"
  obtains m where "store32 (block b) (unat (drop_bit 5 n)) w = Inr m" "Bitmask_wf (b\<lparr>block := m\<rparr>)"
    "block_bits m = (if v then insert (unat n) (block_bits (block b)) else block_bits (block b) - {unat n})"
proof -
  obtain m where m: "store32 (block b) (unat (drop_bit 5 n)) w = Inr m"
    using Bitmask_wf_index(2) [OF assms(1,2)] by (auto simp: store32_def)
  note sb = store32_bits [OF m, unfolded unat_word_index]
  define q r where "q = unat n div 32" and "r = unat n mod 32"
  have n: "unat n = 32 * q + r" "r < 32" by (simp_all add: q_def r_def)
  have "x \<in> block_bits m \<longleftrightarrow> (if x = unat n then v else x \<in> block_bits (block b))" for x
  proof (cases "32 * (unat n div 32) \<le> x \<and> x < 32 * (unat n div 32) + 32")
    case True
    then have "x - 32 * (unat n div 32) < 32" by auto
    moreover have "x - 32 * (unat n div 32) = unat n mod 32 \<longleftrightarrow> x = unat n"
      using True n by (auto simp flip: q_def r_def)
    ultimately show ?thesis using True sb(2) [of x] assms(3) [of "x - 32 * (unat n div 32)"] by auto
  next
    case False
    moreover have "x \<noteq> unat n" using False n by (auto simp flip: q_def r_def)
    ultimately show ?thesis using sb(2) [of x] by auto
  qed
  moreover have "Bitmask_wf (b\<lparr>block := m\<rparr>)"
    using assms(1) sb(1) by (simp add: Bitmask_wf_def)
  moreover from calculation(1) have
    "block_bits m = (if v then insert (unat n) (block_bits (block b)) else block_bits (block b) - {unat n})"
    by (intro set_eqI) simp
  ultimately show thesis using that [OF m] by blast
qed

lemma bitmask_set_ok:
  fixes n :: u32
  assumes "Bitmask_wf b" "unat n < unat (tot_elems b)"
  obtains b' where "bitmask_set b n = Inr b'" "Bitmask_wf b'" "tot_elems b' = tot_elems b"
    "block_bits (block b') = insert (unat n) (block_bits (block b))"
proof -
  obtain w where w: "load32 (block b) (unat (drop_bit 5 n)) = Inr w"
    "\<And>k. k < 32 \<Longrightarrow> bit w k \<longleftrightarrow> 32 * (unat n div 32) + k \<in> block_bits (block b)"
    using Bitmask_wf_load [OF assms] by blast
  have "bit (w OR 2 ^ (unat n mod 32)) k \<longleftrightarrow>
      (if k = unat n mod 32 then True else 32 * (unat n div 32) + k \<in> block_bits (block b))"
    if "k < 32" for k using w(2) [OF that] by (simp add: bit_or_exp)
  from Bitmask_update_bits [OF assms this] obtain m where
    "store32 (block b) (unat (drop_bit 5 n)) (w OR 2 ^ (unat n mod 32)) = Inr m"
    "Bitmask_wf (b\<lparr>block := m\<rparr>)" "block_bits m = insert (unat n) (block_bits (block b))"
    by auto
  with that [of "b\<lparr>block := m\<rparr>"] w(1) Bitmask_wf_index(1) [OF assms] show thesis
    by (simp add: bitmask_set_def Let_def unat_word_index)
qed

lemma bitmask_clr_ok:
  fixes n :: u32
  assumes "Bitmask_wf b" "unat n < unat (tot_elems b)"
  obtains b' where "bitmask_clr b n = Inr b'" "Bitmask_wf b'" "tot_elems b' = tot_elems b"
    "block_bits (block b') = block_bits (block b) - {unat n}"
proof -
  obtain w where w: "load32 (block b) (unat (drop_bit 5 n)) = Inr w"
    "\<And>k. k < 32 \<Longrightarrow> bit w k \<longleftrightarrow> 32 * (unat n div 32) + k \<in> block_bits (block b)"
    using Bitmask_wf_load [OF assms] by blast
  have "bit (w AND NOT (2 ^ (unat n mod 32))) k \<longleftrightarrow>
      (if k = unat n mod 32 then False else 32 * (unat n div 32) + k \<in> block_bits (block b))"
    if "k < 32" for k using w(2) [OF that] by (simp add: bit_and_not_exp)
  from Bitmask_update_bits [OF assms this] obtain m where
    "store32 (block b) (unat (drop_bit 5 n)) (w AND NOT (2 ^ (unat n mod 32))) = Inr m"
    "Bitmask_wf (b\<lparr>block := m\<rparr>)" "block_bits m = block_bits (block b) - {unat n}"
    by auto
  with that [of "b\<lparr>block := m\<rparr>"] w(1) Bitmask_wf_index(1) [OF assms] show thesis
    by (simp add: bitmask_clr_def Let_def unat_word_index)
qed

lemma bitmask_isset_ok:
  fixes n :: u32
  assumes "Bitmask_wf b" "unat n < unat (tot_elems b)"
  shows "bitmask_isset b n = Inr (unat n \<in> block_bits (block b))"
proof -
  obtain w where w: "load32 (block b) (unat (drop_bit 5 n)) = Inr w"
    "\<And>k. k < 32 \<Longrightarrow> bit w k \<longleftrightarrow> 32 * (unat n div 32) + k \<in> block_bits (block b)"
    using Bitmask_wf_load [OF assms] by blast
  have "w AND 2 ^ (unat n mod 32) \<noteq> 0 \<longleftrightarrow> bit w (unat n mod 32)"
    by (rule and_exp_nonzero) simp
  also have "\<dots> \<longleftrightarrow> unat n \<in> block_bits (block b)"
    using w(2) [of "unat n mod 32"] by simp
  finally show ?thesis
    using w(1) Bitmask_wf_index(1) [OF assms]
    by (simp add: bitmask_isset_def Let_def unat_word_index)
qed

section \<open>Properties\<close>

text \<open>
  the range guard of \<open>Bitmask::bitmask_set\<close> compares a 32-bit word index with a number
  of bytes: a bit number from the size of the mask up to four times that size passes the
  guard and is written outside the allocated block.
\<close>

theorem bitmask_set_guard_overflow:
  assumes "Bitmask_wf b" "unat (tot_elems b) \<le> unat n" "unat n < 4 * unat (tot_elems b)"
  shows "bitmask_set b n = Inl Heap_overflow"
proof -
  obtain j where j: "unat (num_elems b) = 4 * j" and tot: "unat (tot_elems b) = 8 * (4 * j)"
    and len: "length (block b) = 4 * j"
    using assms(1) by (auto simp: Bitmask_wf_def)
  have "j \<le> unat n div 32" "unat n div 32 < 4 * j" using assms(2,3) tot by auto
  then have "\<not> drop_bit 5 n \<ge> num_elems b" "\<not> 4 * unat (drop_bit 5 n) + 4 \<le> length (block b)"
    using j len by (auto simp: word_le_nat_alt unat_word_index)
  then show ?thesis by (simp add: bitmask_set_def Let_def load32_def)
qed

theorem bitmask_set_guard_overflow_witness:
  "\<exists>b. Bitmask_new True 64 = Inr b \<and> bitmask_set b 64 = Inl Heap_overflow"
proof -
  let ?b = "\<lparr>tot_elems = 64, num_elems = 8, block = replicate 8 0\<rparr>"
  have "Bitmask_new True 64 = Inr ?b" by (simp add: Bitmask_new_def)
  moreover have "bitmask_set ?b 64 = Inl Heap_overflow"
    by (rule bitmask_set_guard_overflow) (simp_all add: Bitmask_wf_def)
  ultimately show ?thesis by blast
qed

definition Bloom_wf :: "bloom \<Rightarrow> bool" where
  "Bloom_wf bl \<longleftrightarrow> Bitmask_wf (bl_bitmask bl) \<and> unat (bl_mask bl) < unat (tot_elems (bl_bitmask bl))"

lemma Bloom_hash_in_range: "Bloom_wf bl \<Longrightarrow> unat (Bloom_ntophash bl str) < unat (tot_elems (bl_bitmask bl))"
proof -
  assume "Bloom_wf bl"
  moreover have "Bloom_ntophash bl str \<le> bl_mask bl"
    by (simp add: Bloom_ntophash_def word_and_le1)
  ultimately show ?thesis
    by (auto simp: Bloom_wf_def word_le_nat_alt)
qed

text \<open>The block the constructor allocates is large enough when the size is a power of two.\<close>

lemma Bloom_new_wf:
  assumes "n = 2 ^ k" "5 \<le> k" "k \<le> 31"
  obtains bl where "Bloom_new True n = Inr bl" "Bloom_wf bl"
proof -
  have n: "unat n = 2 ^ k" using assms by (simp add: unat_exp_2)
  obtain j where j: "k = 5 + j" using assms(2) le_Suc_ex by blast
  have n32: "unat n = 32 * 2 ^ j" by (simp add: n j power_add)
  obtain i where i: "unat (Utils_pow2 n) = 2 ^ i" "unat n \<le> 2 ^ i" "2 ^ i < 2 * unat n"
  proof (rule Utils_pow2_bounds [of n])
    show "1 \<le> unat n" using n by simp
    show "unat n \<le> 2 ^ 31" unfolding n using assms(3) by (intro power_increasing) auto
  qed blast
  have "(2::nat) ^ i < 2 ^ Suc k" using i(3) n by simp
  then have "i < Suc k" by (rule power_less_imp_less_exp [rotated]) simp
  moreover have "k \<le> i" using i(2) n by (simp add: power_le_imp_le_exp)
  ultimately have p: "Utils_pow2 n = n" using i(1) n by (simp add: word_unat_eq_iff)
  have d: "unat (n div 8) = 4 * 2 ^ j" by (simp add: unat_div n32)
  have z: "n div 8 \<noteq> 0" using d by (auto simp: word_unat_eq_iff)
  have "unat n < 2 ^ LENGTH(32)" by (rule unsigned_less)
  then have "unat (n div 8 * 8) = unat n"
    using d n32 by (simp add: unat_word_ariths)
  then have m: "n = n div 8 * 8" by (simp add: word_unat_eq_iff)
  let ?b = "\<lparr>tot_elems = n, num_elems = n div 8, block = replicate (unat (n div 8)) 0\<rparr>"
  have new: "Bitmask_new True n = Inr ?b"
    using z m by (simp add: Bitmask_new_def Let_def)
  have "Bitmask_wf ?b" using d n32 by (simp add: Bitmask_wf_def)
  moreover have "unat (n - 1) < unat n"
    using n by (simp add: unat_sub word_le_nat_alt)
  ultimately show thesis
    using that new p by (simp add: Bloom_new_def Bloom_wf_def)
qed

lemma Bloom_setBit_ok:
  assumes "Bloom_wf bl"
  obtains bl' where "Bloom_setBit bl str = Inr bl'" "Bloom_wf bl'" "bl_mask bl' = bl_mask bl"
    "block_bits (block (bl_bitmask bl')) =
       insert (unat (Bloom_ntophash bl str)) (block_bits (block (bl_bitmask bl)))"
proof -
  from assms have "Bitmask_wf (bl_bitmask bl)" by (simp add: Bloom_wf_def)
  from bitmask_set_ok [OF this Bloom_hash_in_range [OF assms, of str]] obtain b' where
    "bitmask_set (bl_bitmask bl) (Bloom_ntophash bl str) = Inr b'" "Bitmask_wf b'"
    "tot_elems b' = tot_elems (bl_bitmask bl)"
    "block_bits (block b') = insert (unat (Bloom_ntophash bl str)) (block_bits (block (bl_bitmask bl)))"
    by metis
  with that [of "bl\<lparr>bl_bitmask := b'\<rparr>"] assms show thesis
    by (simp add: Bloom_setBit_def Bloom_wf_def)
qed

lemma Bloom_isSetBit_ok:
  assumes "Bloom_wf bl"
  shows "Bloom_isSetBit bl str = Inr (unat (Bloom_ntophash bl str) \<in> block_bits (block (bl_bitmask bl)))"
  using assms Bloom_hash_in_range [OF assms]
  by (simp add: Bloom_isSetBit_def Bloom_wf_def bitmask_isset_ok)

fun Bloom_addAll :: "bloom \<Rightarrow> string list \<Rightarrow> c_error + bloom" where
  "Bloom_addAll bl [] = Inr bl"
| "Bloom_addAll bl (s # ss) = (case Bloom_setBit bl s of Inl e \<Rightarrow> Inl e | Inr bl' \<Rightarrow> Bloom_addAll bl' ss)"

lemma Bloom_addAll_ok:
  assumes "Bloom_wf bl"
  shows "\<exists>bl'. Bloom_addAll bl ss = Inr bl' \<and> Bloom_wf bl' \<and> bl_mask bl' = bl_mask bl \<and>
    block_bits (block (bl_bitmask bl')) =
      block_bits (block (bl_bitmask bl)) \<union> (\<lambda>s. unat (Bloom_ntophash bl s)) ` set ss"
  using assms
proof (induction ss arbitrary: bl)
  case Nil
  then show ?case by simp
next
  case (Cons s ss)
  obtain bl1 where bl1: "Bloom_setBit bl s = Inr bl1" "Bloom_wf bl1" "bl_mask bl1 = bl_mask bl"
    "block_bits (block (bl_bitmask bl1)) =
       insert (unat (Bloom_ntophash bl s)) (block_bits (block (bl_bitmask bl)))"
    using Cons.prems by (rule Bloom_setBit_ok)
  have "Bloom_ntophash bl1 = Bloom_ntophash bl"
    by (simp add: fun_eq_iff Bloom_ntophash_def bl1(3))
  then show ?case using Cons.IH [OF bl1(2)] bl1 by auto
qed

text \<open>
  C30: the bloom filter has no false negative. Built with a power-of-two size of at least 32
  bits, it accepts any sequence of strings without leaving its block, and afterwards
  reports every one of them as set.
\<close>

theorem Bloom_no_false_negative:
  assumes "5 \<le> k" "k \<le> 31"
  shows "\<exists>bl bl'. Bloom_new True (2 ^ k) = Inr bl \<and> Bloom_addAll bl ss = Inr bl' \<and>
    (\<forall>s \<in> set ss. Bloom_isSetBit bl' s = Inr True)"
proof -
  obtain bl where bl: "Bloom_new True (2 ^ k) = Inr bl" "Bloom_wf bl"
    using Bloom_new_wf [OF refl assms] by blast
  from Bloom_addAll_ok [OF bl(2), of ss] obtain bl' where bl': "Bloom_addAll bl ss = Inr bl'"
    "Bloom_wf bl'" "bl_mask bl' = bl_mask bl"
    "(\<lambda>s. unat (Bloom_ntophash bl s)) ` set ss \<subseteq> block_bits (block (bl_bitmask bl'))"
    by auto
  then have "Bloom_isSetBit bl' s = Inr True" if "s \<in> set ss" for s
    using that Bloom_isSetBit_ok [OF bl'(2), of s] by (auto simp: Bloom_ntophash_def)
  with bl bl' show ?thesis by blast
qed

theorem Bloom_no_false_negative_witness:
  "\<exists>bl bl'. Bloom_new True (2 ^ 20) = Inr bl \<and> Bloom_addAll bl [''10.0.0.1'', ''fe80::1''] = Inr bl' \<and>
    (\<forall>s \<in> {''10.0.0.1'', ''fe80::1''}. Bloom_isSetBit bl' s = Inr True)"
  using Bloom_no_false_negative [of 20 "[''10.0.0.1'', ''fe80::1'']"] by simp

end
