(* ===== verification/Fifo_Queues.thy ===== *)
theory Fifo_Queues
  imports Prelude
begin

text \<open>
  The bounded queues between the threads: the mutex-protected \<open>FifoQueue<T>\<close>
  (include/FifoQueue.h) and its subclasses for strings, alerts, serializers and
  timeseries points. The interface \<open>fifo_queue\<close> states what the threads rely on
  (nothing lost, nothing reordered); \<open>bounded_fifo\<close> adds when an operation succeeds.
\<close>

section \<open>Interfaces\<close>

datatype 'a qop = Enq 'a | Deq

text \<open>
  Running a sequence of operations: the items the queue accepted and the items it
  delivered, both in order.
\<close>

fun run_qops ::
  "('q \<Rightarrow> 'a \<Rightarrow> bool \<times> 'q) \<Rightarrow> ('q \<Rightarrow> 'a option \<times> 'q) \<Rightarrow> 'q \<Rightarrow> 'a qop list \<Rightarrow> 'a list \<times> 'a list \<times> 'q"
where
  "run_qops enq deq q [] = ([], [], q)"
| "run_qops enq deq q (Enq x # ops) =
     (let (ok, q1) = enq q x; (acc, del, q2) = run_qops enq deq q1 ops
      in (if ok then x # acc else acc, del, q2))"
| "run_qops enq deq q (Deq # ops) =
     (let (r, q1) = deq q; (acc, del, q2) = run_qops enq deq q1 ops
      in (acc, (case r of None \<Rightarrow> del | Some x \<Rightarrow> x # del), q2))"

locale fifo_queue =
  fixes items :: "'q \<Rightarrow> 'a list"
    and inv :: "'q \<Rightarrow> bool"
    and enq :: "'q \<Rightarrow> 'a \<Rightarrow> bool \<times> 'q"
    and deq :: "'q \<Rightarrow> 'a option \<times> 'q"
  assumes enq_inv: "inv q \<Longrightarrow> enq q x = (ok, q') \<Longrightarrow> inv q'"
    and enq_items: "inv q \<Longrightarrow> enq q x = (ok, q') \<Longrightarrow> items q' = (if ok then items q @ [x] else items q)"
    and deq_inv: "inv q \<Longrightarrow> deq q = (r, q') \<Longrightarrow> inv q'"
    and deq_items: "inv q \<Longrightarrow> deq q = (r, q') \<Longrightarrow>
      (case r of None \<Rightarrow> items q' = items q | Some x \<Rightarrow> items q = x # items q')"
begin

lemma run_qops_fifo:
  "inv q \<Longrightarrow> run_qops enq deq q ops = (acc, del, q') \<Longrightarrow> inv q' \<and> items q @ acc = del @ items q'"
proof (induction ops arbitrary: q acc del)
  case Nil
  then show ?case by simp
next
  case (Cons oper ops)
  show ?case
  proof (cases oper)
    case (Enq x)
    obtain ok q1 where e: "enq q x = (ok, q1)" by fastforce
    obtain a1 d1 where r: "run_qops enq deq q1 ops = (a1, d1, q')"
      using Cons.prems(2) Enq e by (auto split: prod.splits)
    have "inv q' \<and> items q1 @ a1 = d1 @ items q'"
      using Cons.IH [OF enq_inv [OF Cons.prems(1) e] r] .
    then show ?thesis
      using Cons.prems(2) Enq e r enq_items [OF Cons.prems(1) e] by (auto split: if_splits)
  next
    case Deq
    obtain v q1 where e: "deq q = (v, q1)" by fastforce
    obtain a1 d1 where r: "run_qops enq deq q1 ops = (a1, d1, q')"
      using Cons.prems(2) Deq e by (auto split: prod.splits)
    have "inv q' \<and> items q1 @ a1 = d1 @ items q'"
      using Cons.IH [OF deq_inv [OF Cons.prems(1) e] r] .
    then show ?thesis
      using Cons.prems(2) Deq e r deq_items [OF Cons.prems(1) e] by (auto split: option.splits)
  qed
qed

end

locale bounded_fifo = fifo_queue items inv enq deq
  for items :: "'q \<Rightarrow> 'a list" and inv enq deq +
  fixes cap :: "'q \<Rightarrow> nat"
  assumes enq_room: "inv q \<Longrightarrow> enq q x = (ok, q') \<Longrightarrow> ok \<longleftrightarrow> length (items q) < cap q"
    and deq_avail: "inv q \<Longrightarrow> deq q = (r, q') \<Longrightarrow> r = None \<longleftrightarrow> items q = []"
    and cap_enq: "enq q x = (ok, q') \<Longrightarrow> cap q' = cap q"
    and cap_deq: "deq q = (r, q') \<Longrightarrow> cap q' = cap q"
    and items_cap: "inv q \<Longrightarrow> length (items q) \<le> cap q"
begin

text \<open>Filling an empty queue: the first \<open>cap\<close> items are taken, the rest refused.\<close>

lemma fill:
  "inv q \<Longrightarrow> run_qops enq deq q (map Enq xs) = (acc, del, q') \<Longrightarrow>
    acc = take (cap q - length (items q)) xs \<and> del = []"
proof (induction xs arbitrary: q acc del)
  case Nil
  then show ?case by simp
next
  case (Cons x xs)
  obtain ok q1 where e: "enq q x = (ok, q1)" by fastforce
  obtain a1 d1 where r: "run_qops enq deq q1 (map Enq xs) = (a1, d1, q')"
    using Cons.prems(2) e by (auto split: prod.splits)
  have IH: "a1 = take (cap q1 - length (items q1)) xs \<and> d1 = []"
    using Cons.IH [OF enq_inv [OF Cons.prems(1) e] r] .
  have "items q1 = (if ok then items q @ [x] else items q)" "ok \<longleftrightarrow> length (items q) < cap q" "cap q1 = cap q"
    using enq_items [OF Cons.prems(1) e] enq_room [OF Cons.prems(1) e] cap_enq [OF e] by auto
  then show ?case
    using Cons.prems(2) e r IH by (auto simp: take_Cons' Suc_diff_Suc split: if_splits)
qed

end

section \<open>FifoQueue\<close>

record 'a fifo =
  fq_q :: "'a list" \<comment> \<open>\<open>std::queue<T>\<close>, front first\<close>
  max_size :: u32
  num_enqueued :: u64
  num_not_enqueued :: u64
  num_dequeued :: u64

definition FifoQueue_new :: "u32 \<Rightarrow> 'a fifo" where
  "FifoQueue_new queue_size =
     \<lparr>fq_q = [], max_size = queue_size, num_enqueued = 0, num_not_enqueued = 0, num_dequeued = 0\<rparr>"

definition FifoQueue_getLength :: "'a fifo \<Rightarrow> u32" where
  "FifoQueue_getLength q = of_nat (length (fq_q q))"

definition FifoQueue_canEnqueue :: "'a fifo \<Rightarrow> bool" where
  "FifoQueue_canEnqueue q \<longleftrightarrow> FifoQueue_getLength q < max_size q"

definition FifoQueue_empty :: "'a fifo \<Rightarrow> bool" where
  "FifoQueue_empty q \<longleftrightarrow> fq_q q = []"

text \<open>The critical section of \<open>enqueue\<close> and \<open>dequeue\<close> (the mutex makes each one atomic).\<close>

definition FifoQueue_enqueue :: "'a fifo \<Rightarrow> 'a \<Rightarrow> bool \<times> 'a fifo" where
  "FifoQueue_enqueue q item =
     (let (rv, q) = (if FifoQueue_canEnqueue q then (True, q\<lparr>fq_q := fq_q q @ [item]\<rparr>) else (False, q))
      in (rv, if rv then q\<lparr>num_enqueued := num_enqueued q + 1\<rparr>
              else q\<lparr>num_not_enqueued := num_not_enqueued q + 1\<rparr>))"

definition FifoQueue_dequeue :: "'a fifo \<Rightarrow> 'a option \<times> 'a fifo" where
  "FifoQueue_dequeue q =
     (case fq_q q of
        [] \<Rightarrow> (None, q)
      | x # xs \<Rightarrow> (Some x, q\<lparr>fq_q := xs, num_dequeued := num_dequeued q + 1\<rparr>))"

text \<open>The pending count that \<open>fillPct\<close> scales to a percentage.\<close>

definition FifoQueue_pending :: "'a fifo \<Rightarrow> u64" where
  "FifoQueue_pending q = num_enqueued q - num_dequeued q"

section \<open>Subclasses\<close>

text \<open>\<open>StringFifoQueue::enqueue\<close> stores a copy of the string; \<open>strdup_ok\<close> says whether the copy succeeds.\<close>

definition StringFifoQueue_enqueue :: "bool \<Rightarrow> string fifo \<Rightarrow> string \<Rightarrow> bool \<times> string fifo" where
  "StringFifoQueue_enqueue strdup_ok q item =
     (let (rv, q) =
        (if FifoQueue_canEnqueue q then
           (if strdup_ok then (True, q\<lparr>fq_q := fq_q q @ [item]\<rparr>) else (False, q))
         else (False, q))
      in (rv, if rv then q\<lparr>num_enqueued := num_enqueued q + 1\<rparr>
              else q\<lparr>num_not_enqueued := num_not_enqueued q + 1\<rparr>))"

definition AlertFifoQueue_dequeue :: "'a fifo \<Rightarrow> 'a option \<times> 'a fifo" where
  "AlertFifoQueue_dequeue q =
     (if fq_q q \<noteq> [] then
        (Some (hd (fq_q q)), q\<lparr>fq_q := tl (fq_q q), num_dequeued := num_dequeued q + 1\<rparr>)
      else (None, q))"

definition FifoSerializerQueue_enqueue :: "'a fifo \<Rightarrow> 'a \<Rightarrow> bool \<times> 'a fifo" where
  "FifoSerializerQueue_enqueue q item =
     (let (rv, q) = (if FifoQueue_canEnqueue q then (True, q\<lparr>fq_q := fq_q q @ [item]\<rparr>) else (False, q))
      in (rv, if rv then q\<lparr>num_enqueued := num_enqueued q + 1\<rparr>
              else q\<lparr>num_not_enqueued := num_not_enqueued q + 1\<rparr>))"

text \<open>\<open>CHTSPointFifoQueue::dequeueBatch\<close>: the loop appends to the caller's vector \<open>out\<close>.\<close>

function CHTSPointFifoQueue_batch_loop :: "u32 \<Rightarrow> 'a list \<Rightarrow> 'a fifo \<Rightarrow> 'a list \<times> 'a fifo" where
  "CHTSPointFifoQueue_batch_loop max_rows out q =
     (if length out < unat max_rows \<and> fq_q q \<noteq> [] then
        CHTSPointFifoQueue_batch_loop max_rows (out @ [hd (fq_q q)])
          (q\<lparr>fq_q := tl (fq_q q), num_dequeued := num_dequeued q + 1\<rparr>)
      else (out, q))"
  by pat_completeness auto
termination
  by (relation "measure (\<lambda>(m, out, q). length (fq_q q))") auto

declare CHTSPointFifoQueue_batch_loop.simps [simp del]

definition CHTSPointFifoQueue_dequeueBatch :: "'a fifo \<Rightarrow> u32 \<Rightarrow> 'a list \<Rightarrow> u32 \<times> 'a list \<times> 'a fifo" where
  "CHTSPointFifoQueue_dequeueBatch q max_rows out =
     (let (out, q) = CHTSPointFifoQueue_batch_loop max_rows out q in (of_nat (length out), out, q))"

section \<open>Correctness\<close>

text \<open>
  The queue never holds more than \<open>max_size\<close> items, and the counters account for the
  items it holds (so the pending count of \<open>fillPct\<close> is the length).
\<close>

definition FifoQueue_inv :: "'a fifo \<Rightarrow> bool" where
  "FifoQueue_inv q \<longleftrightarrow>
     length (fq_q q) \<le> unat (max_size q) \<and> FifoQueue_pending q = of_nat (length (fq_q q))"

lemma FifoQueue_inv_new [inv_intros]: "FifoQueue_inv (FifoQueue_new n)"
  by (simp add: FifoQueue_inv_def FifoQueue_new_def FifoQueue_pending_def)

lemma FifoQueue_canEnqueue_iff:
  assumes "FifoQueue_inv q"
  shows "FifoQueue_canEnqueue q \<longleftrightarrow> length (fq_q q) < unat (max_size q)"
proof -
  have "unat (max_size q) < 2 ^ LENGTH(32)" by (rule unsigned_less)
  then have "length (fq_q q) < 2 ^ 32" using assms by (simp add: FifoQueue_inv_def)
  then have "unat (of_nat (length (fq_q q)) :: u32) = length (fq_q q)"
    by (simp add: unsigned_of_nat take_bit_nat_eq_self)
  then show ?thesis
    by (simp add: FifoQueue_canEnqueue_def FifoQueue_getLength_def word_less_nat_alt)
qed

lemma FifoQueue_enqueue_cases:
  "FifoQueue_enqueue q x =
    (if FifoQueue_canEnqueue q then (True, q\<lparr>fq_q := fq_q q @ [x], num_enqueued := num_enqueued q + 1\<rparr>)
     else (False, q\<lparr>num_not_enqueued := num_not_enqueued q + 1\<rparr>))"
  by (simp add: FifoQueue_enqueue_def)

lemma FifoQueue_inv_enqueue [inv_intros]:
  "FifoQueue_inv q \<Longrightarrow> FifoQueue_enqueue q x = (ok, q') \<Longrightarrow> FifoQueue_inv q'"
  by (auto simp: FifoQueue_enqueue_cases FifoQueue_canEnqueue_iff FifoQueue_inv_def
      FifoQueue_pending_def algebra_simps split: if_splits)

lemma FifoQueue_inv_dequeue [inv_intros]:
  "FifoQueue_inv q \<Longrightarrow> FifoQueue_dequeue q = (r, q') \<Longrightarrow> FifoQueue_inv q'"
  by (auto simp: FifoQueue_dequeue_def FifoQueue_inv_def FifoQueue_pending_def algebra_simps
      split: list.splits)

interpretation fq: bounded_fifo fq_q FifoQueue_inv FifoQueue_enqueue FifoQueue_dequeue
  "\<lambda>q. unat (max_size q)"
  by unfold_locales
    (auto simp: FifoQueue_enqueue_cases FifoQueue_canEnqueue_iff FifoQueue_dequeue_def FifoQueue_inv_def
      FifoQueue_pending_def algebra_simps split: if_splits list.splits option.splits dest: FifoQueue_inv_enqueue FifoQueue_inv_dequeue)

text \<open>The subclass overrides compute what the base class does.\<close>

lemma AlertFifoQueue_dequeue_eq: "AlertFifoQueue_dequeue q = FifoQueue_dequeue q"
  by (auto simp: AlertFifoQueue_dequeue_def FifoQueue_dequeue_def split: list.splits)

lemma FifoSerializerQueue_enqueue_eq: "FifoSerializerQueue_enqueue q x = FifoQueue_enqueue q x"
  by (simp add: FifoSerializerQueue_enqueue_def FifoQueue_enqueue_def)

lemma StringFifoQueue_enqueue_eq:
  "StringFifoQueue_enqueue True q x = FifoQueue_enqueue q x"
  "snd (StringFifoQueue_enqueue False q x) = q\<lparr>num_not_enqueued := num_not_enqueued q + 1\<rparr>"
  by (simp_all add: StringFifoQueue_enqueue_def FifoQueue_enqueue_def)

lemma batch_loop_spec:
  "CHTSPointFifoQueue_batch_loop m out q =
    (let n = min (unat m - length out) (length (fq_q q))
     in (out @ take n (fq_q q), q\<lparr>fq_q := drop n (fq_q q), num_dequeued := num_dequeued q + of_nat n\<rparr>))"
proof (induction m out q rule: CHTSPointFifoQueue_batch_loop.induct)
  case (1 m out q)
  show ?case
  proof (cases "length out < unat m \<and> fq_q q \<noteq> []")
    case False
    then show ?thesis by (auto simp: CHTSPointFifoQueue_batch_loop.simps [of m out q] Let_def)
  next
    case True
    then obtain x xs where q: "fq_q q = x # xs" by (cases "fq_q q") auto
    have n: "min (unat m - length out) (Suc (length xs)) = Suc (min (unat m - Suc (length out)) (length xs))"
      using True by (simp add: min_def) arith
    show ?thesis
      using "1.IH" [OF True] True
      by (simp add: CHTSPointFifoQueue_batch_loop.simps [of m out q] Let_def q n algebra_simps)
  qed
qed

section \<open>Properties\<close>

text \<open>
  whatever the interleaving of enqueues and dequeues on a new \<open>FifoQueue\<close>, the items
  delivered followed by the items still queued are exactly the accepted items, in order,
  the queue never exceeds its size, and the counters' difference is its length.
\<close>

theorem FifoQueue_run_fifo:
  assumes "run_qops FifoQueue_enqueue FifoQueue_dequeue (FifoQueue_new n) ops = (acc, del, q)"
  shows "acc = del @ fq_q q \<and> length (fq_q q) \<le> unat (max_size q) \<and>
    FifoQueue_pending q = of_nat (length (fq_q q))"
proof -
  from fq.run_qops_fifo [OF FifoQueue_inv_new assms]
  have "FifoQueue_inv q" "fq_q (FifoQueue_new n) @ acc = del @ fq_q q" by simp_all
  then show ?thesis by (simp add: FifoQueue_inv_def FifoQueue_new_def)
qed

theorem FifoQueue_run_fifo_witness:
  "(let (acc, del, q) = run_qops FifoQueue_enqueue FifoQueue_dequeue (FifoQueue_new 2)
        [Enq (1::nat), Enq 2, Enq 3, Deq]
    in acc = [1, 2] \<and> del = [1] \<and> acc = del @ fq_q q)"
  using FifoQueue_run_fifo [of 2 "[Enq (1::nat), Enq 2, Enq 3, Deq]"]
  by (simp add: FifoQueue_enqueue_def FifoQueue_dequeue_def FifoQueue_canEnqueue_def
      FifoQueue_getLength_def FifoQueue_new_def Let_def split: prod.splits)

text \<open>
  \<open>dequeueBatch\<close> takes the oldest points in one pass, up to \<open>max_rows\<close> in total in the
  caller's vector, and keeps the queue's accounting.
\<close>

theorem CHTSPointFifoQueue_dequeueBatch_spec:
  assumes "FifoQueue_inv q" "length out \<le> unat max_rows"
    and "CHTSPointFifoQueue_dequeueBatch q max_rows out = (n, out', q')"
  shows "out' @ fq_q q' = out @ fq_q q \<and> unat n = length out' \<and>
    length out' = min (unat max_rows) (length out + length (fq_q q)) \<and> FifoQueue_inv q'"
proof -
  define k where "k = min (unat max_rows - length out) (length (fq_q q))"
  have out': "out' = out @ take k (fq_q q)" and n: "n = of_nat (length out')"
    and q': "q' = q\<lparr>fq_q := drop k (fq_q q), num_dequeued := num_dequeued q + of_nat k\<rparr>"
    using assms(3) by (auto simp: CHTSPointFifoQueue_dequeueBatch_def batch_loop_spec Let_def k_def)
  have len: "length out' = min (unat max_rows) (length out + length (fq_q q))"
    using assms(2) by (auto simp: out' k_def min_def)
  have "unat max_rows < 2 ^ LENGTH(32)" by (rule unsigned_less)
  then have "length out' < 2 ^ 32" using len by simp
  then have "unat n = length out'" by (simp add: n unsigned_of_nat take_bit_nat_eq_self)
  moreover have "FifoQueue_inv q'"
    using assms(1) by (auto simp: FifoQueue_inv_def FifoQueue_pending_def q' k_def algebra_simps)
  ultimately show ?thesis using len by (simp add: out' q')
qed

theorem CHTSPointFifoQueue_dequeueBatch_spec_witness:
  "(let q = snd (FifoQueue_enqueue (snd (FifoQueue_enqueue (FifoQueue_new 4) (7::nat))) 8);
        (n, out', q') = CHTSPointFifoQueue_dequeueBatch q 3 [5, 6]
    in out' @ fq_q q' = [5, 6, 7, 8] \<and> unat n = 3 \<and> FifoQueue_inv q')"
proof -
  let ?q = "snd (FifoQueue_enqueue (snd (FifoQueue_enqueue (FifoQueue_new 4) (7::nat))) 8)"
  obtain n out' q' where r: "CHTSPointFifoQueue_dequeueBatch ?q 3 [5, 6] = (n, out', q')"
    by (metis prod_cases3)
  have "FifoQueue_inv ?q"
    by (metis FifoQueue_inv_enqueue FifoQueue_inv_new prod.collapse)
  from CHTSPointFifoQueue_dequeueBatch_spec [OF this _ r]
  have "out' @ fq_q q' = [5, 6] @ fq_q ?q \<and> unat n = length out' \<and>
      length out' = min 3 (2 + length (fq_q ?q)) \<and> FifoQueue_inv q'" by simp
  moreover have "fq_q ?q = [7, 8]"
    by (simp add: FifoQueue_enqueue_def FifoQueue_canEnqueue_def FifoQueue_getLength_def FifoQueue_new_def)
  ultimately show ?thesis using r by (simp add: Let_def)
qed

end
