(* ===== verification/SPSC_Queue.thy ===== *)
theory SPSC_Queue
  imports Fifo_Queues Pow2
begin

text \<open>
  The lockless single-producer single-consumer ring (include/SPSCQueue.h) that carries
  flows to dump and alerts to emit. Each side works on its shadow index and publishes it
  only at a watermark (a multiple of 8) or, on the producer's side, on request. The ring
  is shown to be a fifo queue for every interleaving of the two sides, and to make
  progress from 32 slots on.
\<close>

record 'a spsc =
  num_failed_enqueues :: u32
  shadow_head :: u64
  head :: u64
  tail :: u64
  shadow_tail :: u64
  sq :: "'a list"
  queue_size :: u32

definition QUEUE_WATERMARK_MASK :: u64 where
  "QUEUE_WATERMARK_MASK = 8 - 1"

text \<open>\<open>dflt\<close> is the default-constructed element of \<open>queue.resize\<close>.\<close>

definition SPSCQueue_new :: "'a \<Rightarrow> u32 \<Rightarrow> 'a spsc" where
  "SPSCQueue_new dflt sz =
     (let qs = Utils_pow2 sz
      in \<lparr>num_failed_enqueues = 0, shadow_head = 0, head = 0, tail = ucast (qs - 1),
          shadow_tail = ucast (qs - 1), sq = replicate (unat qs) dflt, queue_size = qs\<rparr>)"

definition ring_next :: "'a spsc \<Rightarrow> u64 \<Rightarrow> u32" where
  "ring_next q i = ucast ((i + 1) AND ucast (queue_size q - 1))"

definition SPSCQueue_isNotEmpty :: "'a spsc \<Rightarrow> bool" where
  "SPSCQueue_isNotEmpty q \<longleftrightarrow> ucast (ring_next q (shadow_tail q)) \<noteq> head q"

definition SPSCQueue_isFull :: "'a spsc \<Rightarrow> bool" where
  "SPSCQueue_isFull q \<longleftrightarrow> tail q = ucast (ring_next q (shadow_head q))"

text \<open>\<open>dequeue\<close> throws on an empty queue: the result is then \<open>Inl (Thrown ...)\<close>.\<close>

definition SPSCQueue_dequeue :: "'a spsc \<Rightarrow> c_error + 'a \<times> 'a spsc" where
  "SPSCQueue_dequeue q =
     (let next_tail = ring_next q (shadow_tail q)
      in if ucast next_tail = head q then Inl (Thrown ''Empty queue'')
         else
           let item = sq q ! unat next_tail;
               q = q\<lparr>shadow_tail := ucast next_tail\<rparr>;
               q = (if shadow_tail q AND QUEUE_WATERMARK_MASK = 0
                    then q\<lparr>tail := shadow_tail q\<rparr> else q)
           in Inr (item, q))"

definition SPSCQueue_enqueue :: "'a spsc \<Rightarrow> 'a \<Rightarrow> bool \<Rightarrow> bool \<times> 'a spsc" where
  "SPSCQueue_enqueue q item flush =
     (let next_head = ring_next q (shadow_head q)
      in if tail q \<noteq> ucast next_head then
           let q = q\<lparr>sq := (sq q)[unat (shadow_head q) := item]\<rparr>;
               q = q\<lparr>shadow_head := ucast next_head\<rparr>;
               q = (if flush \<or> shadow_head q AND QUEUE_WATERMARK_MASK = 0
                    then q\<lparr>head := shadow_head q\<rparr> else q)
           in (True, q)
         else (False, q\<lparr>num_failed_enqueues := num_failed_enqueues q + 1\<rparr>))"

section \<open>Arithmetic of the ring\<close>

lemma ring_offset_inj:
  assumes "(i::nat) < N" "j < N" "(a + i) mod N = (a + j) mod N"
  shows "i = j"
proof -
  have *: "i' = j'" if "i' \<le> j'" "j' < N" "(a + i') mod N = (a + j') mod N" for i' j'
  proof -
    have "N dvd (a + j') - (a + i')"
      using that by (subst mod_eq_dvd_iff_nat [symmetric]) auto
    moreover have "(a + j') - (a + i') < N" using that by simp
    ultimately show ?thesis using that(1) by (auto dest!: dvd_imp_le)
  qed
  show ?thesis using *[of i j] *[of j i] assms by (cases "i \<le> j") auto
qed

lemma ring_add: "((a mod N + b) mod N + c) mod N = (a + (b + c)) mod (N::nat)"
  by (metis add.assoc mod_add_left_eq)

lemma ring_next_nat:
  assumes "unat (queue_size q) = 2 ^ k" "k \<le> 31" "unat i < 2 ^ k"
  shows "unat (ring_next q i) = (unat i + 1) mod 2 ^ k" "unat (ucast (ring_next q i) :: u64) = (unat i + 1) mod 2 ^ k"
proof -
  have "queue_size q = 2 ^ k"
    using assms(1,2) by (simp add: word_unat_eq_iff unat_exp_2)
  then have "(ucast (queue_size q - 1) :: u64) = mask k"
    using assms(2) by (intro bit_word_eqI) (auto simp: bit_simps simp flip: mask_eq_exp_minus_1)
  moreover have "(2::nat) ^ k \<le> 2 ^ 31" using assms(2) by (intro power_increasing) auto
  then have lt: "(2::nat) ^ k < 2 ^ 32" by simp
  have "unat (i + 1) = unat i + 1"
    using assms(3) lt by (simp add: unat_word_ariths)
  ultimately have m: "unat ((i + 1) AND ucast (queue_size q - 1)) = (unat i + 1) mod 2 ^ k"
    by (simp add: unat_and_mask_mod)
  moreover have "(unat i + 1) mod 2 ^ k < 2 ^ 32"
    using lt by (meson mod_less_divisor order.strict_trans zero_less_numeral zero_less_power)
  ultimately show "unat (ring_next q i) = (unat i + 1) mod 2 ^ k"
    by (simp add: ring_next_def unsigned_ucast_eq take_bit_nat_eq_self)
  then show "unat (ucast (ring_next q i) :: u64) = (unat i + 1) mod 2 ^ k"
    using \<open>(unat i + 1) mod 2 ^ k < 2 ^ 32\<close> by (simp add: unsigned_ucast_eq take_bit_nat_eq_self)
qed

lemma watermark_iff: "i AND QUEUE_WATERMARK_MASK = 0 \<longleftrightarrow> unat i mod 8 = 0"
proof -
  have m: "QUEUE_WATERMARK_MASK = mask 3"
    by (simp add: QUEUE_WATERMARK_MASK_def mask_eq_exp_minus_1)
  have "unat (i AND QUEUE_WATERMARK_MASK) = unat i mod 8"
    unfolding m unat_and_mask_mod by simp
  then show ?thesis by (metis unat_eq_zero)
qed

lemma mod_mod_watermark: "3 \<le> k \<Longrightarrow> (a mod 2 ^ k) mod 8 = (a::nat) mod 8"
proof -
  assume "3 \<le> k"
  then have "(8::nat) dvd 2 ^ k" using le_imp_power_dvd [of 3 k "2::nat"] by simp
  then show ?thesis by (rule mod_mod_cancel)
qed

lemma watermark_add: "3 \<le> k \<Longrightarrow> ((a + d) mod 2 ^ k) mod 8 = ((a::nat) mod 8 + d) mod 8"
  by (simp only: mod_mod_watermark mod_add_left_eq)

section \<open>Invariant and abstraction\<close>

text \<open>
  The ring with \<open>2 ^ k\<close> slots: the consumer is \<open>l\<close> slots ahead of the published tail,
  \<open>n\<close> items are stored, and the producer has published \<open>v\<close> of them. Neither side is ever
  8 or more slots ahead of what it published.
\<close>

definition SPSC_at :: "'a spsc \<Rightarrow> nat \<Rightarrow> nat \<Rightarrow> nat \<Rightarrow> nat \<Rightarrow> bool" where
  "SPSC_at q k l n v \<longleftrightarrow>
     unat (queue_size q) = 2 ^ k \<and> 3 \<le> k \<and> k \<le> 31 \<and> length (sq q) = 2 ^ k \<and>
     unat (tail q) < 2 ^ k \<and>
     unat (shadow_tail q) = (unat (tail q) + l) mod 2 ^ k \<and>
     unat (shadow_head q) = (unat (shadow_tail q) + 1 + n) mod 2 ^ k \<and>
     unat (head q) = (unat (shadow_tail q) + 1 + v) mod 2 ^ k \<and>
     v \<le> n \<and> l + n + 2 \<le> 2 ^ k \<and>
     unat (tail q) mod 8 + l < 8 \<and> unat (head q) mod 8 + (n - v) < 8"

definition SPSC_inv :: "'a spsc \<Rightarrow> bool" where
  "SPSC_inv q \<longleftrightarrow> (\<exists>k l n v. SPSC_at q k l n v)"

lemma SPSC_invI: "SPSC_at q k l n v \<Longrightarrow> SPSC_inv q"
  unfolding SPSC_inv_def by (intro exI)

definition SPSC_items :: "'a spsc \<Rightarrow> 'a list" where
  "SPSC_items q =
     (let N = unat (queue_size q); T = unat (shadow_tail q); n = (unat (shadow_head q) + N - (T + 1)) mod N
      in map (\<lambda>i. sq q ! ((T + 1 + i) mod N)) [0..<n])"

lemma ring_distance:
  assumes "(T::nat) < N" "n < N"
  shows "((T + 1 + n) mod N + N - (T + 1)) mod N = n"
proof (cases "T + 1 + n < N")
  case True
  then show ?thesis using assms by simp
next
  case False
  then have "(T + 1 + n) mod N = T + 1 + n - N" using assms by (simp add: mod_if)
  then show ?thesis using assms False by simp
qed

lemma SPSC_items_at:
  assumes "SPSC_at q k l n v"
  shows "SPSC_items q = map (\<lambda>i. sq q ! ((unat (shadow_tail q) + 1 + i) mod 2 ^ k)) [0..<n]"
proof -
  have "unat (shadow_tail q) < 2 ^ k" "n < 2 ^ k" using assms by (auto simp: SPSC_at_def)
  then have "(unat (shadow_head q) + 2 ^ k - (unat (shadow_tail q) + 1)) mod 2 ^ k = n"
    using assms ring_distance [of "unat (shadow_tail q)" "2 ^ k" n] by (simp add: SPSC_at_def)
  then show ?thesis using assms by (simp add: SPSC_items_def SPSC_at_def Let_def)
qed

lemma SPSC_full_iff:
  assumes "SPSC_at q k l n v"
  shows "tail q = ucast (ring_next q (shadow_head q)) \<longleftrightarrow> l + n + 2 = 2 ^ k"
proof -
  let ?N = "2 ^ k :: nat"
  have sh: "unat (shadow_head q) < ?N" using assms by (auto simp: SPSC_at_def)
  have "(unat (shadow_head q) + 1) mod ?N = (unat (tail q) + (l + n + 2)) mod ?N"
    using assms ring_add [of "unat (tail q) + l" ?N "1 + n" 1] by (simp add: SPSC_at_def add_ac)
  then have nx: "unat (ucast (ring_next q (shadow_head q)) :: u64) = (unat (tail q) + (l + n + 2)) mod ?N"
    using ring_next_nat(2) [of q k "shadow_head q"] assms sh by (simp add: SPSC_at_def)
  have t: "unat (tail q) < ?N" "l + n + 2 \<le> ?N" using assms by (auto simp: SPSC_at_def)
  show ?thesis
  proof
    assume "l + n + 2 = ?N"
    then have "unat (ucast (ring_next q (shadow_head q)) :: u64) = unat (tail q)" using nx t(1) by simp
    then show "tail q = ucast (ring_next q (shadow_head q))" by (simp add: word_unat_eq_iff)
  next
    assume "tail q = ucast (ring_next q (shadow_head q))"
    then have "unat (tail q) = unat (ucast (ring_next q (shadow_head q)) :: u64)" by simp
    then have e: "(unat (tail q) + 0) mod ?N = (unat (tail q) + (l + n + 2)) mod ?N"
      using nx t by simp
    show "l + n + 2 = ?N"
    proof (rule ccontr)
      assume "l + n + 2 \<noteq> ?N"
      with t(2) have "l + n + 2 < ?N" by simp
      from ring_offset_inj [OF _ this e] show False by simp
    qed
  qed
qed

lemma SPSC_empty_iff:
  assumes "SPSC_at q k l n v"
  shows "ucast (ring_next q (shadow_tail q)) = head q \<longleftrightarrow> v = 0"
proof -
  let ?N = "2 ^ k :: nat"
  have st: "unat (shadow_tail q) < ?N" "v < ?N" "0 < ?N" using assms by (auto simp: SPSC_at_def)
  have nx: "unat (ucast (ring_next q (shadow_tail q)) :: u64) = (unat (shadow_tail q) + 1 + 0) mod ?N"
    using ring_next_nat(2) [of q k "shadow_tail q"] assms st by (simp add: SPSC_at_def)
  have h: "unat (head q) = (unat (shadow_tail q) + 1 + v) mod ?N" using assms by (simp add: SPSC_at_def)
  show ?thesis
    using ring_offset_inj [OF st(3,2), of "unat (shadow_tail q) + 1"] nx h by (auto simp: word_unat_eq_iff)
qed

section \<open>The operations keep the invariant and act as a fifo\<close>

lemma SPSC_enqueue_ok:
  assumes at: "SPSC_at q k l n v" and room: "l + n + 2 < 2 ^ k"
  obtains q' v' where "SPSCQueue_enqueue q x flush = (True, q')" "SPSC_at q' k l (n + 1) v'"
    "SPSC_items q' = SPSC_items q @ [x]" "flush \<longrightarrow> v' = n + 1"
proof -
  let ?N = "2 ^ k :: nat" and ?T = "unat (shadow_tail q)" and ?H = "unat (shadow_head q)"
  define nh where "nh = (ucast (ring_next q (shadow_head q)) :: u64)"
  define pub where "pub \<longleftrightarrow> flush \<or> unat nh mod 8 = 0"
  define q' where "q' = q\<lparr>sq := (sq q)[?H := x], shadow_head := nh, head := (if pub then nh else head q)\<rparr>"
  define v' where "v' = (if pub then n + 1 else v)"
  have H: "?H < ?N" "?H = (?T + 1 + n) mod ?N" using at by (auto simp: SPSC_at_def)
  have nh: "unat nh = (?T + 1 + (n + 1)) mod ?N"
    using ring_next_nat(2) [of q k "shadow_head q"] at H ring_add [of "?T + 1" ?N n 1]
    by (simp add: nh_def SPSC_at_def mod_simps)
  have e: "SPSCQueue_enqueue q x flush = (True, q')"
    using SPSC_full_iff [OF at] room
    by (auto simp: SPSCQueue_enqueue_def Let_def watermark_iff q'_def pub_def nh_def)
  have lag: "unat (head q) mod 8 + (n + 1 - v) < 8" if "\<not> pub"
  proof -
    have k3: "3 \<le> k" and "(?T + 1 + (n + 1)) = (?T + 1 + v) + (n + 1 - v)"
      using at by (simp_all add: SPSC_at_def)
    then have "unat nh mod 8 = ((?T + 1 + v) mod 8 + (n + 1 - v)) mod 8"
      using nh by (simp only: watermark_add [OF k3])
    also have "(?T + 1 + v) mod 8 = unat (head q) mod 8"
      using at by (simp add: SPSC_at_def mod_mod_watermark)
    finally have "(unat (head q) mod 8 + (n + 1 - v)) mod 8 \<noteq> 0" using that by (simp add: pub_def)
    moreover have "unat (head q) mod 8 + (n - v) < 8" "v \<le> n" using at by (auto simp: SPSC_at_def)
    then have "unat (head q) mod 8 + (n + 1 - v) \<le> 8" by simp
    ultimately show ?thesis by (metis le_neq_implies_less mod_self)
  qed
  have at': "SPSC_at q' k l (n + 1) v'"
    using at room nh lag by (auto simp: SPSC_at_def q'_def v'_def)
  have old: "(sq q)[?H := x] ! ((?T + 1 + i) mod ?N) = sq q ! ((?T + 1 + i) mod ?N)" if "i < n" for i
  proof -
    have "(?T + 1 + i) mod ?N \<noteq> (?T + 1 + n) mod ?N"
      using ring_offset_inj [of i ?N n "?T + 1"] that room by auto
    then show ?thesis using H by simp
  qed
  have "SPSC_items q' = map (\<lambda>i. (sq q)[?H := x] ! ((?T + 1 + i) mod ?N)) [0..<n + 1]"
    unfolding SPSC_items_at [OF at'] by (simp add: q'_def)
  also have "\<dots> = map (\<lambda>i. (sq q)[?H := x] ! ((?T + 1 + i) mod ?N)) [0..<n] @ [(sq q)[?H := x] ! ?H]"
    using H(2) by simp
  also have "(sq q)[?H := x] ! ?H = x" using H(1) at by (simp add: SPSC_at_def)
  also have "map (\<lambda>i. (sq q)[?H := x] ! ((?T + 1 + i) mod ?N)) [0..<n] = SPSC_items q"
    unfolding SPSC_items_at [OF at] using old by (intro map_cong) auto
  finally have "SPSC_items q' = SPSC_items q @ [x]" .
  with e at' show thesis using that v'_def pub_def by auto
qed

lemma SPSC_dequeue_ok:
  assumes at: "SPSC_at q k l n v" and vis: "0 < v"
  obtains x q' l' where "SPSCQueue_dequeue q = Inr (x, q')" "SPSC_at q' k l' (n - 1) (v - 1)"
    "SPSC_items q = x # SPSC_items q'"
proof -
  let ?N = "2 ^ k :: nat" and ?T = "unat (shadow_tail q)"
  define nt where "nt = (ucast (ring_next q (shadow_tail q)) :: u64)"
  define pub where "pub \<longleftrightarrow> unat nt mod 8 = 0"
  define q' where "q' = q\<lparr>shadow_tail := nt, tail := (if pub then nt else tail q)\<rparr>"
  define l' where "l' = (if pub then 0 else l + 1)"
  have T: "?T < ?N" "?T = (unat (tail q) + l) mod ?N" using at by (auto simp: SPSC_at_def)
  have n: "0 < n" "v \<le> n" "l + n + 2 \<le> ?N" using at vis by (auto simp: SPSC_at_def)
  have nx: "unat (ring_next q (shadow_tail q)) = (?T + 1) mod ?N" "unat nt = (?T + 1) mod ?N"
    using ring_next_nat [of q k "shadow_tail q"] at T by (simp_all add: nt_def SPSC_at_def)
  define x where "x = sq q ! ((?T + 1) mod ?N)"
  have e: "SPSCQueue_dequeue q = Inr (x, q')"
    using SPSC_empty_iff [OF at] vis nx(1)
    by (auto simp: SPSCQueue_dequeue_def Let_def watermark_iff q'_def pub_def nt_def x_def)
  have nt_tail: "unat nt = (unat (tail q) + (l + 1)) mod ?N"
    using nx(2) T(2) by (simp add: mod_simps)
  have lag: "unat (tail q) mod 8 + (l + 1) < 8" if "\<not> pub"
  proof -
    have k3: "3 \<le> k" using at by (simp add: SPSC_at_def)
    have "unat nt mod 8 = (unat (tail q) mod 8 + (l + 1)) mod 8"
      unfolding nt_tail by (rule watermark_add [OF k3])
    then have "(unat (tail q) mod 8 + (l + 1)) mod 8 \<noteq> 0" using that by (simp add: pub_def)
    moreover have "unat (tail q) mod 8 + (l + 1) \<le> 8" using at by (simp add: SPSC_at_def)
    ultimately show ?thesis by (metis le_neq_implies_less mod_self)
  qed
  have move: "(?T + 1 + m) mod ?N = (unat nt + 1 + (m - 1)) mod ?N" if "0 < m" for m
  proof -
    have "unat nt + 1 + (m - 1) = unat nt + m" using that by simp
    then show ?thesis by (simp only: nx(2) mod_add_left_eq)
  qed
  have at': "SPSC_at q' k l' (n - 1) (v - 1)"
    using at n vis nt_tail lag move [of n] move [of v] nx(2)
    by (auto simp: SPSC_at_def q'_def l'_def pub_def)
  have "SPSC_items q = x # map (\<lambda>i. sq q ! ((?T + 1 + Suc i) mod ?N)) [0..<n - 1]"
    using n(1) unfolding SPSC_items_at [OF at] x_def
    by (cases n) (simp_all add: upt_conv_Cons map_Suc_upt [symmetric] del: upt_Suc)
  moreover have "SPSC_items q' = map (\<lambda>i. sq q ! ((unat nt + 1 + i) mod ?N)) [0..<n - 1]"
    unfolding SPSC_items_at [OF at'] by (simp add: q'_def)
  moreover have "\<dots> = map (\<lambda>i. sq q ! ((?T + 1 + Suc i) mod ?N)) [0..<n - 1]"
    by (intro map_cong refl) (simp only: move [OF zero_less_Suc] diff_Suc_1)
  ultimately show thesis using that e at' by simp
qed

text \<open>The consumer's view for the queue interface: an empty queue yields nothing.\<close>

definition SPSC_deq :: "'a spsc \<Rightarrow> 'a option \<times> 'a spsc" where
  "SPSC_deq q = (case SPSCQueue_dequeue q of Inl e \<Rightarrow> (None, q) | Inr (x, q') \<Rightarrow> (Some x, q'))"

lemma SPSC_enqueue_fail:
  assumes "SPSC_at q k l n v" "l + n + 2 = 2 ^ k"
  shows "SPSCQueue_enqueue q x flush = (False, q\<lparr>num_failed_enqueues := num_failed_enqueues q + 1\<rparr>)"
  using SPSC_full_iff [OF assms(1)] assms(2) by (simp add: SPSCQueue_enqueue_def Let_def)

lemma SPSC_at_failed [simp]:
  "SPSC_at (q\<lparr>num_failed_enqueues := c\<rparr>) k l n v \<longleftrightarrow> SPSC_at q k l n v"
  "SPSC_items (q\<lparr>num_failed_enqueues := c\<rparr>) = SPSC_items q"
  by (simp_all add: SPSC_at_def SPSC_items_def)

lemma SPSC_enqueue_cases:
  assumes "SPSC_inv q" "SPSCQueue_enqueue q x flush = (ok, q')"
  shows "SPSC_inv q' \<and> SPSC_items q' = (if ok then SPSC_items q @ [x] else SPSC_items q)"
proof -
  from assms(1) obtain k l n v where at: "SPSC_at q k l n v" by (auto simp: SPSC_inv_def)
  show ?thesis
  proof (cases "l + n + 2 = 2 ^ k")
    case True
    have "ok = False" "q' = q\<lparr>num_failed_enqueues := num_failed_enqueues q + 1\<rparr>"
      using assms(2) SPSC_enqueue_fail [OF at True, of x flush] by auto
    moreover have "SPSC_at (q\<lparr>num_failed_enqueues := num_failed_enqueues q + 1\<rparr>) k l n v" using at by simp
    ultimately show ?thesis by (auto intro: SPSC_invI)
  next
    case False
    with at have "l + n + 2 < 2 ^ k" by (simp add: SPSC_at_def)
    from SPSC_enqueue_ok [OF at this, of x flush] assms(2) show ?thesis
      by (metis SPSC_inv_def prod.inject)
  qed
qed

lemma SPSC_deq_cases:
  assumes "SPSC_inv q" "SPSC_deq q = (r, q')"
  shows "SPSC_inv q' \<and> (case r of None \<Rightarrow> SPSC_items q' = SPSC_items q | Some x \<Rightarrow> SPSC_items q = x # SPSC_items q')"
proof -
  from assms(1) obtain k l n v where at: "SPSC_at q k l n v" by (auto simp: SPSC_inv_def)
  show ?thesis
  proof (cases "v = 0")
    case True
    then have "SPSCQueue_dequeue q = Inl (Thrown ''Empty queue'')"
      using SPSC_empty_iff [OF at] by (simp add: SPSCQueue_dequeue_def Let_def)
    with assms show ?thesis by (auto simp: SPSC_deq_def)
  next
    case False
    then obtain x q1 l' where "SPSCQueue_dequeue q = Inr (x, q1)" "SPSC_at q1 k l' (n - 1) (v - 1)"
      "SPSC_items q = x # SPSC_items q1"
      using SPSC_dequeue_ok [OF at] by blast
    with assms(2) show ?thesis by (auto simp: SPSC_deq_def SPSC_inv_def)
  qed
qed

interpretation spsc_flush: fifo_queue SPSC_items SPSC_inv "\<lambda>q x. SPSCQueue_enqueue q x True" SPSC_deq
  by unfold_locales (blast dest: SPSC_enqueue_cases SPSC_deq_cases)+

text \<open>Producer items tagged with the flush flag the caller passes.\<close>

definition SPSC_enq :: "('a \<times> bool) spsc \<Rightarrow> 'a \<times> bool \<Rightarrow> bool \<times> ('a \<times> bool) spsc" where
  "SPSC_enq q x = SPSCQueue_enqueue q x (snd x)"

interpretation spsc: fifo_queue SPSC_items SPSC_inv SPSC_enq SPSC_deq
  unfolding SPSC_enq_def by unfold_locales (blast dest: SPSC_enqueue_cases SPSC_deq_cases)+

lemma SPSC_size [simp]:
  "queue_size (snd (SPSCQueue_enqueue q x flush)) = queue_size q" "queue_size (snd (SPSC_deq q)) = queue_size q"
  by (simp_all add: SPSCQueue_enqueue_def SPSC_deq_def SPSCQueue_dequeue_def Let_def)

interpretation spsc_sized: fifo_queue SPSC_items "\<lambda>q. SPSC_inv q \<and> queue_size q = N" SPSC_enq SPSC_deq for N
  unfolding SPSC_enq_def
  by unfold_locales (metis SPSC_enqueue_cases SPSC_deq_cases SPSC_size snd_conv)+

lemma SPSC_not_stuck:
  assumes "SPSC_inv q" "32 \<le> unat (queue_size q)"
  shows "fst (SPSCQueue_enqueue q x flush) \<or> (\<exists>y q'. SPSCQueue_dequeue q = Inr (y, q'))"
proof -
  from assms(1) obtain k l n v where at: "SPSC_at q k l n v" by (auto simp: SPSC_inv_def)
  show ?thesis
  proof (cases "l + n + 2 = 2 ^ k")
    case False
    with at have "l + n + 2 < 2 ^ k" by (simp add: SPSC_at_def)
    with SPSC_enqueue_ok [OF at this, of x flush] show ?thesis by (metis fst_conv)
  next
    case True
    have "l < 8" "n - v < 8" "(32::nat) \<le> 2 ^ k" using at assms(2) by (auto simp: SPSC_at_def)
    with True have "0 < v" by arith
    with SPSC_dequeue_ok [OF at] show ?thesis by metis
  qed
qed

lemma SPSC_at_new:
  assumes "3 \<le> k" "k \<le> 31" "unat (Utils_pow2 sz) = 2 ^ k"
  shows "SPSC_at (SPSCQueue_new dflt sz) k 0 0 0" "SPSC_items (SPSCQueue_new dflt sz) = []"
proof -
  let ?q = "SPSCQueue_new dflt sz"
  have N: "(8::nat) \<le> 2 ^ k" using assms(1) power_increasing [of 3 k "2::nat"] by simp
  have "unat (Utils_pow2 sz - 1) = 2 ^ k - 1"
    using assms(3) N by (simp add: unat_sub word_le_nat_alt)
  moreover have "(2::nat) ^ k \<le> 2 ^ 31" using assms(2) by (intro power_increasing) auto
  ultimately have t: "unat (ucast (Utils_pow2 sz - 1) :: u64) = 2 ^ k - 1"
    by (simp add: unsigned_ucast_eq take_bit_nat_eq_self)
  have "((2::nat) ^ k - 1) mod 8 < 8" by simp
  then show at: "SPSC_at ?q k 0 0 0"
    using assms N t by (simp add: SPSC_at_def SPSCQueue_new_def Let_def)
  show "SPSC_items ?q = []" by (simp add: SPSC_items_at [OF at])
qed

lemma SPSC_new_inv:
  assumes "8 \<le> unat sz" "unat sz \<le> 2 ^ 31"
  obtains k where "3 \<le> k" "k \<le> 31" "unat (Utils_pow2 sz) = 2 ^ k" "unat sz \<le> 2 ^ k"
proof -
  have "1 \<le> unat sz" using assms by simp
  then obtain k where k: "k \<le> 31" "unat (Utils_pow2 sz) = 2 ^ k" "unat sz \<le> 2 ^ k"
    using assms(2) by (rule Utils_pow2_bounds)
  have "(2::nat) ^ 3 \<le> 2 ^ k" using assms k by simp
  then have "3 \<le> k" by (rule power_le_imp_le_exp [rotated]) simp
  with k that show thesis by blast
qed

text \<open>A history of a ring of 16 slots: the producer runs ahead without flushing.\<close>

definition SPSC_stuck_run :: "(nat \<times> bool) qop list" where
  "SPSC_stuck_run = Enq (0, True) # Deq # map (\<lambda>i. Enq (i, False)) [1..<15] @ replicate 7 Deq"

section \<open>Properties\<close>

text \<open>
  C4: the single-producer single-consumer ring is a fifo. For a requested size of at least
  8 slots and any interleaving of enqueues (each with or without flush) and dequeues, the
  items delivered followed by the items still in the ring are exactly the accepted items
  in order.
\<close>

theorem SPSCQueue_run_fifo:
  assumes "8 \<le> unat sz" "unat sz \<le> 2 ^ 31"
    and "run_qops SPSC_enq SPSC_deq (SPSCQueue_new dflt sz) ops = (acc, del, q)"
  shows "acc = del @ SPSC_items q"
proof -
  obtain k where k: "3 \<le> k" "k \<le> 31" "unat (Utils_pow2 sz) = 2 ^ k"
    using assms(1,2) by (rule SPSC_new_inv)
  have "SPSC_inv (SPSCQueue_new dflt sz)" using SPSC_at_new(1) [OF k] by (rule SPSC_invI)
  from spsc.run_qops_fifo [OF this assms(3)] show ?thesis by (simp add: SPSC_at_new(2) [OF k])
qed

theorem SPSCQueue_run_fifo_witness:
  "(let (acc, del, q) = run_qops SPSC_enq SPSC_deq (SPSCQueue_new (0::nat, False) 8)
        [Enq (1, False), Deq, Enq (2, True), Deq, Deq]
    in acc = del @ SPSC_items q)"
proof -
  obtain acc del q where r: "run_qops SPSC_enq SPSC_deq (SPSCQueue_new (0::nat, False) 8)
        [Enq (1, False), Deq, Enq (2, True), Deq, Deq] = (acc, del, q)"
    by (metis prod_cases3)
  from SPSCQueue_run_fifo [OF _ _ r] r show ?thesis by (simp add: Let_def)
qed

text \<open>
  C28: no deadlock. In every state that a ring requested with 32 to 2 ^ 31 slots reaches, by any
  interleaving of enqueues (with or without flush) and dequeues, the producer finds room or the
  consumer finds an item, although both sides publish their index only every 8 slots.
\<close>

theorem SPSCQueue_progress:
  assumes "32 \<le> unat sz" "unat sz \<le> 2 ^ 31"
    and "run_qops SPSC_enq SPSC_deq (SPSCQueue_new dflt sz) ops = (acc, del, q)"
  shows "fst (SPSCQueue_enqueue q x flush) \<or> (\<exists>y q'. SPSCQueue_dequeue q = Inr (y, q'))"
proof -
  obtain k where k: "3 \<le> k" "k \<le> 31" "unat (Utils_pow2 sz) = 2 ^ k" "unat sz \<le> 2 ^ k"
    by (rule SPSC_new_inv [of sz]) (use assms(1,2) in auto)
  have "SPSC_inv (SPSCQueue_new dflt sz)" using SPSC_at_new(1) [OF k(1-3)] by (rule SPSC_invI)
  from spsc_sized.run_qops_fifo [OF conjI [OF this refl] assms(3)]
  have inv: "SPSC_inv q" "queue_size q = Utils_pow2 sz" by (simp_all add: SPSCQueue_new_def Let_def)
  then have "32 \<le> unat (queue_size q)" using k(3,4) assms(1) by simp
  with inv(1) show ?thesis by (rule SPSC_not_stuck)
qed

theorem SPSCQueue_progress_witness:
  "(let (acc, del, q) = run_qops SPSC_enq SPSC_deq (SPSCQueue_new (0::nat, False) 32) [Enq (1, False), Deq]
    in fst (SPSCQueue_enqueue q (7, False) False) \<or> (\<exists>y q'. SPSCQueue_dequeue q = Inr (y, q')))"
proof -
  obtain acc del q where r: "run_qops SPSC_enq SPSC_deq (SPSCQueue_new (0::nat, False) 32) [Enq (1, False), Deq] = (acc, del, q)"
    by (metis prod_cases3)
  from SPSCQueue_progress [OF _ _ r] r show ?thesis by (simp add: Let_def)
qed

text \<open>
  the bound of 32 slots is needed. In a ring of 16 slots that the producer fills without
  flushing, a state is reached where the producer finds no room and the consumer finds no
  item, so neither side can ever move again.
\<close>

theorem SPSCQueue_16_deadlock:
  "(let (acc, del, q) = run_qops SPSC_enq SPSC_deq (SPSCQueue_new (0, False) 16) SPSC_stuck_run
    in length (SPSC_items q) = 7 \<and> (\<forall>x flush. \<not> fst (SPSCQueue_enqueue q x flush)) \<and>
       SPSCQueue_dequeue q = Inl (Thrown ''Empty queue''))"
proof -
  have run: "SPSC_stuck_run =
    [Enq (0, True), Deq, Enq (1, False), Enq (2, False), Enq (3, False), Enq (4, False), Enq (5, False),
     Enq (6, False), Enq (7, False), Enq (8, False), Enq (9, False), Enq (10, False), Enq (11, False),
     Enq (12, False), Enq (13, False), Enq (14, False), Deq, Deq, Deq, Deq, Deq, Deq, Deq]"
    by (simp add: SPSC_stuck_run_def upt_rec numeral_eq_Suc)
  show ?thesis
    unfolding run
    by (simp add: SPSCQueue_new_def Utils_pow2_def SPSC_enq_def SPSCQueue_enqueue_def SPSC_deq_def
        SPSCQueue_dequeue_def ring_next_def QUEUE_WATERMARK_MASK_def SPSC_items_def Let_def)
qed

end
