(* ===== verification/Recipients.thy ===== *)
theory Recipients
  imports Bitmaps Fifo_Queues
begin

text \<open>
  Delivery of alerts: \<open>AlertFifoItem\<close>, the per-recipient \<open>RecipientQueue\<close> with its filters
  (src/RecipientQueue.cpp) and the table of recipients \<open>Recipients\<close> (src/Recipients.cpp).
  Every public operation of the two classes is one definition; the mutex makes each of
  them one atomic step. The build without \<open>NTOPNG_PRO\<close> is modelled.
\<close>

section \<open>Alert items\<close>

datatype alert_entity =
    alert_entity_none | alert_entity_interface | alert_entity_host | alert_entity_network
  | alert_entity_snmp_device | alert_entity_flow | alert_entity_mac | alert_entity_user
  | alert_entity_am_host | alert_entity_system | alert_entity_as | alert_entity_other

fun entity_val :: "alert_entity \<Rightarrow> int" where
  "entity_val alert_entity_none = -1"
| "entity_val alert_entity_interface = 0"
| "entity_val alert_entity_host = 1"
| "entity_val alert_entity_network = 2"
| "entity_val alert_entity_snmp_device = 3"
| "entity_val alert_entity_flow = 4"
| "entity_val alert_entity_mac = 5"
| "entity_val alert_entity_user = 7"
| "entity_val alert_entity_am_host = 8"
| "entity_val alert_entity_system = 9"
| "entity_val alert_entity_as = 10"
| "entity_val alert_entity_other = 15"

datatype alert_level =
    alert_level_none | alert_level_debug | alert_level_info | alert_level_notice
  | alert_level_warning | alert_level_error | alert_level_critical | alert_level_alert
  | alert_level_emergency

fun level_val :: "alert_level \<Rightarrow> nat" where
  "level_val alert_level_none = 0"
| "level_val alert_level_debug = 1"
| "level_val alert_level_info = 2"
| "level_val alert_level_notice = 3"
| "level_val alert_level_warning = 4"
| "level_val alert_level_error = 5"
| "level_val alert_level_critical = 6"
| "level_val alert_level_alert = 7"
| "level_val alert_level_emergency = 8"

instantiation alert_level :: linorder
begin

definition less_eq_alert_level :: "alert_level \<Rightarrow> alert_level \<Rightarrow> bool" where
  "less_eq_alert_level a b \<longleftrightarrow> level_val a \<le> level_val b"

definition less_alert_level :: "alert_level \<Rightarrow> alert_level \<Rightarrow> bool" where
  "less_alert_level a b \<longleftrightarrow> level_val a < level_val b"

instance
proof
  fix x y :: alert_level
  assume "x \<le> y" "y \<le> x"
  then show "x = y" by (cases x; cases y) (simp_all add: less_eq_alert_level_def)
qed (auto simp: less_eq_alert_level_def less_alert_level_def)

end

datatype alert_category =
    alert_category_other | alert_category_security | alert_category_internals
  | alert_category_network | alert_category_system | alert_category_ids_ips

fun category_val :: "alert_category \<Rightarrow> int" where
  "category_val alert_category_other = 0"
| "category_val alert_category_security = 1"
| "category_val alert_category_internals = 2"
| "category_val alert_category_network = 3"
| "category_val alert_category_system = 4"
| "category_val alert_category_ids_ips = 5"

record alert_item =
  alert_entity :: alert_entity
  alert_severity :: alert_level
  alert_category :: alert_category
  alert_json :: string
  score :: u32
  alert_id :: u16
  tags_bitmap :: u64
  host_pool :: u16
  cli_host_pool :: u16
  srv_host_pool :: u16

definition AlertFifoItem_new :: alert_item where
  "AlertFifoItem_new =
     \<lparr>alert_entity = alert_entity_other, alert_severity = alert_level_none,
      alert_category = alert_category_other, alert_json = '''', score = 0, alert_id = 0,
      tags_bitmap = 0, host_pool = 0, cli_host_pool = 0, srv_host_pool = 0\<rparr>"

definition AlertFifoItem_copy :: "alert_item \<Rightarrow> alert_item" where
  "AlertFifoItem_copy i =
     \<lparr>alert_entity = alert_entity i, alert_severity = alert_severity i,
      alert_category = alert_category i, alert_json = alert_json i, score = score i,
      alert_id = alert_id i, tags_bitmap = tags_bitmap i, host_pool = host_pool i,
      cli_host_pool = cli_host_pool i, srv_host_pool = srv_host_pool i\<rparr>"

section \<open>RecipientQueue\<close>

record recipient_queue =
  recipient_id :: u16
  skip_alerts :: bool
  match_alert_id :: bool
  rq_queue :: "alert_item fifo option" \<comment> \<open>allocated by the first enqueue\<close>
  enqueued :: u64
  drops :: u64
  filtered_out :: u64
  delivered :: u64
  delivery_failures :: u64
  last_use :: int
  minimum_severity :: alert_level
  enabled_categories :: bitmap
  enabled_entities :: bitmap
  enabled_flow_alert_types :: bitmap
  enabled_host_alert_types :: bitmap
  enabled_other_alert_types :: bitmap
  enabled_host_pools :: bitmap
  enabled_tags :: bitmap

definition MAX_NUM_SCRIPT_CATEGORIES :: nat where "MAX_NUM_SCRIPT_CATEGORIES = 6"
definition ALERT_ENTITY_MAX_NUM_ENTITIES :: nat where "ALERT_ENTITY_MAX_NUM_ENTITIES = 16"
definition OTHER_BASE_KEY :: u16 where "OTHER_BASE_KEY = 4096"
definition ALERTS_NOTIFICATIONS_QUEUE_SIZE :: u32 where "ALERTS_NOTIFICATIONS_QUEUE_SIZE = 8192"

definition RecipientQueue_new :: "u16 \<Rightarrow> recipient_queue" where
  "RecipientQueue_new rid =
     \<lparr>recipient_id = rid, skip_alerts = False, match_alert_id = False, rq_queue = None,
      enqueued = 0, drops = 0, filtered_out = 0, delivered = 0, delivery_failures = 0,
      last_use = 0, minimum_severity = alert_level_none,
      enabled_categories =
        foldl (\<lambda>b i. Bitmap_setBit b (of_nat i)) (Bitmap_new 2) [0..<MAX_NUM_SCRIPT_CATEGORIES],
      enabled_entities =
        foldl (\<lambda>b i. Bitmap_setBit b (of_nat i)) (Bitmap_new 2) [0..<ALERT_ENTITY_MAX_NUM_ENTITIES],
      enabled_flow_alert_types = Bitmap_new 2, enabled_host_alert_types = Bitmap_new 2,
      enabled_other_alert_types = Bitmap_new 2, enabled_host_pools = Bitmap_new 64,
      enabled_tags = Bitmap_new 1\<rparr>"

definition RecipientQueue_dequeue :: "int \<Rightarrow> recipient_queue \<Rightarrow> alert_item option \<times> recipient_queue" where
  "RecipientQueue_dequeue now rq =
     (case rq_queue rq of
        None \<Rightarrow> (None, rq)
      | Some q \<Rightarrow>
          (let (notification, q) = AlertFifoQueue_dequeue q;
               rq = rq\<lparr>rq_queue := Some q\<rparr>
           in (notification, if notification \<noteq> None then rq\<lparr>last_use := now\<rparr> else rq)))"

text \<open>
  The filters of \<open>enqueue\<close>, in the source's order. \<open>Filtered\<close>: returns true and enqueues
  nothing. \<open>Stored\<close>: a flow alert of the default recipient that ClickHouse already keeps
  with the flow, only counted. \<open>Pass\<close>: goes on to the queue.
\<close>

datatype filter_result = Filtered | Stored | Pass

definition RecipientQueue_filter :: "bool \<Rightarrow> recipient_queue \<Rightarrow> alert_item \<Rightarrow> filter_result" where
  "RecipientQueue_filter clickhouse rq n =
     (if match_alert_id rq \<and>
         (if alert_entity n = alert_entity_flow
            then \<not> Bitmap_isSetBit (enabled_flow_alert_types rq) (alert_id n)
          else if alert_entity n = alert_entity_host
            then \<not> Bitmap_isSetBit (enabled_host_alert_types rq) (alert_id n)
          else \<not> Bitmap_isSetBit (enabled_other_alert_types rq) (alert_id n - OTHER_BASE_KEY))
      then Filtered
      else if \<not> match_alert_id rq \<and>
         (alert_severity n < minimum_severity rq
          \<or> \<not> Bitmap_isSetBit (enabled_categories rq) (word_of_int (category_val (alert_category n)))
          \<or> \<not> Bitmap_isSetBit (enabled_entities rq) (word_of_int (entity_val (alert_entity n))))
      then Filtered
      else if recipient_id rq = 0 \<and> alert_entity n = alert_entity_flow \<and> clickhouse then Stored
      else if recipient_id rq = 0 then Pass
      else
        let raw_tags = Bitmap_getBits64 (enabled_tags rq) 0
        in if alert_entity n = alert_entity_flow \<and>
              \<not> Bitmap_isSetBit (enabled_host_pools rq) (cli_host_pool n) \<and>
              \<not> Bitmap_isSetBit (enabled_host_pools rq) (srv_host_pool n)
           then Filtered
           else if alert_entity n = alert_entity_host \<and>
              \<not> Bitmap_isSetBit (enabled_host_pools rq) (host_pool n)
           then Filtered
           else if raw_tags \<noteq> 0 \<and> tags_bitmap n AND raw_tags = 0 then Filtered
           else Pass)"

text \<open>The tail of \<open>enqueue\<close>: allocate the queue if needed (\<open>alloc_ok\<close>) and append a copy.\<close>

definition RecipientQueue_push :: "bool \<Rightarrow> recipient_queue \<Rightarrow> alert_item \<Rightarrow> bool \<times> recipient_queue" where
  "RecipientQueue_push alloc_ok rq n =
     (case (case rq_queue rq of
              Some q \<Rightarrow> Some q
            | None \<Rightarrow> if alloc_ok then Some (FifoQueue_new ALERTS_NOTIFICATIONS_QUEUE_SIZE) else None) of
        None \<Rightarrow> (False, rq\<lparr>drops := drops rq + 1\<rparr>)
      | Some q \<Rightarrow>
          (let (res, q) = FifoQueue_enqueue q (AlertFifoItem_copy n);
               rq = rq\<lparr>rq_queue := Some q\<rparr>
           in if \<not> res then (False, rq\<lparr>drops := drops rq + 1\<rparr>)
              else (True, rq\<lparr>enqueued := enqueued rq + 1\<rparr>)))"

text \<open>A null notification is followed when alerts are skipped, before the null test.\<close>

definition RecipientQueue_enqueue ::
  "bool \<Rightarrow> bool \<Rightarrow> recipient_queue \<Rightarrow> alert_item option \<Rightarrow> c_error + bool \<times> recipient_queue"
where
  "RecipientQueue_enqueue clickhouse alloc_ok rq notification =
     (if skip_alerts rq then
        (case notification of
           None \<Rightarrow> Inl Null_deref
         | Some n \<Rightarrow> if score n > 0 then Inr (True, rq) else Inr (RecipientQueue_push alloc_ok rq n))
      else
        (case notification of
           None \<Rightarrow> Inr (True, rq)
         | Some n \<Rightarrow>
             (case RecipientQueue_filter clickhouse rq n of
                Filtered \<Rightarrow> Inr (True, rq)
              | Stored \<Rightarrow> Inr (True, rq\<lparr>enqueued := enqueued rq + 1, delivered := delivered rq + 1\<rparr>)
              | Pass \<Rightarrow> Inr (RecipientQueue_push alloc_ok rq n))))"

definition RecipientQueue_empty :: "recipient_queue \<Rightarrow> bool" where
  "RecipientQueue_empty rq =
     (case rq_queue rq of None \<Rightarrow> True | Some q \<Rightarrow> FifoQueue_empty q)"

definition RecipientQueue_incStats :: "recipient_queue \<Rightarrow> u64 \<Rightarrow> u64 \<Rightarrow> u64 \<Rightarrow> recipient_queue" where
  "RecipientQueue_incStats rq d f df =
     rq\<lparr>delivered := delivered rq + d, filtered_out := filtered_out rq + f,
        delivery_failures := delivery_failures rq + df\<rparr>"

section \<open>Recipients\<close>

definition MAX_NUM_RECIPIENTS :: nat where "MAX_NUM_RECIPIENTS = 64"

record recipients =
  recipient_queues :: "recipient_queue option list"
  dequeued :: "bool list"
  default_recipient_minimum_severity :: alert_level

definition Recipients_new :: recipients where
  "Recipients_new =
     \<lparr>recipient_queues = replicate MAX_NUM_RECIPIENTS None,
      dequeued = replicate MAX_NUM_RECIPIENTS False,
      default_recipient_minimum_severity = alert_level_none\<rparr>"

definition Recipients_dequeue :: "int \<Rightarrow> recipients \<Rightarrow> u16 \<Rightarrow> alert_item option \<times> recipients" where
  "Recipients_dequeue now r rid =
     (if unat rid \<ge> MAX_NUM_RECIPIENTS then (None, r)
      else case recipient_queues r ! unat rid of
        None \<Rightarrow> (None, r)
      | Some rq \<Rightarrow>
          (let (notification, rq) = RecipientQueue_dequeue now rq;
               r = r\<lparr>recipient_queues := (recipient_queues r)[unat rid := Some rq]\<rparr>
           in (notification,
               if notification \<noteq> None then r\<lparr>dequeued := (dequeued r)[unat rid := True]\<rparr> else r)))"

definition Recipients_enqueue_to ::
  "bool \<Rightarrow> bool \<Rightarrow> recipients \<Rightarrow> u16 \<Rightarrow> alert_item option \<Rightarrow> c_error + bool \<times> recipients"
where
  "Recipients_enqueue_to clickhouse alloc_ok r rid notification =
     (if unat rid \<ge> MAX_NUM_RECIPIENTS \<or> notification = None then Inr (False, r)
      else case recipient_queues r ! unat rid of
        None \<Rightarrow> Inr (False, r)
      | Some rq \<Rightarrow>
          (case RecipientQueue_enqueue clickhouse alloc_ok rq notification of
             Inl e \<Rightarrow> Inl e
           | Inr (res, rq) \<Rightarrow> Inr (res, r\<lparr>recipient_queues := (recipient_queues r)[unat rid := Some rq]\<rparr>)))"

text \<open>The loop of \<open>enqueue\<close> over all the recipients: \<open>res\<close> accumulates with \<open>&=\<close>.\<close>

fun enqueue_all_loop ::
  "bool \<Rightarrow> bool \<Rightarrow> alert_item option \<Rightarrow> bool \<Rightarrow> recipient_queue option list \<Rightarrow>
     c_error + bool \<times> recipient_queue option list"
where
  "enqueue_all_loop ch ok n res [] = Inr (res, [])"
| "enqueue_all_loop ch ok n res (None # rqs) =
     map_sum (\<lambda>e. e) (\<lambda>(res, rqs). (res, None # rqs)) (enqueue_all_loop ch ok n res rqs)"
| "enqueue_all_loop ch ok n res (Some rq # rqs) =
     (case RecipientQueue_enqueue ch ok rq n of
        Inl e \<Rightarrow> Inl e
      | Inr (success, rq) \<Rightarrow>
          map_sum (\<lambda>e. e) (\<lambda>(res, rqs). (res, Some rq # rqs)) (enqueue_all_loop ch ok n (res \<and> success) rqs))"

definition Recipients_enqueue :: "bool \<Rightarrow> bool \<Rightarrow> recipients \<Rightarrow> alert_item option \<Rightarrow> c_error + bool \<times> recipients" where
  "Recipients_enqueue clickhouse alloc_ok r notification =
     (if notification = None then Inr (False, r)
      else case enqueue_all_loop clickhouse alloc_ok notification True (recipient_queues r) of
        Inl e \<Rightarrow> Inl e
      | Inr (res, rqs) \<Rightarrow> Inr (res, r\<lparr>recipient_queues := rqs\<rparr>))"

definition Recipients_register ::
  "recipients \<Rightarrow> u16 \<Rightarrow> alert_level \<Rightarrow> bitmap \<Rightarrow> bitmap \<Rightarrow> bitmap \<Rightarrow> bitmap \<Rightarrow> bitmap \<Rightarrow> bitmap \<Rightarrow> bool \<Rightarrow> bool \<Rightarrow> bitmap \<Rightarrow> recipients"
where
  "Recipients_register r rid min_sev categories pools entities flow_types host_types other_types
     match_id skip tags =
     (if unat rid \<ge> MAX_NUM_RECIPIENTS then r
      else
        let rq = (case recipient_queues r ! unat rid of None \<Rightarrow> RecipientQueue_new rid | Some rq \<Rightarrow> rq);
            rq = rq\<lparr>minimum_severity := min_sev, enabled_categories := categories,
                    enabled_entities := entities, enabled_host_pools := pools,
                    enabled_flow_alert_types := flow_types, enabled_host_alert_types := host_types,
                    enabled_other_alert_types := other_types, match_alert_id := match_id,
                    skip_alerts := skip, enabled_tags := tags\<rparr>;
            r = r\<lparr>recipient_queues := (recipient_queues r)[unat rid := Some rq]\<rparr>
        in if rid = 0 then r\<lparr>default_recipient_minimum_severity := min_sev\<rparr> else r)"

definition Recipients_delete :: "recipients \<Rightarrow> u16 \<Rightarrow> recipients" where
  "Recipients_delete r rid =
     (if unat rid \<ge> MAX_NUM_RECIPIENTS then r
      else r\<lparr>recipient_queues := (recipient_queues r)[unat rid := None]\<rparr>)"

definition Recipients_last_use :: "recipients \<Rightarrow> u16 \<Rightarrow> int \<times> recipients" where
  "Recipients_last_use r rid =
     (if unat rid \<ge> MAX_NUM_RECIPIENTS then (0, r)
      else
        (case recipient_queues r ! unat rid of None \<Rightarrow> 0 | Some rq \<Rightarrow> last_use rq,
         r\<lparr>dequeued := (dequeued r)[unat rid := False]\<rparr>))"

definition Recipients_incStats :: "recipients \<Rightarrow> u16 \<Rightarrow> u64 \<Rightarrow> u64 \<Rightarrow> u64 \<Rightarrow> recipients" where
  "Recipients_incStats r rid d f df =
     (if unat rid \<ge> MAX_NUM_RECIPIENTS then r
      else case recipient_queues r ! unat rid of
        None \<Rightarrow> r
      | Some rq \<Rightarrow> r\<lparr>recipient_queues := (recipient_queues r)[unat rid := Some (RecipientQueue_incStats rq d f df)]\<rparr>)"

text \<open>The scan of \<open>empty\<close> with its two early exits.\<close>

fun recipients_empty_loop :: "bool list \<Rightarrow> recipient_queue option list \<Rightarrow> bool" where
  "recipients_empty_loop (d # ds) (q # qs) =
     (if d then False
      else if (case q of None \<Rightarrow> False | Some rq \<Rightarrow> \<not> RecipientQueue_empty rq) then False
      else recipients_empty_loop ds qs)"
| "recipients_empty_loop _ _ = True"

definition Recipients_empty :: "recipients \<Rightarrow> bool" where
  "Recipients_empty r = recipients_empty_loop (dequeued r) (recipient_queues r)"

section \<open>Invariants\<close>

definition RQ_items :: "recipient_queue \<Rightarrow> alert_item list" where
  "RQ_items rq = (case rq_queue rq of None \<Rightarrow> [] | Some q \<Rightarrow> fq_q q)"

definition RQ_inv :: "recipient_queue \<Rightarrow> bool" where
  "RQ_inv rq \<longleftrightarrow>
     (case rq_queue rq of
        None \<Rightarrow> True
      | Some q \<Rightarrow> FifoQueue_inv q \<and> max_size q = ALERTS_NOTIFICATIONS_QUEUE_SIZE)"

lemma AlertFifoItem_copy_id [simp]: "AlertFifoItem_copy i = i"
  by (simp add: AlertFifoItem_copy_def)

lemma RQ_inv_new [simp]: "RQ_inv (RecipientQueue_new rid)" "RQ_items (RecipientQueue_new rid) = []"
  by (simp_all add: RQ_inv_def RQ_items_def RecipientQueue_new_def)

text \<open>Whether \<open>push\<close> finds a queue with room.\<close>

definition RQ_room :: "bool \<Rightarrow> recipient_queue \<Rightarrow> bool" where
  "RQ_room alloc_ok rq \<longleftrightarrow> (rq_queue rq \<noteq> None \<or> alloc_ok) \<and> length (RQ_items rq) < 8192"

lemma push_spec:
  assumes "RQ_inv rq"
  shows "RecipientQueue_push ok rq n =
    (if RQ_room ok rq then
       (True, rq\<lparr>rq_queue := Some (snd (FifoQueue_enqueue (case rq_queue rq of None \<Rightarrow> FifoQueue_new ALERTS_NOTIFICATIONS_QUEUE_SIZE | Some q \<Rightarrow> q) n)),
                 enqueued := enqueued rq + 1\<rparr>)
     else (False, (case rq_queue rq of None \<Rightarrow> rq | Some q \<Rightarrow> rq\<lparr>rq_queue := Some (snd (FifoQueue_enqueue q n))\<rparr>)
       \<lparr>drops := drops rq + 1\<rparr>))"
proof (cases "rq_queue rq")
  case None
  then show ?thesis
    by (simp add: RecipientQueue_push_def RQ_room_def RQ_items_def FifoQueue_enqueue_cases
        FifoQueue_canEnqueue_iff [OF FifoQueue_inv_new] FifoQueue_new_def ALERTS_NOTIFICATIONS_QUEUE_SIZE_def
        FifoQueue_canEnqueue_def FifoQueue_getLength_def)
next
  case (Some q)
  with assms have "FifoQueue_inv q" "unat (max_size q) = 8192"
    by (simp_all add: RQ_inv_def ALERTS_NOTIFICATIONS_QUEUE_SIZE_def)
  with Some show ?thesis
    by (simp add: RecipientQueue_push_def RQ_room_def RQ_items_def FifoQueue_enqueue_cases
        FifoQueue_canEnqueue_iff)
qed

lemma max_size_new: "max_size (FifoQueue_new n) = n"
  by (simp add: FifoQueue_new_def)

lemma max_size_enqueue [simp]: "max_size (snd (FifoQueue_enqueue q x)) = max_size q"
  by (simp add: FifoQueue_enqueue_cases)

lemma max_size_dequeue [simp]: "max_size (snd (FifoQueue_dequeue q)) = max_size q"
  by (simp add: FifoQueue_dequeue_def split: list.splits)

lemma push_items:
  assumes "RQ_inv rq" "RecipientQueue_push ok rq n = (res, rq')"
  shows "RQ_inv rq' \<and> RQ_items rq' = (if res then RQ_items rq @ [n] else RQ_items rq) \<and>
    recipient_id rq' = recipient_id rq \<and> res = RQ_room ok rq \<and>
    enqueued rq' = enqueued rq + (if res then 1 else 0) \<and> drops rq' = drops rq + (if res then 0 else 1) \<and>
    delivered rq' = delivered rq"
proof -
  define q where "q = (case rq_queue rq of None \<Rightarrow> FifoQueue_new ALERTS_NOTIFICATIONS_QUEUE_SIZE | Some q \<Rightarrow> q)"
  have inv: "FifoQueue_inv q" "max_size q = ALERTS_NOTIFICATIONS_QUEUE_SIZE"
    using assms(1) by (auto simp: q_def RQ_inv_def FifoQueue_inv_new max_size_new split: option.splits)
  have inv': "FifoQueue_inv (snd (FifoQueue_enqueue q n))"
    using FifoQueue_inv_enqueue [OF inv(1), of n] by (metis prod.collapse)
  have items: "fq_q q = RQ_items rq"
    by (auto simp: q_def RQ_items_def FifoQueue_new_def split: option.splits)
  have can: "FifoQueue_canEnqueue q \<longleftrightarrow> length (RQ_items rq) < 8192"
    using FifoQueue_canEnqueue_iff [OF inv(1)] inv(2) items
    by (simp add: ALERTS_NOTIFICATIONS_QUEUE_SIZE_def)
  show ?thesis
  proof (cases "RQ_room ok rq")
    case True
    then have "FifoQueue_canEnqueue q" using can by (simp add: RQ_room_def)
    with True show ?thesis
      using assms(2) inv inv' items
      by (auto simp: push_spec [OF assms(1)] RQ_inv_def RQ_items_def FifoQueue_enqueue_cases simp flip: q_def)
  next
    case False
    then show ?thesis
      using assms inv inv' items can
      by (auto simp: push_spec [OF assms(1)] RQ_inv_def RQ_items_def q_def FifoQueue_enqueue_cases RQ_room_def
          split: option.splits)
  qed
qed

lemma dequeue_inv:
  assumes "RQ_inv rq" "RecipientQueue_dequeue now rq = (r, rq')"
  shows "RQ_inv rq' \<and> recipient_id rq' = recipient_id rq \<and>
    (case r of None \<Rightarrow> RQ_items rq' = RQ_items rq \<and> RQ_items rq = [] | Some x \<Rightarrow> RQ_items rq = x # RQ_items rq')"
proof (cases "rq_queue rq")
  case None
  with assms show ?thesis by (auto simp: RecipientQueue_dequeue_def RQ_items_def)
next
  case (Some q)
  with assms have q: "FifoQueue_inv q" "max_size q = ALERTS_NOTIFICATIONS_QUEUE_SIZE"
    by (simp_all add: RQ_inv_def)
  have "FifoQueue_inv (snd (FifoQueue_dequeue q))"
    using FifoQueue_inv_dequeue [OF q(1)] by (metis prod.collapse)
  with Some assms q show ?thesis
    by (auto simp: RecipientQueue_dequeue_def AlertFifoQueue_dequeue_eq RQ_inv_def RQ_items_def
        FifoQueue_dequeue_def split: list.splits if_splits)
qed

definition Recipients_inv :: "recipients \<Rightarrow> bool" where
  "Recipients_inv r \<longleftrightarrow>
     length (recipient_queues r) = 64 \<and> length (dequeued r) = 64 \<and>
     (\<forall>i rq. i < 64 \<and> recipient_queues r ! i = Some rq \<longrightarrow> RQ_inv rq \<and> recipient_id rq = of_nat i)"

lemma Recipients_inv_update:
  assumes "Recipients_inv r" "unat rid < 64"
    and "\<And>rq. q = Some rq \<Longrightarrow> RQ_inv rq \<and> recipient_id rq = rid" "length ds = 64"
  shows "Recipients_inv (r\<lparr>recipient_queues := (recipient_queues r)[unat rid := q], dequeued := ds\<rparr>)"
  using assms by (auto simp: Recipients_inv_def nth_list_update)

lemma Recipients_inv_lookup:
  "Recipients_inv r \<Longrightarrow> unat (rid :: u16) < 64 \<Longrightarrow> recipient_queues r ! unat rid = Some rq \<Longrightarrow>
    RQ_inv rq \<and> recipient_id rq = rid"
  by (auto simp: Recipients_inv_def)

subsection \<open>One enqueue\<close>

text \<open>
  The policy of a recipient, on the sets that its bitmaps stand for: what it selects, the host
  pools and tags it is limited to (the default recipient is not), and the flow
  alerts that ClickHouse keeps for the default recipient.
\<close>

definition RQ_types :: "recipient_queue \<Rightarrow> alert_entity \<Rightarrow> nat set" where
  "RQ_types rq e = Bitmap_bits (case e of alert_entity_flow \<Rightarrow> enabled_flow_alert_types rq
     | alert_entity_host \<Rightarrow> enabled_host_alert_types rq | _ \<Rightarrow> enabled_other_alert_types rq)"

definition RQ_selects :: "recipient_queue \<Rightarrow> alert_item \<Rightarrow> bool" where
  "RQ_selects rq n \<longleftrightarrow>
     (if match_alert_id rq
      then unat (if alert_entity n \<in> {alert_entity_flow, alert_entity_host} then alert_id n else alert_id n - OTHER_BASE_KEY)
             \<in> RQ_types rq (alert_entity n)
      else minimum_severity rq \<le> alert_severity n
        \<and> nat (category_val (alert_category n)) \<in> Bitmap_bits (enabled_categories rq)
        \<and> nat (entity_val (alert_entity n) mod 65536) \<in> Bitmap_bits (enabled_entities rq))"

definition alert_pools :: "alert_item \<Rightarrow> nat set" where
  "alert_pools n = (case alert_entity n of alert_entity_flow \<Rightarrow> {unat (cli_host_pool n), unat (srv_host_pool n)}
     | alert_entity_host \<Rightarrow> {unat (host_pool n)} | _ \<Rightarrow> {})"

definition RQ_wants :: "recipient_queue \<Rightarrow> alert_item \<Rightarrow> bool" where
  "RQ_wants rq n \<longleftrightarrow> recipient_id rq = 0
     \<or> (alert_pools n = {} \<or> alert_pools n \<inter> Bitmap_bits (enabled_host_pools rq) \<noteq> {})
       \<and> ((\<forall>i<64. i \<notin> Bitmap_bits (enabled_tags rq))
          \<or> (\<exists>i<64. i \<in> Bitmap_bits (enabled_tags rq) \<and> bit (tags_bitmap n) i))"

definition RQ_kept :: "bool \<Rightarrow> recipient_queue \<Rightarrow> alert_item \<Rightarrow> bool" where
  "RQ_kept ch rq n \<longleftrightarrow> recipient_id rq = 0 \<and> alert_entity n = alert_entity_flow \<and> ch"

definition RQ_passes :: "bool \<Rightarrow> recipient_queue \<Rightarrow> alert_item \<Rightarrow> bool" where
  "RQ_passes ch rq n \<longleftrightarrow>
     (if skip_alerts rq then score n = 0 else RQ_selects rq n \<and> \<not> RQ_kept ch rq n \<and> RQ_wants rq n)"

definition RQ_stored :: "bool \<Rightarrow> recipient_queue \<Rightarrow> alert_item \<Rightarrow> bool" where
  "RQ_stored ch rq n \<longleftrightarrow> \<not> skip_alerts rq \<and> RQ_selects rq n \<and> RQ_kept ch rq n"

lemma getBits64_bits: "i < 64 \<Longrightarrow> bit (Bitmap_getBits64 bm 0) i \<longleftrightarrow> i \<in> Bitmap_bits bm"
  by (cases bm) (simp_all add: Bitmap_getBits64_def Bitmap_bits_def)

lemma tags_filtered:
  "Bitmap_getBits64 bm 0 \<noteq> 0 \<and> w AND Bitmap_getBits64 bm 0 = 0 \<longleftrightarrow>
     \<not> ((\<forall>i<64. i \<notin> Bitmap_bits bm) \<or> (\<exists>i<64. i \<in> Bitmap_bits bm \<and> bit w i))"
proof -
  have "Bitmap_getBits64 bm 0 = 0 \<longleftrightarrow> (\<forall>i<64. i \<notin> Bitmap_bits bm)"
    using getBits64_bits [of _ bm] by (auto simp: bit_eq_iff dest: bit_imp_le_length)
  moreover have "w AND Bitmap_getBits64 bm 0 = 0 \<longleftrightarrow> \<not> (\<exists>i<64. i \<in> Bitmap_bits bm \<and> bit w i)"
    using getBits64_bits [of _ bm] by (auto simp: bit_eq_iff bit_and_iff dest: bit_imp_le_length)
  ultimately show ?thesis by blast
qed

lemma RQ_selects_filter:
  "RQ_selects rq n \<longleftrightarrow> \<not> (match_alert_id rq \<and>
         (if alert_entity n = alert_entity_flow
            then \<not> Bitmap_isSetBit (enabled_flow_alert_types rq) (alert_id n)
          else if alert_entity n = alert_entity_host
            then \<not> Bitmap_isSetBit (enabled_host_alert_types rq) (alert_id n)
          else \<not> Bitmap_isSetBit (enabled_other_alert_types rq) (alert_id n - OTHER_BASE_KEY)))
      \<and> \<not> (\<not> match_alert_id rq \<and>
         (alert_severity n < minimum_severity rq
          \<or> \<not> Bitmap_isSetBit (enabled_categories rq) (word_of_int (category_val (alert_category n)))
          \<or> \<not> Bitmap_isSetBit (enabled_entities rq) (word_of_int (entity_val (alert_entity n)))))"
proof -
  have c: "unat (word_of_int (category_val c) :: u16) = nat (category_val c)" for c by (cases c) simp_all
  have e: "unat (word_of_int (entity_val e) :: u16) = nat (entity_val e mod 65536)" for e by (cases e) code_simp+
  have m: "unat (- 1 :: u16) = 65535" by (simp add: unsigned_minus_1_eq_mask mask_eq_exp_minus_1)
  show ?thesis
    by (cases "alert_entity n") (auto simp: RQ_selects_def RQ_types_def Bitmap_isSetBit_iff c e m not_less)
qed

lemma RecipientQueue_filter_spec:
  "RecipientQueue_filter ch rq n =
     (if \<not> RQ_selects rq n then Filtered else if RQ_kept ch rq n then Stored
      else if RQ_wants rq n then Pass else Filtered)"
proof -
  note tags = tags_filtered [where bm = "enabled_tags rq" and w = "tags_bitmap n"]
  show ?thesis
    unfolding RecipientQueue_filter_def RQ_selects_filter Let_def tags RQ_kept_def RQ_wants_def alert_pools_def
    by (cases "alert_entity n") (auto simp: Bitmap_isSetBit_iff)
qed

lemma RQ_passes_filter:
  "RQ_passes ch rq n \<longleftrightarrow> (if skip_alerts rq then score n = 0 else RecipientQueue_filter ch rq n = Pass)"
  "RQ_stored ch rq n \<longleftrightarrow> \<not> skip_alerts rq \<and> RecipientQueue_filter ch rq n = Stored"
  by (simp_all add: RQ_passes_def RQ_stored_def RecipientQueue_filter_spec)

lemma enqueue_total:
  "\<exists>res rq'. RecipientQueue_enqueue ch ok rq (Some n) = Inr (res, rq')"
  by (auto simp: RecipientQueue_enqueue_def split: filter_result.splits)

lemma enqueue_outcome:
  assumes "RQ_inv rq" "RecipientQueue_enqueue ch ok rq (Some n) = Inr (res, rq')"
  shows "RQ_inv rq' \<and> recipient_id rq' = recipient_id rq \<and>
    res = (RQ_passes ch rq n \<longrightarrow> RQ_room ok rq) \<and>
    RQ_items rq' = (if RQ_passes ch rq n \<and> RQ_room ok rq then RQ_items rq @ [n] else RQ_items rq) \<and>
    enqueued rq' = enqueued rq + (if RQ_stored ch rq n \<or> RQ_passes ch rq n \<and> RQ_room ok rq then 1 else 0) \<and>
    drops rq' = drops rq + (if RQ_passes ch rq n \<and> \<not> RQ_room ok rq then 1 else 0)"
proof (cases "RQ_passes ch rq n")
  case True
  then have push: "RecipientQueue_push ok rq n = (res, rq')"
    using assms(2) by (auto simp: RecipientQueue_enqueue_def RQ_passes_filter split: if_splits filter_result.splits)
  have "\<not> RQ_stored ch rq n" using True by (auto simp: RQ_passes_filter)
  with push_items [OF assms(1) push] True show ?thesis by auto
next
  case False
  then show ?thesis
    using assms
    by (auto simp: RecipientQueue_enqueue_def RQ_passes_filter RQ_inv_def RQ_items_def word_gt_0
        split: if_splits filter_result.splits)
qed

subsection \<open>All recipients\<close>

definition enqueue_one :: "bool \<Rightarrow> bool \<Rightarrow> alert_item \<Rightarrow> recipient_queue \<Rightarrow> bool \<times> recipient_queue" where
  "enqueue_one ch ok n rq = projr (RecipientQueue_enqueue ch ok rq (Some n))"

lemma enqueue_one_eq: "RecipientQueue_enqueue ch ok rq (Some n) = Inr (enqueue_one ch ok n rq)"
  using enqueue_total [of ch ok rq n] by (auto simp: enqueue_one_def)

lemma enqueue_all_loop_eq:
  "enqueue_all_loop ch ok (Some n) res rqs =
    Inr (res \<and> (\<forall>rq. Some rq \<in> set rqs \<longrightarrow> fst (enqueue_one ch ok n rq)),
         map (map_option (\<lambda>rq. snd (enqueue_one ch ok n rq))) rqs)"
  by (induction ch ok "Some n" res rqs rule: enqueue_all_loop.induct)
    (auto simp: enqueue_one_eq split: prod.splits)

lemma Recipients_inv_new: "Recipients_inv Recipients_new"
  by (auto simp: Recipients_inv_def Recipients_new_def MAX_NUM_RECIPIENTS_def)

lemma Recipients_inv_enqueue:
  assumes "Recipients_inv r" "Recipients_enqueue ch ok r n = Inr (res, r')"
  shows "Recipients_inv r'"
proof (cases n)
  case None
  with assms show ?thesis by (simp add: Recipients_enqueue_def)
next
  case (Some a)
  have "RQ_inv (snd (enqueue_one ch ok a rq)) \<and> recipient_id (snd (enqueue_one ch ok a rq)) = recipient_id rq"
    if "RQ_inv rq" for rq
    using enqueue_outcome [OF that, of ch ok a] enqueue_one_eq [of ch ok rq a] by (metis prod.collapse)
  with Some assms show ?thesis
    by (auto simp: Recipients_enqueue_def enqueue_all_loop_eq Recipients_inv_def)
qed

section \<open>Histories of operations\<close>

datatype recipient_op =
    Op_dequeue int u16
  | Op_enqueue_to u16 "alert_item option"
  | Op_enqueue "alert_item option"
  | Op_register u16 alert_level bitmap bitmap bitmap bitmap bitmap bitmap bool bool bitmap
  | Op_delete u16
  | Op_last_use u16
  | Op_incStats u16 u64 u64 u64

text \<open>
  One call of the public interface; an operation that would follow a null pointer leaves
  the table as it is (\<open>recipients_no_null\<close> below: none does).
\<close>

fun Recipients_apply :: "bool \<Rightarrow> bool \<Rightarrow> recipients \<Rightarrow> recipient_op \<Rightarrow> recipients" where
  "Recipients_apply ch ok r (Op_dequeue now rid) = snd (Recipients_dequeue now r rid)"
| "Recipients_apply ch ok r (Op_enqueue_to rid n) =
     (case Recipients_enqueue_to ch ok r rid n of Inl e \<Rightarrow> r | Inr (res, r') \<Rightarrow> r')"
| "Recipients_apply ch ok r (Op_enqueue n) =
     (case Recipients_enqueue ch ok r n of Inl e \<Rightarrow> r | Inr (res, r') \<Rightarrow> r')"
| "Recipients_apply ch ok r (Op_register rid a b c d e f g h i j) = Recipients_register r rid a b c d e f g h i j"
| "Recipients_apply ch ok r (Op_delete rid) = Recipients_delete r rid"
| "Recipients_apply ch ok r (Op_last_use rid) = snd (Recipients_last_use r rid)"
| "Recipients_apply ch ok r (Op_incStats rid d f df) = Recipients_incStats r rid d f df"

lemma recipients_no_null:
  "Recipients_enqueue_to ch ok r rid n \<noteq> Inl e" "Recipients_enqueue ch ok r n \<noteq> Inl e"
  by (auto simp: Recipients_enqueue_to_def Recipients_enqueue_def enqueue_one_eq enqueue_all_loop_eq
      split: option.splits prod.splits)

lemma RQ_incStats [simp]:
  "RQ_inv (RecipientQueue_incStats rq d f df) = RQ_inv rq"
  "recipient_id (RecipientQueue_incStats rq d f df) = recipient_id rq"
  by (simp_all add: RecipientQueue_incStats_def RQ_inv_def)

lemma Recipients_apply_inv:
  assumes "Recipients_inv r"
  shows "Recipients_inv (Recipients_apply ch ok r oper)"
proof (cases oper)
  case (Op_dequeue now rid)
  show ?thesis
  proof (cases "unat rid < 64 \<and> recipient_queues r ! unat rid \<noteq> None")
    case True
    then obtain rq where rq: "recipient_queues r ! unat rid = Some rq" "RQ_inv rq" "recipient_id rq = rid"
      using Recipients_inv_lookup [OF assms, of rid] by auto
    obtain v rq' where d: "RecipientQueue_dequeue now rq = (v, rq')" by fastforce
    note dequeue_inv [OF rq(2) d]
    with True rq d assms Op_dequeue show ?thesis
      by (auto simp: Recipients_dequeue_def Recipients_inv_def MAX_NUM_RECIPIENTS_def nth_list_update Let_def)
  next
    case False
    with assms Op_dequeue show ?thesis by (auto simp: Recipients_dequeue_def MAX_NUM_RECIPIENTS_def)
  qed
next
  case (Op_enqueue_to rid n)
  show ?thesis
  proof (cases "unat rid < 64 \<and> n \<noteq> None \<and> recipient_queues r ! unat rid \<noteq> None")
    case True
    then obtain rq a where rq: "n = Some a" "recipient_queues r ! unat rid = Some rq" "RQ_inv rq" "recipient_id rq = rid"
      using Recipients_inv_lookup [OF assms, of rid] by auto
    obtain res rq' where d: "RecipientQueue_enqueue ch ok rq (Some a) = Inr (res, rq')"
      using enqueue_total by blast
    note enqueue_outcome [OF rq(3) d]
    with True rq d assms Op_enqueue_to show ?thesis
      by (auto simp: Recipients_enqueue_to_def Recipients_inv_def MAX_NUM_RECIPIENTS_def nth_list_update)
  next
    case False
    with assms Op_enqueue_to show ?thesis by (auto simp: Recipients_enqueue_to_def MAX_NUM_RECIPIENTS_def)
  qed
next
  case (Op_enqueue n)
  with assms show ?thesis
    by (auto split: sum.splits dest: Recipients_inv_enqueue)
next
  case (Op_register rid a b c d e f g h i j)
  have "RQ_inv (case recipient_queues r ! unat rid of None \<Rightarrow> RecipientQueue_new rid | Some rq \<Rightarrow> rq)
      \<and> recipient_id (case recipient_queues r ! unat rid of None \<Rightarrow> RecipientQueue_new rid | Some rq \<Rightarrow> rq) = rid"
    if "unat rid < 64"
    using Recipients_inv_lookup [OF assms that]
    by (auto split: option.splits) (simp add: RecipientQueue_new_def)
  with assms Op_register show ?thesis
    by (auto simp: Recipients_register_def Recipients_inv_def MAX_NUM_RECIPIENTS_def Let_def RQ_inv_def nth_list_update)
next
  case (Op_delete rid)
  with assms show ?thesis
    by (auto simp: Recipients_delete_def Recipients_inv_def MAX_NUM_RECIPIENTS_def nth_list_update split: if_splits)
next
  case (Op_last_use rid)
  with assms show ?thesis
    by (auto simp: Recipients_last_use_def Recipients_inv_def)
next
  case (Op_incStats rid d f df)
  with assms Recipients_inv_lookup [OF assms, of rid] show ?thesis
    by (auto simp: not_le Recipients_incStats_def Recipients_inv_def MAX_NUM_RECIPIENTS_def nth_list_update
        split: option.splits)
qed

lemma Recipients_run_inv: "Recipients_inv r \<Longrightarrow> Recipients_inv (foldl (Recipients_apply ch ok) r ops)"
  by (induction ops arbitrary: r) (simp_all add: Recipients_apply_inv)

section \<open>Emptiness\<close>

lemma recipients_empty_loop_iff:
  "length ds = length qs \<Longrightarrow>
    recipients_empty_loop ds qs \<longleftrightarrow> True \<notin> set ds \<and> (\<forall>rq. Some rq \<in> set qs \<longrightarrow> RQ_items rq = [])"
  by (induction ds qs rule: list_induct2)
    (auto simp: RecipientQueue_empty_def FifoQueue_empty_def RQ_items_def split: option.splits)

lemma Recipients_apply_dequeued:
  assumes "Recipients_inv r" "unat rid < 64" "dequeued r ! unat rid" "oper \<noteq> Op_last_use rid"
  shows "dequeued (Recipients_apply ch ok r oper) ! unat rid"
proof -
  have len: "length (dequeued r) = 64" using assms(1) by (simp add: Recipients_inv_def)
  show ?thesis
    using assms(2,3,4) len
    by (cases oper)
      (auto simp: Recipients_dequeue_def Recipients_enqueue_to_def Recipients_enqueue_def Recipients_register_def
        Recipients_delete_def Recipients_last_use_def Recipients_incStats_def Let_def nth_list_update
        MAX_NUM_RECIPIENTS_def unat_eq_iff_eq split: option.splits sum.splits prod.splits)
qed

section \<open>Properties\<close>

text \<open>
  C6: every alert offered to a recipient has exactly one outcome, which the recipient's policy decides.
  The policy is stated on the sets behind the bitmaps: the alert types, or the severity, category and
  entity, that the recipient selects, the host pools and the tags it is limited to, and the
  flow alerts that ClickHouse keeps for the default recipient. An alert that passes is appended behind the queued ones
  (enqueued incremented), or finds no room (drops incremented, result false); a flow alert that
  ClickHouse keeps is only counted; any other changes nothing. The queue never exceeds 8192 items.
\<close>

theorem RecipientQueue_enqueue_outcome:
  assumes "RQ_inv rq"
  shows "\<exists>res rq'. RecipientQueue_enqueue ch ok rq (Some n) = Inr (res, rq') \<and> RQ_inv rq' \<and>
    res = (RQ_passes ch rq n \<longrightarrow> RQ_room ok rq) \<and>
    RQ_items rq' = (if RQ_passes ch rq n \<and> RQ_room ok rq then RQ_items rq @ [n] else RQ_items rq) \<and>
    enqueued rq' = enqueued rq + (if RQ_stored ch rq n \<or> RQ_passes ch rq n \<and> RQ_room ok rq then 1 else 0) \<and>
    drops rq' = drops rq + (if RQ_passes ch rq n \<and> \<not> RQ_room ok rq then 1 else 0)"
proof -
  obtain res rq' where "RecipientQueue_enqueue ch ok rq (Some n) = Inr (res, rq')"
    using enqueue_total by blast
  with enqueue_outcome [OF assms this] show ?thesis by blast
qed

theorem RecipientQueue_enqueue_outcome_witness:
  "\<exists>res rq'. RecipientQueue_enqueue False True (RecipientQueue_new 0) (Some AlertFifoItem_new) = Inr (res, rq') \<and>
    RQ_items rq' = [AlertFifoItem_new]"
proof -
  have "RQ_passes False (RecipientQueue_new 0) AlertFifoItem_new"
    unfolding RQ_passes_filter by code_simp
  moreover have "RQ_room True (RecipientQueue_new 0)" by (simp add: RQ_room_def)
  ultimately show ?thesis
    using RecipientQueue_enqueue_outcome [of "RecipientQueue_new 0" False True AlertFifoItem_new] by auto
qed

text \<open>
  an alert sent to all the recipients reaches each registered one through its own
  filter, whatever happens to the others (a full queue does not stop the loop), and the
  call succeeds exactly when no recipient refused it. No null pointer is ever followed.
\<close>

theorem Recipients_enqueue_broadcast:
  "Recipients_enqueue ch ok r (Some n) =
     Inr (\<forall>rq. Some rq \<in> set (recipient_queues r) \<longrightarrow> fst (enqueue_one ch ok n rq),
          r\<lparr>recipient_queues := map (map_option (\<lambda>rq. snd (enqueue_one ch ok n rq))) (recipient_queues r)\<rparr>)"
  by (simp add: Recipients_enqueue_def enqueue_all_loop_eq)

theorem Recipients_enqueue_broadcast_witness:
  "Recipients_enqueue False True Recipients_new (Some AlertFifoItem_new) = Inr (True, Recipients_new)"
  using Recipients_enqueue_broadcast [of False True Recipients_new AlertFifoItem_new]
  by (simp add: Recipients_new_def MAX_NUM_RECIPIENTS_def)

text \<open>
  after any history of public operations the table is well formed: 64 slots, every
  queue bounded and with consistent counters, every recipient stored in the slot of its
  own identifier.
\<close>

theorem Recipients_history_inv:
  "Recipients_inv (foldl (Recipients_apply ch ok) Recipients_new ops)"
  by (rule Recipients_run_inv [OF Recipients_inv_new])

text \<open>
  \<open>empty\<close> answers true exactly when no notification is queued for any recipient and
  none is marked as still being processed.
\<close>

theorem Recipients_empty_iff:
  assumes "Recipients_inv r"
  shows "Recipients_empty r \<longleftrightarrow>
    (\<forall>i < 64. \<not> dequeued r ! i) \<and> (\<forall>i rq. i < 64 \<and> recipient_queues r ! i = Some rq \<longrightarrow> RQ_items rq = [])"
  using assms
  by (auto simp: Recipients_empty_def recipients_empty_loop_iff Recipients_inv_def in_set_conv_nth)

theorem Recipients_empty_iff_witness: "Recipients_empty Recipients_new"
  unfolding Recipients_empty_iff [OF Recipients_inv_new]
  by (auto simp: Recipients_new_def MAX_NUM_RECIPIENTS_def)

text \<open>
  deleting a recipient while one of its notifications is marked as being processed
  leaves the mark set, so \<open>empty\<close> answers false from then on, through every later history
  that does not ask for the last use of the deleted identifier again.
\<close>

theorem Recipients_delete_leaves_busy:
  assumes "Recipients_inv r" "unat rid < 64" "dequeued r ! unat rid" "Op_last_use rid \<notin> set ops"
  shows "\<not> Recipients_empty (foldl (Recipients_apply ch ok) (Recipients_delete r rid) ops)"
proof -
  have start: "Recipients_inv (Recipients_delete r rid)" "dequeued (Recipients_delete r rid) ! unat rid"
    using assms Recipients_apply_inv [OF assms(1), of ch ok "Op_delete rid"]
    by (auto simp: Recipients_delete_def)
  have "Recipients_inv r' \<and> dequeued r' ! unat rid \<Longrightarrow>
      dequeued (foldl (Recipients_apply ch ok) r' ops) ! unat rid" for r'
    using assms(4)
  proof (induction ops arbitrary: r')
    case (Cons oper ops)
    then show ?case
      using Recipients_apply_inv [of r' ch ok oper] Recipients_apply_dequeued [of r' rid oper ch ok] assms(2)
      by auto
  qed simp
  with start Recipients_run_inv [OF start(1)] assms(2) show ?thesis
    by (auto simp: Recipients_empty_iff [OF Recipients_run_inv [OF start(1)]])
qed

theorem Recipients_delete_leaves_busy_witness:
  "(let r = Recipients_new\<lparr>dequeued := (dequeued Recipients_new)[3 := True]\<rparr>
    in \<not> Recipients_empty (foldl (Recipients_apply False True) (Recipients_delete r 3) [Op_last_use 4]))"
proof -
  let ?r = "Recipients_new\<lparr>dequeued := (dequeued Recipients_new)[3 := True]\<rparr>"
  have "Recipients_inv ?r"
    using Recipients_inv_new by (simp add: Recipients_inv_def)
  then show ?thesis
    using Recipients_delete_leaves_busy [of ?r 3 "[Op_last_use 4]" False True]
    by (simp add: Recipients_new_def MAX_NUM_RECIPIENTS_def Let_def)
qed

end
