(* ===== verification/Hash_Entry.thy ===== *)
theory Hash_Entry
  imports Prelude
begin

text \<open>
  Entries of the hash tables: src/include/GenericHashEntry.h, src/src/GenericHashEntry.cpp,
  and the methods by which Host, Mac, ObservationPoint, AutonomousSystem and Flow decide
  that an entry may become idle (src/src/Host.cpp, Mac.cpp, ObservationPoint.cpp,
  AutonomousSystem.cpp, Flow.cpp).

  An entry is an extensible record, so that a subclass is a record extension. The
  identity of an object (its address) is the field \<open>ptr\<close>. The virtual methods that
  GenericHash calls are the fields of the record \<open>entry_methods\<close>, and the locale
  \<open>hash_entry_class\<close> states what the table relies on.
\<close>

section \<open>The states of an entry\<close>

datatype hash_entry_state =
    hash_entry_state_allocated
  | hash_entry_state_flow_notyetdetected
  | hash_entry_state_flow_protocoldetected
  | hash_entry_state_active
  | hash_entry_state_idle

fun state_val :: "hash_entry_state \<Rightarrow> nat" where
  "state_val hash_entry_state_allocated = 0"
| "state_val hash_entry_state_flow_notyetdetected = 1"
| "state_val hash_entry_state_flow_protocoldetected = 2"
| "state_val hash_entry_state_active = 3"
| "state_val hash_entry_state_idle = 4"

lemma state_val_inj: "state_val a = state_val b \<longleftrightarrow> a = b"
  by (cases a; cases b) simp_all

instantiation hash_entry_state :: linorder
begin

definition less_eq_hash_entry_state :: "hash_entry_state \<Rightarrow> hash_entry_state \<Rightarrow> bool" where
  "less_eq_hash_entry_state a b \<longleftrightarrow> state_val a \<le> state_val b"

definition less_hash_entry_state :: "hash_entry_state \<Rightarrow> hash_entry_state \<Rightarrow> bool" where
  "less_hash_entry_state a b \<longleftrightarrow> state_val a < state_val b"

instance
  by standard (auto simp: less_eq_hash_entry_state_def less_hash_entry_state_def state_val_inj)

end

lemmas state_order = less_eq_hash_entry_state_def less_hash_entry_state_def

section \<open>GenericHashEntry\<close>

text \<open>
  What an entry reads of its interface and of the preferences. \<open>getTimeLastPktRcvd\<close> is
  the time of the last packet, a \<open>time_t\<close>.
\<close>

record iface_env =
  get_id :: u32
  isPacketInterface :: bool
  isRunning :: bool
  is_purge_idle_interface :: bool
  getTimeLastPktRcvd :: int
  skipDPIforCollectedFlows :: bool
  disablePurge :: bool

record hash_entry =
  ptr :: nat
  hash_entry_state :: hash_entry_state
  num_uses :: u32
  first_seen :: int
  last_seen :: int

definition GenericHashEntry_new :: "nat \<Rightarrow> iface_env \<Rightarrow> int \<Rightarrow> hash_entry" where
  "GenericHashEntry_new p ifc now =
     (let t = (if getTimeLastPktRcvd ifc > 0 then getTimeLastPktRcvd ifc else now)
      in \<lparr> ptr = p, hash_entry_state = hash_entry_state_active, num_uses = 0,
           first_seen = t, last_seen = t \<rparr>)"

definition updateSeen_at :: "int \<Rightarrow> 'm hash_entry_scheme \<Rightarrow> 'm hash_entry_scheme" where
  "updateSeen_at t e =
     (let e1 = (if t > last_seen e then e\<lparr>last_seen := t\<rparr> else e)
      in if first_seen e1 = 0 \<or> first_seen e1 > last_seen e1
         then e1\<lparr>first_seen := last_seen e1\<rparr> else e1)"

definition updateSeen :: "iface_env \<Rightarrow> 'm hash_entry_scheme \<Rightarrow> 'm hash_entry_scheme" where
  "updateSeen ifc e = updateSeen_at (getTimeLastPktRcvd ifc) e"

text \<open>
  The interface pointer of \<open>set_state\<close> is taken as non-null: the table that holds the
  entry follows the same pointer.
\<close>

definition state_jump_allowed ::
  "iface_env \<Rightarrow> hash_entry_state \<Rightarrow> hash_entry_state \<Rightarrow> bool" where
  "state_jump_allowed ifc cur s \<longleftrightarrow>
     state_val s = state_val cur + 1
     \<or> cur = hash_entry_state_allocated \<and> s = hash_entry_state_flow_protocoldetected
     \<or> \<not> isPacketInterface ifc \<and> skipDPIforCollectedFlows ifc
       \<and> cur = hash_entry_state_allocated \<and> s = hash_entry_state_active"

definition set_state ::
  "iface_env \<Rightarrow> hash_entry_state \<Rightarrow> 'm hash_entry_scheme \<Rightarrow> 'm hash_entry_scheme" where
  "set_state ifc s e =
     (if (s < hash_entry_state e \<or> \<not> state_jump_allowed ifc (hash_entry_state e) s)
         \<and> isRunning ifc
      then e else e\<lparr>hash_entry_state := s\<rparr>)"

definition set_hash_entry_state_idle ::
  "iface_env \<Rightarrow> 'm hash_entry_scheme \<Rightarrow> 'm hash_entry_scheme" where
  "set_hash_entry_state_idle ifc e = set_state ifc hash_entry_state_idle e"

definition set_hash_entry_state_active ::
  "iface_env \<Rightarrow> 'm hash_entry_scheme \<Rightarrow> 'm hash_entry_scheme" where
  "set_hash_entry_state_active ifc e = set_state ifc hash_entry_state_active e"

definition set_hash_entry_state_flow_notyetdetected ::
  "iface_env \<Rightarrow> 'm hash_entry_scheme \<Rightarrow> 'm hash_entry_scheme" where
  "set_hash_entry_state_flow_notyetdetected ifc e =
     set_state ifc hash_entry_state_flow_notyetdetected e"

definition set_hash_entry_state_flow_protocoldetected ::
  "iface_env \<Rightarrow> 'm hash_entry_scheme \<Rightarrow> 'm hash_entry_scheme" where
  "set_hash_entry_state_flow_protocoldetected ifc e =
     set_state ifc hash_entry_state_flow_protocoldetected e"

definition set_hash_entry_state_allocated ::
  "'m hash_entry_scheme \<Rightarrow> 'm hash_entry_scheme" where
  "set_hash_entry_state_allocated e = e\<lparr>hash_entry_state := hash_entry_state_allocated\<rparr>"

definition idle :: "'m hash_entry_scheme \<Rightarrow> bool" where
  "idle e \<longleftrightarrow> hash_entry_state e > hash_entry_state_active"

definition incUses :: "'m hash_entry_scheme \<Rightarrow> 'm hash_entry_scheme" where
  "incUses e = e\<lparr>num_uses := num_uses e + 1\<rparr>"

definition decUses :: "'m hash_entry_scheme \<Rightarrow> 'm hash_entry_scheme" where
  "decUses e = e\<lparr>num_uses := num_uses e - 1\<rparr>"

definition getUses :: "'m hash_entry_scheme \<Rightarrow> int" where
  "getUses e = sint (num_uses e)"

definition get_duration :: "'m hash_entry_scheme \<Rightarrow> u32" where
  "get_duration e = word_of_int (1 + last_seen e - first_seen e)"

text \<open>
  The current time is cut to 32 bits by the cast to \<open>u_int\<close>; the sum on the right is a
  \<open>time_t\<close> and is not.
\<close>

definition is_active_entry_now_idle ::
  "iface_env \<Rightarrow> u32 \<Rightarrow> 'm hash_entry_scheme \<Rightarrow> bool" where
  "is_active_entry_now_idle ifc max_idleness e \<longleftrightarrow>
     getTimeLastPktRcvd ifc mod 2 ^ 32 > last_seen e + uint max_idleness"

definition MAX_HASH_ENTRY_IDLE :: u32 where "MAX_HASH_ENTRY_IDLE = 60"

definition GenericHashEntry_idle_ready :: "iface_env \<Rightarrow> 'm hash_entry_scheme \<Rightarrow> bool" where
  "GenericHashEntry_idle_ready ifc e \<longleftrightarrow>
     getUses e = 0 \<and> is_active_entry_now_idle ifc MAX_HASH_ENTRY_IDLE e"

section \<open>The idle tests of the subclasses\<close>

text \<open>
  Host: \<open>num_engaged\<close> is getNumEngagedAlerts(), \<open>host_local\<close> is isLocalHost(). The three
  idle times are preferences.
\<close>

record idle_prefs =
  local_host_max_idle :: u32
  non_local_host_max_idle :: u32
  mac_address_cache_duration :: u32
  flow_max_idle :: u32

record host_entry = hash_entry +
  num_engaged :: u32
  host_local :: bool

definition get_host_max_idle :: "idle_prefs \<Rightarrow> bool \<Rightarrow> u32" where
  "get_host_max_idle pr localHost =
     (if localHost then local_host_max_idle pr else non_local_host_max_idle pr)"

definition get_alerted_host_max_idle :: "idle_prefs \<Rightarrow> u32" where
  "get_alerted_host_max_idle pr = local_host_max_idle pr"

definition Host_idle_ready ::
  "idle_prefs \<Rightarrow> iface_env \<Rightarrow> 'm host_entry_scheme \<Rightarrow> bool" where
  "Host_idle_ready pr ifc e \<longleftrightarrow>
     (let max_idle = (if num_engaged e > 0 then get_alerted_host_max_idle pr
                      else get_host_max_idle pr (host_local e))
      in getUses e = 0 \<and> is_active_entry_now_idle ifc max_idle e)"

definition Mac_idle_ready ::
  "idle_prefs \<Rightarrow> iface_env \<Rightarrow> 'm hash_entry_scheme \<Rightarrow> bool" where
  "Mac_idle_ready pr ifc e \<longleftrightarrow>
     getUses e = 0 \<and> is_active_entry_now_idle ifc (mac_address_cache_duration pr) e"

record obs_point_entry = hash_entry +
  remove_entry :: bool

definition ObservationPoint_idle_ready :: "'m obs_point_entry_scheme \<Rightarrow> bool" where
  "ObservationPoint_idle_ready e \<longleftrightarrow> (if \<not> remove_entry e then False else True)"

text \<open>AutonomousSystem, Country, VLAN and ObservationPoint override the transition by nothing.\<close>

definition nop_set_hash_entry_state_idle ::
  "iface_env \<Rightarrow> 'm hash_entry_scheme \<Rightarrow> 'm hash_entry_scheme" where
  "nop_set_hash_entry_state_idle ifc e = e"

text \<open>
  Flow: \<open>is_tcp\<close> is \<open>tcp != NULL\<close>; \<open>collected\<close> says that the interface type is ZMQ or syslog.
\<close>

record flow_entry = hash_entry +
  hash_entry_id :: u32
  creation_time :: int
  is_tcp :: bool
  src2dst_tcp_flags :: u8
  dst2src_tcp_flags :: u8

definition isThreeWayHandshakeOK :: "'m flow_entry_scheme \<Rightarrow> bool" where
  "isThreeWayHandshakeOK e \<longleftrightarrow>
     (let m = TH_SYN OR TH_ACK
      in if src2dst_tcp_flags e AND m = m \<and> dst2src_tcp_flags e AND m = m then True else False)"

definition Flow_set_hash_entry_id ::
  "u32 \<Rightarrow> 'm flow_entry_scheme \<Rightarrow> 'm flow_entry_scheme" where
  "Flow_set_hash_entry_id i e = e\<lparr>hash_entry_id := i\<rparr>"

definition Flow_is_active_entry_now_idle ::
  "iface_env \<Rightarrow> u32 \<Rightarrow> 'm flow_entry_scheme \<Rightarrow> bool" where
  "Flow_is_active_entry_now_idle ifc max_idleness e \<longleftrightarrow>
     (let is_expired = (getTimeLastPktRcvd ifc mod 2 ^ 32 > creation_time e + uint max_idleness)
      in if \<not> is_expired then False else is_active_entry_now_idle ifc max_idleness e)"

definition Flow_idle_ready ::
  "idle_prefs \<Rightarrow> bool \<Rightarrow> iface_env \<Rightarrow> 'm flow_entry_scheme \<Rightarrow> bool" where
  "Flow_idle_ready pr collected ifc e \<longleftrightarrow>
     (if collected then Flow_is_active_entry_now_idle ifc (flow_max_idle pr) e
      else
        let ret =
          (if is_tcp e then
             let tcp_flags = src2dst_tcp_flags e OR dst2src_tcp_flags e
             in if (tcp_flags AND TH_FIN \<noteq> 0 \<or> tcp_flags AND TH_RST \<noteq> 0
                    \<or> (isPacketInterface ifc \<or> tcp_flags \<noteq> 0) \<and> \<not> isThreeWayHandshakeOK e)
                   \<and> Flow_is_active_entry_now_idle ifc (flow_max_idle pr) e
                then True else False
           else False)
        in if \<not> ret then Flow_is_active_entry_now_idle ifc (flow_max_idle pr) e else ret)"

section \<open>The methods GenericHash calls\<close>

record 'e entry_methods =
  m_key :: "'e \<Rightarrow> u32"
  m_set_id :: "u32 \<Rightarrow> 'e \<Rightarrow> 'e"
  m_stats_update :: "'e \<Rightarrow> 'e"
  m_housekeep :: "int \<Rightarrow> 'e \<Rightarrow> 'e"
  m_idle_ready :: "iface_env \<Rightarrow> 'e \<Rightarrow> bool"
  m_set_idle :: "iface_env \<Rightarrow> 'e \<Rightarrow> 'e"

text \<open>The base class: \<open>key\<close> is 0, \<open>housekeep\<close> and \<open>set_hash_entry_id\<close> do nothing.\<close>

definition GenericHashEntry_methods :: "('m hash_entry_scheme) entry_methods" where
  "GenericHashEntry_methods =
     \<lparr> m_key = (\<lambda>e. 0), m_set_id = (\<lambda>i e. e), m_stats_update = (\<lambda>e. e),
       m_housekeep = (\<lambda>t e. e), m_idle_ready = GenericHashEntry_idle_ready,
       m_set_idle = set_hash_entry_state_idle \<rparr>"

text \<open>
  What the table relies on: no method changes the identity or the key of an entry, and
  none takes an entry out of the idle state.
\<close>

locale hash_entry_class =
  fixes m :: "('m hash_entry_scheme) entry_methods"
  assumes ptr_stable:
      "ptr (m_set_id m i e) = ptr e" "ptr (m_stats_update m e) = ptr e"
      "ptr (m_housekeep m t e) = ptr e" "ptr (m_set_idle m ifc e) = ptr e"
    and key_stable:
      "m_key m (m_set_id m i e) = m_key m e" "m_key m (m_stats_update m e) = m_key m e"
      "m_key m (m_housekeep m t e) = m_key m e" "m_key m (m_set_idle m ifc e) = m_key m e"
      "m_key m (e\<lparr>hash_entry_state := s\<rparr>) = m_key m e"
    and idle_stable:
      "idle e \<Longrightarrow> idle (m_set_id m i e)" "idle e \<Longrightarrow> idle (m_stats_update m e)"
      "idle e \<Longrightarrow> idle (m_housekeep m t e)"
    and state_stable: "hash_entry_state (m_set_id m i e) = hash_entry_state e"
begin

lemma set_state_stable:
  "ptr (set_state ifc s e) = ptr e" "m_key m (set_state ifc s e) = m_key m e"
  by (simp_all add: set_state_def key_stable)

lemmas stable = ptr_stable key_stable set_state_stable

end

interpretation base_class: hash_entry_class GenericHashEntry_methods
  by unfold_locales
     (simp_all add: GenericHashEntry_methods_def set_hash_entry_state_idle_def set_state_def)

section \<open>Properties\<close>

lemma set_state_running:
  assumes "isRunning ifc" and "hash_entry_state (set_state ifc s e) \<noteq> hash_entry_state e"
  shows "hash_entry_state (set_state ifc s e) = s"
    and "hash_entry_state e < s"
    and "state_jump_allowed ifc (hash_entry_state e) s"
  using assms by (auto simp: set_state_def split: if_splits)

lemma set_state_step_le:
  assumes "isRunning ifc"
  shows "hash_entry_state d \<le> hash_entry_state (set_state ifc s d)"
  using assms by (auto simp: set_state_def)

lemma set_state_history_le:
  assumes "isRunning ifc"
  shows "hash_entry_state d \<le> hash_entry_state (fold (set_state ifc) ss d)"
  by (induction ss arbitrary: d)
     (auto intro: order_trans [OF set_state_step_le [OF assms]])

lemma idle_state_iff: "idle e \<longleftrightarrow> hash_entry_state e = hash_entry_state_idle"
  by (cases "hash_entry_state e") (simp_all add: idle_def state_order)

text \<open>
  While the interface runs, the checked transitions only advance an entry: after any
  sequence of set_state calls the state is not smaller than before, and an entry that is
  idle stays idle for good.
\<close>
theorem set_state_history_monotone:
  assumes "isRunning ifc"
  shows "hash_entry_state e \<le> hash_entry_state (fold (set_state ifc) ss e)
    \<and> (idle e \<longrightarrow> idle (fold (set_state ifc) ss e))"
  using set_state_history_le [OF assms, of e ss]
  by (auto simp: idle_def)

theorem set_state_history_monotone_witness:
  "let ifc = \<lparr> get_id = 1, isPacketInterface = True, isRunning = True,
               is_purge_idle_interface = True, getTimeLastPktRcvd = 1000,
               skipDPIforCollectedFlows = False, disablePurge = False \<rparr>;
       e = \<lparr> ptr = 1, hash_entry_state = hash_entry_state_active, num_uses = 0,
             first_seen = 10, last_seen = 20 \<rparr>;
       ss = [hash_entry_state_idle, hash_entry_state_active]
   in hash_entry_state_active \<le> hash_entry_state (fold (set_state ifc) ss e)"
  using set_state_history_monotone
    [of "\<lparr> get_id = 1, isPacketInterface = True, isRunning = True,
           is_purge_idle_interface = True, getTimeLastPktRcvd = 1000,
           skipDPIforCollectedFlows = False, disablePurge = False \<rparr>"
        "\<lparr> ptr = 1, hash_entry_state = hash_entry_state_active, num_uses = 0,
           first_seen = 10, last_seen = 20 \<rparr>"
        "[hash_entry_state_idle, hash_entry_state_active]"]
  by (simp add: Let_def)

text \<open>
  A flow may become idle exactly when both its creation and its last packet are more
  than the interface's maximum flow idleness ago: the branch for TCP flows with a FIN, a
  RST or an incomplete handshake tests the same idleness as the general case, so the
  shorter time its comment names is never applied.
\<close>
theorem Flow_idle_ready_same_timeout:
  "Flow_idle_ready pr collected ifc e \<longleftrightarrow>
     creation_time e + uint (flow_max_idle pr) < getTimeLastPktRcvd ifc mod 2 ^ 32
     \<and> last_seen e + uint (flow_max_idle pr) < getTimeLastPktRcvd ifc mod 2 ^ 32"
  by (simp add: Flow_idle_ready_def Flow_is_active_entry_now_idle_def
      is_active_entry_now_idle_def Let_def)

text \<open>
  Updating the time of an entry with any sequence of timestamps, in any order, never
  moves the last-seen time back, leaves the first-seen time not after it and makes the
  last-seen time the latest of all timestamps observed.
\<close>
theorem updateSeen_history:
  assumes "ts \<noteq> []"
  shows "last_seen (fold updateSeen_at ts e) = Max (set (last_seen e # ts))
    \<and> first_seen (fold updateSeen_at ts e) \<le> last_seen (fold updateSeen_at ts e)"
proof -
  have last: "last_seen (fold updateSeen_at us d) = fold max us (last_seen d)"
    for us and d :: "'a hash_entry_scheme"
    by (induction us arbitrary: d) (simp_all add: updateSeen_at_def Let_def max_def)
  have step: "first_seen (updateSeen_at t d) \<le> last_seen (updateSeen_at t d)"
    for t and d :: "'a hash_entry_scheme"
    by (simp add: updateSeen_at_def Let_def)
  from assms obtain us t where ts: "ts = us @ [t]"
    by (metis rev_exhaust)
  have "last_seen (fold updateSeen_at ts e) = Max (set (last_seen e # ts))"
    using last [of ts e] Max.set_eq_fold [of "last_seen e" ts]
    by (simp add: max.commute)
  moreover have "first_seen (fold updateSeen_at ts e) \<le> last_seen (fold updateSeen_at ts e)"
    by (simp add: ts step)
  ultimately show ?thesis
    by simp
qed

theorem updateSeen_history_witness:
  "last_seen (fold updateSeen_at [5, 30, 7]
     \<lparr> ptr = 1, hash_entry_state = hash_entry_state_active, num_uses = 0,
       first_seen = 10, last_seen = 20 \<rparr>) = Max {20, 5, 30, 7}"
  using updateSeen_history [of "[5, 30, 7]"
     "\<lparr> ptr = 1, hash_entry_state = hash_entry_state_active, num_uses = 0,
        first_seen = 10, last_seen = 20 \<rparr>"]
  by simp

end
