(* ===== verification/Generic_Hash.thy ===== *)
theory Generic_Hash
  imports Hash_Entry "HOL-Library.Multiset"
begin

text \<open>
  The hash table behind every table of the traffic model: src/include/GenericHash.h and
  src/src/GenericHash.cpp. A bucket is the list of its chain, head first. The three
  vectors of detached entries are lists; the two that may be NULL are options. Each
  operation runs under the lock of the bucket it changes and is one step; the result of
  \<open>trywrlock\<close> in purgeIdle is the parameter \<open>busy\<close>. The allocation failures of
  \<open>new\<close> are not modelled.
\<close>

section \<open>State\<close>

record 'e generic_hash =
  table :: "'e list list"
  num_hashes :: u32
  current_size :: u32
  max_hash_size :: u32
  upper_num_visited_entries :: u32
  hash_mask :: u32
  last_purged_hash :: u32
  last_entry_id :: u32
  purge_step :: u32
  num_idle_transitions :: u64
  num_purged :: u64
  idle_entries :: "'e list option"
  idle_entries_shadow :: "'e list option"
  idle_entries_in_use :: "'e list"

definition PURGE_FRACTION :: u32 where "PURGE_FRACTION = 60"
definition MIN_NUM_VISITED_ENTRIES :: u32 where "MIN_NUM_VISITED_ENTRIES = 1024"
definition MIN_NUM_IDLE_ENTRIES_IF :: u32 where "MIN_NUM_IDLE_ENTRIES_IF = 5000"
definition MIN_NUM_HASH_WALK_ELEMS :: u16 where "MIN_NUM_HASH_WALK_ELEMS = 512"

text \<open>The product with 1.3 is cut to the integer below.\<close>

definition GenericHash_new :: "iface_env \<Rightarrow> u32 \<Rightarrow> u32 \<Rightarrow> 'e generic_hash" where
  "GenericHash_new ifc n mx =
     (let mhs = word_of_nat (unat mx * 13 div 10)
      in \<lparr> table = replicate (unat n) [], num_hashes = n, current_size = 0,
           max_hash_size = mhs, upper_num_visited_entries = min 200000 (mhs div 10),
           hash_mask = push_bit 24 (get_id ifc AND 0xFF), last_purged_hash = n - 1,
           last_entry_id = 0, purge_step = max (n div PURGE_FRACTION) 1,
           num_idle_transitions = 0, num_purged = 0,
           idle_entries = None, idle_entries_shadow = None, idle_entries_in_use = [] \<rparr>)"

definition getNumEntries :: "'e generic_hash \<Rightarrow> u32" where
  "getNumEntries h = current_size h"

text \<open>The difference is unsigned, so the maximum with 0 changes nothing; the result is cut to 32 bits.\<close>

definition getNumIdleEntries :: "'e generic_hash \<Rightarrow> u32" where
  "getNumIdleEntries h = ucast (max 0 (num_idle_transitions h - num_purged h))"

definition hasEmptyRoom :: "'e generic_hash \<Rightarrow> bool" where
  "hasEmptyRoom h \<longleftrightarrow>
     (if getNumIdleEntries h > MIN_NUM_IDLE_ENTRIES_IF \<and> getNumIdleEntries h > getNumEntries h
      then False
      else getNumEntries h + getNumIdleEntries h \<le> max_hash_size h)"

section \<open>Operations\<close>

definition GenericHash_cleanup :: "'e generic_hash \<Rightarrow> 'e generic_hash" where
  "GenericHash_cleanup h =
     h\<lparr>idle_entries := None, idle_entries_shadow := None, idle_entries_in_use := [],
       table := replicate (unat (num_hashes h)) [], current_size := 0\<rparr>"

definition GenericHash_add ::
  "'e entry_methods \<Rightarrow> 'e \<Rightarrow> 'e generic_hash \<Rightarrow> bool \<times> 'e generic_hash" where
  "GenericHash_add m e h =
     (if hasEmptyRoom h then
        let hash = unat (m_key m e mod num_hashes h);
            this_entry_id = hash_mask h OR last_entry_id h;
            nid = last_entry_id h + 1
        in (True, h\<lparr>table := (table h)[hash := m_set_id m this_entry_id e # table h ! hash],
                    current_size := current_size h + 1,
                    last_entry_id := (if nid = 0x00FFFFFF then 0 else nid)\<rparr>)
      else (False, h))"

text \<open>
  purgeQueuedIdleEntries takes the idle vector, deletes its entries that nobody uses,
  moves the others to the vector of entries in use, and then deletes from that vector
  every entry whose use has ended. The result is the number of deleted entries; the
  deleted entries themselves are returned for the statements.
\<close>

definition unused :: "'m hash_entry_scheme \<Rightarrow> bool" where
  "unused e \<longleftrightarrow> getUses e = 0"

definition purgeQueuedIdleEntries ::
  "('m hash_entry_scheme) generic_hash \<Rightarrow>
     u64 \<times> 'm hash_entry_scheme list \<times> ('m hash_entry_scheme) generic_hash" where
  "purgeQueuedIdleEntries h =
     (let cur_idle = (case idle_entries h of None \<Rightarrow> [] | Some q \<Rightarrow> q);
          deleted1 = filter unused cur_idle;
          in_use1 = idle_entries_in_use h @ filter (\<lambda>e. \<not> unused e) cur_idle;
          deleted2 = filter unused in_use1;
          np = num_purged h + of_nat (length deleted1) + of_nat (length deleted2)
      in (np - num_purged h, deleted1 @ deleted2,
          h\<lparr>idle_entries := None,
            idle_entries_in_use := filter (\<lambda>e. \<not> unused e) in_use1,
            num_purged := np\<rparr>))"

text \<open>
  One chain of purgeIdle: the entries that stay, and those that are detached in the order
  they are pushed onto the shadow vector.
\<close>

definition purge_entry ::
  "iface_env \<Rightarrow> ('m hash_entry_scheme) entry_methods \<Rightarrow> int \<Rightarrow> bool \<Rightarrow>
     'm hash_entry_scheme \<Rightarrow> bool \<times> 'm hash_entry_scheme" where
  "purge_entry ifc m now force_idle e =
     (let head_state = hash_entry_state e; e1 = m_stats_update m e
      in case head_state of
           hash_entry_state_idle \<Rightarrow> (False, e1)
         | hash_entry_state_active \<Rightarrow>
             if force_idle \<or> is_purge_idle_interface ifc \<and> m_idle_ready m ifc e1
             then (True, e1)
             else (False, m_housekeep m now e1)
         | _ \<Rightarrow>
             let e2 = m_housekeep m now e1;
                 e3 = (if hash_entry_state e2 = hash_entry_state_flow_protocoldetected
                       then set_hash_entry_state_active ifc e2 else e2)
             in (force_idle, e3))"

fun purge_chain ::
  "iface_env \<Rightarrow> ('m hash_entry_scheme) entry_methods \<Rightarrow> int \<Rightarrow> bool \<Rightarrow>
     'm hash_entry_scheme list \<Rightarrow> 'm hash_entry_scheme list \<times> 'm hash_entry_scheme list" where
  "purge_chain ifc m now force_idle [] = ([], [])"
| "purge_chain ifc m now force_idle (head # next) =
     (let (det, e) = purge_entry ifc m now force_idle head;
          (kept, detached) = purge_chain ifc m now force_idle next
      in if det then (kept, e # detached) else (e # kept, detached))"

record 'e purge_state =
  ps_table :: "'e list list"
  ps_last :: u32
  ps_checked :: u32
  ps_detached :: "'e list"

text \<open>One iteration of the loop over the buckets, after its test to stop.\<close>

definition purge_bucket ::
  "iface_env \<Rightarrow> ('m hash_entry_scheme) entry_methods \<Rightarrow> int \<Rightarrow> bool \<Rightarrow> (nat \<Rightarrow> bool) \<Rightarrow> u32 \<Rightarrow>
     ('m hash_entry_scheme) purge_state \<Rightarrow> ('m hash_entry_scheme) purge_state" where
  "purge_bucket ifc m now force_idle busy n s =
     (let lst = (if ps_last s + 1 = n then 0 else ps_last s + 1);
          i = unat lst; s1 = s\<lparr>ps_last := lst\<rparr>
      in if ps_table s ! i = [] \<or> busy i then s1
         else
           let (kept, detached) = purge_chain ifc m now force_idle (ps_table s ! i)
           in s1\<lparr>ps_table := (ps_table s)[i := kept],
                 ps_checked := ps_checked s + of_nat (length (ps_table s ! i)),
                 ps_detached := ps_detached s @ detached\<rparr>)"

text \<open>The loop: \<open>rem\<close> iterations are left, \<open>j\<close> is the loop counter.\<close>

primrec purge_loop ::
  "iface_env \<Rightarrow> ('m hash_entry_scheme) entry_methods \<Rightarrow> int \<Rightarrow> bool \<Rightarrow> bool \<Rightarrow>
     (nat \<Rightarrow> bool) \<Rightarrow> u32 \<Rightarrow> u32 \<Rightarrow> u32 \<Rightarrow> nat \<Rightarrow> nat \<Rightarrow>
     ('m hash_entry_scheme) purge_state \<Rightarrow> ('m hash_entry_scheme) purge_state" where
  "purge_loop ifc m now force_idle full_scan busy visit upper n 0 j s = s"
| "purge_loop ifc m now force_idle full_scan busy visit upper n (Suc rem) j s =
     (if \<not> full_scan \<and> (ps_checked s > upper
           \<or> j > unat visit \<and> ps_checked s > MIN_NUM_VISITED_ENTRIES)
      then s
      else purge_loop ifc m now force_idle full_scan busy visit upper n rem (Suc j)
             (purge_bucket ifc m now force_idle busy n s))"

text \<open>
  purgeIdle: swap the vectors when the purger took the last one, detach from the buckets,
  then set the newly detached entries idle and housekeep them once more. A missing
  shadow vector is the null pointer the code would follow.
\<close>

definition purge_swap :: "'e generic_hash \<Rightarrow> 'e generic_hash" where
  "purge_swap h =
     (if idle_entries h = None
      then h\<lparr>idle_entries := idle_entries_shadow h, idle_entries_shadow := Some []\<rparr>
      else h)"

definition idle_one ::
  "iface_env \<Rightarrow> ('m hash_entry_scheme) entry_methods \<Rightarrow> int \<Rightarrow>
     'm hash_entry_scheme \<Rightarrow> 'm hash_entry_scheme" where
  "idle_one ifc m now e = m_housekeep m now (m_set_idle m ifc e)"

definition purgeIdle ::
  "iface_env \<Rightarrow> ('m hash_entry_scheme) entry_methods \<Rightarrow> int \<Rightarrow> bool \<Rightarrow> bool \<Rightarrow>
     (nat \<Rightarrow> bool) \<Rightarrow> ('m hash_entry_scheme) generic_hash \<Rightarrow>
     c_error + (u32 \<times> ('m hash_entry_scheme) generic_hash)" where
  "purgeIdle ifc m now force_idle full_scan busy h =
     (if disablePurge ifc then Inr (0, h)
      else
        let visit_fraction = (if \<not> force_idle \<and> \<not> full_scan then purge_step h else num_hashes h);
            h1 = purge_swap h
        in case idle_entries_shadow h1 of
             None \<Rightarrow> Inl Null_deref
           | Some shadow \<Rightarrow>
               let s = purge_loop ifc m now force_idle full_scan busy visit_fraction
                         (upper_num_visited_entries h) (num_hashes h) (unat (num_hashes h)) 0
                         \<lparr> ps_table = table h1, ps_last = last_purged_hash h1,
                           ps_checked = 0, ps_detached = [] \<rparr>;
                   d = ps_detached s
               in Inr (of_nat (length d),
                       h1\<lparr>table := ps_table s, last_purged_hash := ps_last s,
                          current_size := current_size h1 - of_nat (length d),
                          idle_entries_shadow := Some (shadow @ map (idle_one ifc m now) d),
                          num_idle_transitions :=
                            num_idle_transitions h1 + of_nat (length d)\<rparr>))"

text \<open>
  walk: from a slot on, the walker visits the entries that are not idle until it returns
  true; a walk that is not of the whole table stops after the bucket in which the number
  of matches reached the minimum. The walker threads its user data and returns whether
  to stop and whether the entry matched.
\<close>

fun walk_chain ::
  "('m hash_entry_scheme \<Rightarrow> 'd \<Rightarrow> bool \<times> bool \<times> 'd) \<Rightarrow> 'm hash_entry_scheme list \<Rightarrow>
     u16 \<Rightarrow> 'd \<Rightarrow> bool \<times> u16 \<times> 'd" where
  "walk_chain walker [] tot d = (False, tot, d)"
| "walk_chain walker (head # next) tot d =
     (if \<not> idle head then
        let (rc, matched, d1) = walker head d;
            tot1 = (if matched then tot + 1 else tot)
        in if rc then (True, tot1, d1) else walk_chain walker next tot1 d1
      else walk_chain walker next tot d)"

fun walk_loop ::
  "('m hash_entry_scheme \<Rightarrow> 'd \<Rightarrow> bool \<times> bool \<times> 'd) \<Rightarrow> bool \<Rightarrow> nat \<Rightarrow> nat \<Rightarrow>
     'm hash_entry_scheme list list \<Rightarrow> nat \<Rightarrow> u16 \<Rightarrow> 'd \<Rightarrow> bool \<times> nat \<times> 'd" where
  "walk_loop walker walk_all n begin_slot [] hash_id tot d = (False, 0, d)"
| "walk_loop walker walk_all n begin_slot (bucket # rest) hash_id tot d =
     (if bucket \<noteq> [] then
        let (found, tot1, d1) = walk_chain walker bucket tot d
        in if tot1 \<ge> MIN_NUM_HASH_WALK_ELEMS \<and> \<not> walk_all
           then (found, if hash_id = n - 1 then 0 else hash_id + 1, d1)
           else if found then (True, begin_slot, d1)
           else walk_loop walker walk_all n begin_slot rest (hash_id + 1) tot1 d1
      else walk_loop walker walk_all n begin_slot rest (hash_id + 1) tot d)"

definition GenericHash_walk ::
  "('m hash_entry_scheme \<Rightarrow> 'd \<Rightarrow> bool \<times> bool \<times> 'd) \<Rightarrow> bool \<Rightarrow> nat \<Rightarrow> 'd \<Rightarrow>
     ('m hash_entry_scheme) generic_hash \<Rightarrow> bool \<times> nat \<times> 'd" where
  "GenericHash_walk walker walk_all begin_slot d h =
     walk_loop walker walk_all (unat (num_hashes h)) begin_slot
       (drop begin_slot (table h)) begin_slot 0 d"

text \<open>The search that the tables of hosts, flows, MACs and so on do in one bucket.\<close>

fun find_chain :: "('m hash_entry_scheme \<Rightarrow> bool) \<Rightarrow> 'm hash_entry_scheme list \<Rightarrow>
    'm hash_entry_scheme option" where
  "find_chain p [] = None"
| "find_chain p (head # next) = (if \<not> idle head \<and> p head then Some head else find_chain p next)"

definition hash_lookup :: "u32 \<Rightarrow> ('m hash_entry_scheme \<Rightarrow> bool) \<Rightarrow>
    ('m hash_entry_scheme) generic_hash \<Rightarrow> 'm hash_entry_scheme option" where
  "hash_lookup k p h =
     (let hash = unat (k mod num_hashes h)
      in if table h ! hash = [] then None else find_chain p (table h ! hash))"

section \<open>Invariant\<close>

definition queued :: "'e generic_hash \<Rightarrow> 'e list" where
  "queued h = (case idle_entries h of None \<Rightarrow> [] | Some q \<Rightarrow> q)
     @ (case idle_entries_shadow h of None \<Rightarrow> [] | Some q \<Rightarrow> q) @ idle_entries_in_use h"

definition entry_sig :: "'m hash_entry_scheme entry_methods \<Rightarrow> 'm hash_entry_scheme \<Rightarrow> nat \<times> u32" where
  "entry_sig m e = (ptr e, m_key m e)"

definition placed ::
  "('m hash_entry_scheme) entry_methods \<Rightarrow> u32 \<Rightarrow> 'm hash_entry_scheme list list \<Rightarrow> bool" where
  "placed m n t \<longleftrightarrow> (\<forall>i<length t. \<forall>e\<in>set (t ! i). unat (m_key m e mod n) = i)"

definition GenericHash_inv ::
  "('m hash_entry_scheme) entry_methods \<Rightarrow> ('m hash_entry_scheme) generic_hash \<Rightarrow> bool" where
  "GenericHash_inv m h \<longleftrightarrow>
     0 < num_hashes h \<and> length (table h) = unat (num_hashes h)
     \<and> placed m (num_hashes h) (table h)
     \<and> unat (current_size h) = length (concat (table h))
     \<and> distinct (map ptr (concat (table h) @ queued h))
     \<and> num_idle_transitions h = num_purged h + of_nat (length (queued h))
     \<and> length (concat (table h)) + length (queued h) \<le> unat (max_hash_size h) + 1
     \<and> unat (max_hash_size h) < 2 ^ 32 - 1
     \<and> last_entry_id h < 0x00FFFFFF \<and> last_purged_hash h < num_hashes h
     \<and> (idle_entries h \<noteq> None \<longrightarrow> idle_entries_shadow h \<noteq> None)"

section \<open>Detaching from the buckets\<close>

lemma mset_concat_update:
  assumes "i < length t"
  shows "mset (concat (t[i := k])) + mset (t ! i) = mset (concat t) + mset k"
proof -
  have "mset (concat t) = mset (concat (take i t @ t ! i # drop (Suc i) t))"
    using assms by (simp add: id_take_nth_drop [symmetric])
  then show ?thesis
    using assms by (simp add: upd_conv_take_nth_drop)
qed

lemma image_mset_concat_update:
  assumes "i < length t"
    and "image_mset f (mset k) + image_mset f (mset d) = image_mset f (mset (t ! i))"
  shows "image_mset f (mset (concat (t[i := k]))) + image_mset f (mset d)
    = image_mset f (mset (concat t))"
proof -
  have "image_mset f (mset (concat (t[i := k])) + mset (t ! i))
      = image_mset f (mset (concat t) + mset k)"
    by (simp only: mset_concat_update [OF assms(1)])
  then have "image_mset f (mset (concat (t[i := k]))) + image_mset f (mset (t ! i))
      = image_mset f (mset (concat t)) + image_mset f (mset k)"
    by simp
  then show ?thesis
    by (simp add: assms(2) [symmetric] ac_simps)
qed

lemma word_succ_wrap:
  fixes n :: u32
  assumes "x < n"
  shows "(if x + 1 = n then 0 else x + 1) < n"
    and "unat (if x + 1 = n then 0 else x + 1) = (unat x + 1) mod unat n"
proof -
  have bound: "unat x + 1 \<le> unat n" "unat n < 2 ^ 32"
    using assms unsigned_less [of n] by (simp_all add: word_less_nat_alt)
  then have suc: "unat (x + 1) = unat x + 1"
    by (simp add: unat_word_ariths)
  have eq: "x + 1 = n \<longleftrightarrow> unat x + 1 = unat n"
    using suc by (simp add: unat_eq_iff_eq [symmetric])
  show "(if x + 1 = n then 0 else x + 1) < n"
    using bound suc by (auto simp: eq word_less_nat_alt)
  show "unat (if x + 1 = n then 0 else x + 1) = (unat x + 1) mod unat n"
    using bound suc by (auto simp: eq)
qed

lemma word_nat_cast_id: "word_of_nat (unat w) = w"
  by simp

context hash_entry_class
begin

lemma entry_sig_simps:
  "entry_sig m (m_set_id m i e) = entry_sig m e"
  "entry_sig m (m_stats_update m e) = entry_sig m e"
  "entry_sig m (m_housekeep m t e) = entry_sig m e"
  "entry_sig m (m_set_idle m ifc e) = entry_sig m e"
  "entry_sig m (set_state ifc s e) = entry_sig m e"
  by (simp_all add: entry_sig_def stable)

lemma purge_entry_sig: "entry_sig m (snd (purge_entry ifc m now force e)) = entry_sig m e"
  by (simp add: purge_entry_def Let_def entry_sig_simps set_hash_entry_state_active_def
      split: hash_entry_state.split)

lemma idle_one_sig: "entry_sig m (idle_one ifc m now e) = entry_sig m e"
  by (simp add: idle_one_def entry_sig_simps)

lemma purge_chain_sig:
  "image_mset (entry_sig m) (mset (fst (purge_chain ifc m now force c)))
     + image_mset (entry_sig m) (mset (snd (purge_chain ifc m now force c)))
   = image_mset (entry_sig m) (mset c)"
proof (induction c)
  case (Cons e c)
  then show ?case
    using purge_entry_sig [of ifc now force e]
    by (auto simp: split_beta Let_def)
qed simp

lemma placed_update:
  assumes "placed m n t" and "set (map (entry_sig m) k) \<subseteq> set (map (entry_sig m) (t ! i))"
  shows "placed m n (t[i := k])"
  unfolding placed_def
proof (intro allI impI ballI)
  fix x e assume x: "x < length (t[i := k])" and e: "e \<in> set (t[i := k] ! x)"
  show "unat (m_key m e mod n) = x"
  proof (cases "x = i")
    case True
    with x e have "entry_sig m e \<in> set (map (entry_sig m) (t ! i))"
      using assms(2) by auto
    then obtain e' where "e' \<in> set (t ! i)" "m_key m e' = m_key m e"
      by (auto simp: entry_sig_def)
    with assms(1) x True show ?thesis
      unfolding placed_def by (metis length_list_update)
  next
    case False
    with assms(1) x e show ?thesis by (auto simp: placed_def)
  qed
qed

definition loop_inv :: "u32 \<Rightarrow> (nat \<times> u32) multiset \<Rightarrow> 'm hash_entry_scheme purge_state \<Rightarrow> bool" where
  "loop_inv n sigs s \<longleftrightarrow>
     length (ps_table s) = unat n \<and> ps_last s < n \<and> placed m n (ps_table s)
     \<and> image_mset (entry_sig m) (mset (concat (ps_table s)))
       + image_mset (entry_sig m) (mset (ps_detached s)) = sigs"

lemma purge_bucket_inv:
  assumes "loop_inv n sigs s"
  shows "loop_inv n sigs (purge_bucket ifc m now force busy n s)"
proof -
  define lst where "lst = (if ps_last s + 1 = n then 0 else ps_last s + 1)"
  define i where "i = unat lst"
  define k where "k = fst (purge_chain ifc m now force (ps_table s ! i))"
  define d where "d = snd (purge_chain ifc m now force (ps_table s ! i))"
  have lst: "lst < n"
    using assms word_succ_wrap(1) by (simp add: lst_def loop_inv_def)
  then have i: "i < length (ps_table s)"
    using assms by (simp add: i_def loop_inv_def word_less_nat_alt)
  have sig: "image_mset (entry_sig m) (mset k) + image_mset (entry_sig m) (mset d)
      = image_mset (entry_sig m) (mset (ps_table s ! i))"
    unfolding k_def d_def by (rule purge_chain_sig)
  from arg_cong [OF sig, of set_mset]
  have sub: "set (map (entry_sig m) k) \<subseteq> set (map (entry_sig m) (ps_table s ! i))"
    by auto
  have pl: "placed m n ((ps_table s)[i := k])"
    using assms sub by (intro placed_update) (simp_all add: loop_inv_def)
  have step: "purge_bucket ifc m now force busy n s =
      (if ps_table s ! i = [] \<or> busy i then s\<lparr>ps_last := lst\<rparr>
       else s\<lparr>ps_last := lst, ps_table := (ps_table s)[i := k],
              ps_checked := ps_checked s + of_nat (length (ps_table s ! i)),
              ps_detached := ps_detached s @ d\<rparr>)"
    by (simp only: purge_bucket_def Let_def split_beta lst_def [symmetric]
        i_def [symmetric] k_def [symmetric] d_def [symmetric])
  show ?thesis
    using assms lst pl image_mset_concat_update [OF i sig]
    unfolding step by (auto simp: loop_inv_def ac_simps)
qed

lemma purge_loop_inv:
  "loop_inv n sigs s \<Longrightarrow>
   loop_inv n sigs (purge_loop ifc m now force full busy visit upper n rem j s)"
  by (induction rem arbitrary: j s) (simp_all add: purge_bucket_inv)

lemma sig_distinct:
  assumes "image_mset (entry_sig m) (mset xs) = image_mset (entry_sig m) (mset ys)"
  shows "distinct (map ptr xs) \<longleftrightarrow> distinct (map ptr ys)" and "length xs = length ys"
proof -
  have "image_mset fst (image_mset (entry_sig m) (mset xs))
      = image_mset fst (image_mset (entry_sig m) (mset ys))"
    using assms by simp
  then have "mset (map ptr xs) = mset (map ptr ys)"
    by (simp add: image_mset.compositionality comp_def entry_sig_def)
  then show "distinct (map ptr xs) \<longleftrightarrow> distinct (map ptr ys)" "length xs = length ys"
    by (metis mset_eq_imp_distinct_iff, metis length_map size_mset)
qed

lemma idle_map_sig:
  "image_mset (entry_sig m) (mset (map (idle_one ifc m now) d)) = image_mset (entry_sig m) (mset d)"
  by (simp add: image_mset.compositionality comp_def idle_one_sig)

lemma purge_swap_queued:
  "queued (purge_swap h) = queued h"
  "idle_entries_shadow (purge_swap h) \<noteq> None \<longleftrightarrow> idle_entries h = None \<or> idle_entries_shadow h \<noteq> None"
  by (auto simp: purge_swap_def queued_def split: option.splits)

lemma purge_swap_fields:
  "table (purge_swap h) = table h" "num_hashes (purge_swap h) = num_hashes h"
  "current_size (purge_swap h) = current_size h"
  "max_hash_size (purge_swap h) = max_hash_size h"
  "last_entry_id (purge_swap h) = last_entry_id h"
  "last_purged_hash (purge_swap h) = last_purged_hash h"
  "num_idle_transitions (purge_swap h) = num_idle_transitions h"
  "num_purged (purge_swap h) = num_purged h"
  "idle_entries_in_use (purge_swap h) = idle_entries_in_use h"
  by (simp_all add: purge_swap_def)

text \<open>
  What one call of purgeIdle does, in terms of the entries it detaches: the table and
  the queues hold the same objects with the same keys before and after it.
\<close>

lemma purgeIdle_cases:
  assumes "GenericHash_inv m h" and "\<not> disablePurge ifc"
  obtains d t lst shadow where
    "purgeIdle ifc m now force full busy h =
       Inr (of_nat (length d),
         (purge_swap h)\<lparr>table := t, last_purged_hash := lst,
            current_size := current_size h - of_nat (length d),
            idle_entries_shadow := Some (shadow @ map (idle_one ifc m now) d),
            num_idle_transitions := num_idle_transitions h + of_nat (length d)\<rparr>)"
    "idle_entries_shadow (purge_swap h) = Some shadow"
    "length t = unat (num_hashes h)" "lst < num_hashes h" "placed m (num_hashes h) t"
    "image_mset (entry_sig m) (mset (concat t)) + image_mset (entry_sig m) (mset d)
       = image_mset (entry_sig m) (mset (concat (table h)))"
    "ps_table (purge_loop ifc m now force full busy
       (if \<not> force \<and> \<not> full then purge_step h else num_hashes h)
       (upper_num_visited_entries h) (num_hashes h) (unat (num_hashes h)) 0
       \<lparr> ps_table = table h, ps_last = last_purged_hash h, ps_checked = 0, ps_detached = [] \<rparr>) = t"
proof -
  define s0 where "s0 = \<lparr> ps_table = table h, ps_last = last_purged_hash h,
    ps_checked = 0, ps_detached = [] \<rparr>"
  define s where "s = purge_loop ifc m now force full busy
     (if \<not> force \<and> \<not> full then purge_step h else num_hashes h)
     (upper_num_visited_entries h) (num_hashes h) (unat (num_hashes h)) 0 s0"
  have "idle_entries_shadow (purge_swap h) \<noteq> None"
    using assms(1) by (auto simp: GenericHash_inv_def purge_swap_def)
  then obtain shadow where shadow: "idle_entries_shadow (purge_swap h) = Some shadow"
    by blast
  have "loop_inv (num_hashes h) (image_mset (entry_sig m) (mset (concat (table h)))) s0"
    using assms(1) by (simp add: loop_inv_def s0_def GenericHash_inv_def)
  then have "loop_inv (num_hashes h) (image_mset (entry_sig m) (mset (concat (table h)))) s"
    unfolding s_def by (rule purge_loop_inv)
  moreover have "purgeIdle ifc m now force full busy h =
      Inr (of_nat (length (ps_detached s)),
        (purge_swap h)\<lparr>table := ps_table s, last_purged_hash := ps_last s,
           current_size := current_size h - of_nat (length (ps_detached s)),
           idle_entries_shadow := Some (shadow @ map (idle_one ifc m now) (ps_detached s)),
           num_idle_transitions := num_idle_transitions h + of_nat (length (ps_detached s))\<rparr>)"
    using assms(2) shadow
    by (simp add: purgeIdle_def Let_def s_def s0_def purge_swap_fields)
  ultimately show thesis
    using that [where d = "ps_detached s" and t = "ps_table s" and lst = "ps_last s"
        and shadow = shadow] shadow
    unfolding loop_inv_def s_def [symmetric] s0_def [symmetric] by simp
qed

lemma queued_detach:
  assumes "idle_entries_shadow (purge_swap h) = Some shadow"
  shows "mset (queued ((purge_swap h)\<lparr>table := t, last_purged_hash := lst, current_size := c,
           idle_entries_shadow := Some (shadow @ ds), num_idle_transitions := k\<rparr>))
         = mset (queued h) + mset ds"
proof -
  have "mset (queued h) = mset (queued (purge_swap h))"
    by (simp add: purge_swap_queued)
  then show ?thesis
    using assms by (simp add: queued_def ac_simps split: option.splits)
qed

lemma purgeIdle_inv:
  assumes inv: "GenericHash_inv m h"
  shows "\<exists>r h'. purgeIdle ifc m now force full busy h = Inr (r, h') \<and> GenericHash_inv m h'
    \<and> image_mset (entry_sig m) (mset (concat (table h') @ queued h'))
      = image_mset (entry_sig m) (mset (concat (table h) @ queued h))"
proof (cases "disablePurge ifc")
  case True
  then show ?thesis using inv by (simp add: purgeIdle_def)
next
  case False
  obtain d t lst shadow where eq:
    "purgeIdle ifc m now force full busy h =
       Inr (of_nat (length d),
         (purge_swap h)\<lparr>table := t, last_purged_hash := lst,
            current_size := current_size h - of_nat (length d),
            idle_entries_shadow := Some (shadow @ map (idle_one ifc m now) d),
            num_idle_transitions := num_idle_transitions h + of_nat (length d)\<rparr>)"
    (is "_ = Inr (_, ?h')")
    and sh: "idle_entries_shadow (purge_swap h) = Some shadow"
    and t: "length t = unat (num_hashes h)" "lst < num_hashes h" "placed m (num_hashes h) t"
    and sig: "image_mset (entry_sig m) (mset (concat t)) + image_mset (entry_sig m) (mset d)
       = image_mset (entry_sig m) (mset (concat (table h)))"
    using purgeIdle_cases [OF inv False] by metis
  have q: "mset (queued ?h') = mset (queued h) + mset (map (idle_one ifc m now) d)"
    by (rule queued_detach [OF sh])
  have all: "image_mset (entry_sig m) (mset (concat (table ?h') @ queued ?h'))
      = image_mset (entry_sig m) (mset (concat (table h) @ queued h))"
    using sig by (simp add: q idle_map_sig ac_simps del: mset_map)
  have lenq: "length (queued ?h') = length (queued h) + length d"
    using arg_cong [OF q, of size] by simp
  have lent: "length (concat (table h)) = length (concat t) + length d"
    using arg_cong [OF sig, of size] by simp
  have "unat (current_size h - of_nat (length d)) = length (concat t)"
  proof -
    have "current_size h = of_nat (length (concat t)) + of_nat (length d)"
      using inv lent by (metis GenericHash_inv_def of_nat_add word_nat_cast_id)
    moreover have "length (concat t) < 2 ^ 32"
      using inv lent unsigned_less [of "current_size h"] by (simp add: GenericHash_inv_def)
    ultimately show ?thesis
      by (simp add: unsigned_of_nat take_bit_nat_eq_self)
  qed
  moreover have "distinct (map ptr (concat (table ?h') @ queued ?h'))"
    using inv sig_distinct(1) [OF all] by (simp add: GenericHash_inv_def)
  ultimately have "GenericHash_inv m ?h'"
    using inv t lenq lent unfolding GenericHash_inv_def
    by (simp add: purge_swap_fields)
  then show ?thesis using eq all by blast
qed

lemma getNumIdleEntries_queued:
  assumes "GenericHash_inv m h"
  shows "unat (getNumIdleEntries h) = length (queued h)"
proof -
  have "length (queued h) < 2 ^ 32"
    using assms by (auto simp: GenericHash_inv_def)
  moreover have "num_idle_transitions h - num_purged h = of_nat (length (queued h))"
    using assms by (simp add: GenericHash_inv_def)
  ultimately show ?thesis
    by (simp add: getNumIdleEntries_def unsigned_ucast_eq unsigned_of_nat take_bit_nat_eq_self
        max_def word_le_nat_alt)
qed

lemma hasEmptyRoom_bound:
  assumes inv: "GenericHash_inv m h"
  shows "hasEmptyRoom h \<longleftrightarrow>
    \<not> (5000 < length (queued h) \<and> length (concat (table h)) < length (queued h))
    \<and> length (concat (table h)) + length (queued h) \<le> unat (max_hash_size h)"
proof -
  have cur: "unat (getNumEntries h) = length (concat (table h))"
    using inv by (simp add: GenericHash_inv_def getNumEntries_def)
  have "length (concat (table h)) + length (queued h) < 2 ^ 32"
    using inv by (auto simp: GenericHash_inv_def)
  then have "unat (getNumEntries h + getNumIdleEntries h)
      = length (concat (table h)) + length (queued h)"
    by (simp add: unat_word_ariths cur getNumIdleEntries_queued [OF inv])
  then show ?thesis
    by (simp add: hasEmptyRoom_def MIN_NUM_IDLE_ENTRIES_IF_def word_less_nat_alt
        word_le_nat_alt cur getNumIdleEntries_queued [OF inv])
qed

lemma bucket_index_less:
  assumes "GenericHash_inv m h"
  shows "unat (k mod num_hashes h) < length (table h)"
  using assms by (simp add: GenericHash_inv_def unat_mod word_less_nat_alt)

lemma add_inv:
  assumes inv: "GenericHash_inv m h" and fresh: "ptr e \<notin> ptr ` set (concat (table h) @ queued h)"
  shows "GenericHash_inv m (snd (GenericHash_add m e h))"
proof (cases "hasEmptyRoom h")
  case True
  define i where "i = unat (m_key m e mod num_hashes h)"
  define e' where "e' = m_set_id m (hash_mask h OR last_entry_id h) e"
  have i: "i < length (table h)"
    unfolding i_def by (rule bucket_index_less [OF inv])
  have ms: "mset (concat ((table h)[i := e' # table h ! i])) = mset (e' # concat (table h))"
    using mset_concat_update [OF i, of "e' # table h ! i"] by simp
  have e': "ptr e' = ptr e" "m_key m e' = m_key m e"
    by (simp_all add: e'_def stable)
  have len: "length (concat ((table h)[i := e' # table h ! i])) = Suc (length (concat (table h)))"
    using arg_cong [OF ms, of size] by simp
  have room: "length (concat (table h)) + length (queued h) \<le> unat (max_hash_size h)"
    using True by (simp add: hasEmptyRoom_bound [OF inv])
  have "unat (current_size h + 1) = Suc (length (concat (table h)))"
    using inv room by (simp add: GenericHash_inv_def unat_word_ariths)
  moreover have "distinct (map ptr (concat ((table h)[i := e' # table h ! i]) @ queued h))"
  proof -
    have "mset (map ptr (concat ((table h)[i := e' # table h ! i]) @ queued h))
        = mset (map ptr (e' # concat (table h) @ queued h))"
      by (simp only: map_append mset_append mset_map ms) simp
    moreover have "distinct (map ptr (e' # concat (table h) @ queued h))"
      using inv fresh by (simp add: GenericHash_inv_def e' image_Un)
    ultimately show ?thesis
      by (metis mset_eq_imp_distinct_iff)
  qed
  moreover have "placed m (num_hashes h) ((table h)[i := e' # table h ! i])"
    using inv i by (auto simp: placed_def GenericHash_inv_def nth_list_update e' i_def)
  moreover have "(if last_entry_id h + 1 = 0x00FFFFFF then 0 else last_entry_id h + 1) < 0x00FFFFFF"
    using inv by (intro word_succ_wrap(1)) (simp add: GenericHash_inv_def)
  ultimately show ?thesis
    using inv len room True
    by (simp add: GenericHash_add_def Let_def GenericHash_inv_def i_def [symmetric]
        e'_def [symmetric] queued_def)
next
  case False
  then show ?thesis using inv by (simp add: GenericHash_add_def)
qed

end

section \<open>Deleting the queued entries\<close>

lemma mset_filter_split: "mset (filter P xs) + mset (filter (\<lambda>x. \<not> P x) xs) = mset xs"
  by (induction xs) simp_all

lemma purgeQueued_mset:
  assumes "purgeQueuedIdleEntries h = (n, deleted, h')"
  shows "mset deleted + mset (queued h') = mset (queued h)"
proof -
  define cur where "cur = (case idle_entries h of None \<Rightarrow> [] | Some q \<Rightarrow> q)"
  define sh where "sh = (case idle_entries_shadow h of None \<Rightarrow> [] | Some q \<Rightarrow> q)"
  define inu where "inu = idle_entries_in_use h @ filter (\<lambda>e. \<not> unused e) cur"
  have d: "deleted = filter unused cur @ filter unused inu"
    and q: "queued h' = sh @ filter (\<lambda>e. \<not> unused e) inu"
    using assms by (auto simp: purgeQueuedIdleEntries_def Let_def cur_def inu_def sh_def queued_def)
  have "mset deleted + mset (queued h')
      = mset (filter unused cur) + mset sh + mset inu"
    using mset_filter_split [of unused inu] by (simp add: d q)
  also have "\<dots> = mset sh + mset (idle_entries_in_use h) + mset cur"
    using mset_filter_split [of unused cur] by (simp add: inu_def)
  finally show ?thesis
    by (simp add: queued_def cur_def sh_def)
qed

lemma purgeQueued_deleted:
  assumes "purgeQueuedIdleEntries h = (n, deleted, h')"
  shows "n = of_nat (length deleted)" and "num_purged h' = num_purged h + of_nat (length deleted)"
    and "\<forall>e\<in>set deleted. getUses e = 0"
    and "\<forall>e\<in>set (idle_entries_in_use h'). getUses e \<noteq> 0" and "idle_entries h' = None"
  using assms by (auto simp: purgeQueuedIdleEntries_def Let_def unused_def)

lemma purgeQueued_fields:
  assumes "purgeQueuedIdleEntries h = (n, deleted, h')"
  shows "table h' = table h" "num_hashes h' = num_hashes h" "current_size h' = current_size h"
    "max_hash_size h' = max_hash_size h" "last_entry_id h' = last_entry_id h"
    "last_purged_hash h' = last_purged_hash h"
    "num_idle_transitions h' = num_idle_transitions h"
    "idle_entries_shadow h' = idle_entries_shadow h"
  using assms by (auto simp: purgeQueuedIdleEntries_def Let_def)

lemma purgeQueued_inv:
  assumes inv: "GenericHash_inv m h" and pq: "purgeQueuedIdleEntries h = (n, deleted, h')"
  shows "GenericHash_inv m h'"
proof -
  note ms = purgeQueued_mset [OF pq]
  have len: "length (queued h) = length deleted + length (queued h')"
    using arg_cong [OF ms, of size] by simp
  have "mset (map ptr (concat (table h) @ queued h))
      = mset (map ptr (deleted @ concat (table h) @ queued h'))"
    by (simp only: map_append mset_append mset_map ms [symmetric]) simp
  then have "distinct (map ptr (deleted @ concat (table h) @ queued h'))"
    using inv by (metis GenericHash_inv_def mset_eq_imp_distinct_iff)
  then have "distinct (map ptr (concat (table h) @ queued h'))"
    by auto
  then show ?thesis
    using inv len purgeQueued_deleted [OF pq]
    by (simp add: GenericHash_inv_def purgeQueued_fields [OF pq])
qed

section \<open>Histories\<close>

text \<open>
  Between the operations of the table the rest of the program changes the entries it
  holds: their counters, uses and states, never their identity or their key.
\<close>

definition map_entries ::
  "('m hash_entry_scheme \<Rightarrow> 'm hash_entry_scheme) \<Rightarrow> ('m hash_entry_scheme) generic_hash \<Rightarrow>
     ('m hash_entry_scheme) generic_hash" where
  "map_entries f h =
     h\<lparr>table := map (map f) (table h), idle_entries := map_option (map f) (idle_entries h),
       idle_entries_shadow := map_option (map f) (idle_entries_shadow h),
       idle_entries_in_use := map f (idle_entries_in_use h)\<rparr>"

inductive gh_step ::
  "('m hash_entry_scheme) entry_methods \<Rightarrow> ('m hash_entry_scheme) generic_hash \<Rightarrow>
     ('m hash_entry_scheme) generic_hash \<Rightarrow> bool" for m where
  step_add: "ptr e \<notin> ptr ` set (concat (table h) @ queued h) \<Longrightarrow>
     gh_step m h (snd (GenericHash_add m e h))"
| step_purgeIdle: "purgeIdle ifc m now force full busy h = Inr (r, h') \<Longrightarrow> gh_step m h h'"
| step_purgeQueued: "purgeQueuedIdleEntries h = (n, deleted, h') \<Longrightarrow> gh_step m h h'"
| step_entries: "(\<forall>e. ptr (f e) = ptr e \<and> m_key m (f e) = m_key m e) \<Longrightarrow>
     gh_step m h (map_entries f h)"

lemma queued_map_entries: "queued (map_entries f h) = map f (queued h)"
  by (auto simp: queued_def map_entries_def split: option.splits)

lemma map_entries_fields:
  "table (map_entries f h) = map (map f) (table h)"
  "num_hashes (map_entries f h) = num_hashes h" "current_size (map_entries f h) = current_size h"
  "max_hash_size (map_entries f h) = max_hash_size h"
  "last_entry_id (map_entries f h) = last_entry_id h"
  "last_purged_hash (map_entries f h) = last_purged_hash h"
  "num_idle_transitions (map_entries f h) = num_idle_transitions h"
  "num_purged (map_entries f h) = num_purged h"
  "idle_entries (map_entries f h) = map_option (map f) (idle_entries h)"
  "idle_entries_shadow (map_entries f h) = map_option (map f) (idle_entries_shadow h)"
  by (simp_all add: map_entries_def)

lemma map_entries_inv:
  assumes inv: "GenericHash_inv m h" and "\<forall>e. ptr (f e) = ptr e \<and> m_key m (f e) = m_key m e"
  shows "GenericHash_inv m (map_entries f h)"
proof -
  have "map ptr (concat (map (map f) (table h)) @ map f (queued h))
      = map ptr (concat (table h) @ queued h)"
    using assms(2) by (simp add: map_concat [symmetric])
  moreover have "length (concat (map (map f) (table h))) = length (concat (table h))"
    by (simp add: map_concat [symmetric])
  moreover have "placed m (num_hashes h) (map (map f) (table h))"
    using assms by (auto simp: placed_def GenericHash_inv_def)
  ultimately show ?thesis
    using inv
    by (simp add: GenericHash_inv_def queued_map_entries map_entries_fields
        del: map_append distinct_append)
qed

lemma GenericHash_new_inv:
  assumes "0 < n" and "unat mx * 13 div 10 < 2 ^ 32 - 1"
  shows "GenericHash_inv m (GenericHash_new ifc n mx)"
proof -
  have "n \<noteq> 0" and "0 < unat n" using assms(1) by (auto simp: word_less_nat_alt)
  then have "n - 1 < n" by (simp add: word_less_nat_alt unat_minus_one)
  then show ?thesis
    using assms
    by (simp add: GenericHash_inv_def GenericHash_new_def Let_def placed_def queued_def
        unsigned_of_nat take_bit_nat_eq_self word_less_nat_alt)
qed

context hash_entry_class
begin

lemma gh_step_inv: "gh_step m h h' \<Longrightarrow> GenericHash_inv m h \<Longrightarrow> GenericHash_inv m h'"
proof (induction rule: gh_step.induct)
  case (step_add e h)
  then show ?case by (intro add_inv)
next
  case (step_purgeIdle ifc now force full busy h r h')
  then show ?case using purgeIdle_inv [of h ifc now force full busy] by auto
next
  case (step_purgeQueued h n deleted h')
  then show ?case by (metis purgeQueued_inv)
next
  case (step_entries f h)
  then show ?case by (intro map_entries_inv)
qed

lemma gh_reachable_inv:
  "(gh_step m)\<^sup>*\<^sup>* h h' \<Longrightarrow> GenericHash_inv m h \<Longrightarrow> GenericHash_inv m h'"
  by (induction rule: rtranclp_induct) (auto intro: gh_step_inv)

end

section \<open>Draining the table\<close>

lemma purge_chain_force_empty:
  "\<forall>e\<in>set c. \<not> idle e \<Longrightarrow> fst (purge_chain ifc m now True c) = []"
  by (induction c)
     (auto simp: split_beta Let_def purge_entry_def idle_state_iff split: hash_entry_state.split)

definition none_idle :: "'m hash_entry_scheme list list \<Rightarrow> bool" where
  "none_idle t \<longleftrightarrow> (\<forall>b\<in>set t. \<forall>e\<in>set b. \<not> idle e)"

lemma purge_bucket_force:
  assumes "none_idle (ps_table s)" and "ps_last s < n" and "length (ps_table s) = unat n"
  shows "ps_table (purge_bucket ifc m now True (\<lambda>_. False) n s)
           = (ps_table s)[(unat (ps_last s) + 1) mod unat n := []]"
    and "ps_last (purge_bucket ifc m now True (\<lambda>_. False) n s) < n"
    and "unat (ps_last (purge_bucket ifc m now True (\<lambda>_. False) n s)) = (unat (ps_last s) + 1) mod unat n"
proof -
  define lst where "lst = (if ps_last s + 1 = n then 0 else ps_last s + 1)"
  define c where "c = ps_table s ! unat lst"
  have lst: "lst < n" "unat lst = (unat (ps_last s) + 1) mod unat n"
    using word_succ_wrap [OF assms(2)] by (simp_all add: lst_def)
  then have "c \<in> set (ps_table s)"
    using assms(3) by (auto simp: c_def word_less_nat_alt)
  then have "fst (purge_chain ifc m now True c) = []"
    using assms(1) by (intro purge_chain_force_empty) (auto simp: none_idle_def)
  moreover have "(ps_table s)[unat lst := []] = ps_table s" if "c = []"
    using that by (metis c_def list_update_id)
  ultimately show "ps_table (purge_bucket ifc m now True (\<lambda>_. False) n s)
      = (ps_table s)[(unat (ps_last s) + 1) mod unat n := []]"
    unfolding lst(2) [symmetric]
    by (simp add: purge_bucket_def Let_def split_beta flip: lst_def c_def)
  have "ps_last (purge_bucket ifc m now True (\<lambda>_. False) n s) = lst"
    by (simp add: purge_bucket_def Let_def split_beta flip: lst_def)
  then show "ps_last (purge_bucket ifc m now True (\<lambda>_. False) n s) < n"
    "unat (ps_last (purge_bucket ifc m now True (\<lambda>_. False) n s)) = (unat (ps_last s) + 1) mod unat n"
    using lst by simp_all
qed

lemma none_idle_update: "none_idle t \<Longrightarrow> none_idle (t[i := []])"
  by (auto simp: none_idle_def dest!: set_update_subset_insert [THEN subsetD])

lemma purge_loop_drains:
  assumes "none_idle (ps_table s)" and "ps_last s < n" and "length (ps_table s) = unat n"
    and "ps_table s ! i = [] \<or> (\<exists>k\<in>{1..rem}. i = (unat (ps_last s) + k) mod unat n)"
    and "i < unat n"
  shows "ps_table (purge_loop ifc m now True True (\<lambda>_. False) visit upper n rem j s) ! i = []"
  using assms
proof (induction rem arbitrary: j s)
  case (Suc rem)
  define s' where "s' = purge_bucket ifc m now True (\<lambda>_. False) n s"
  note step = purge_bucket_force [OF Suc.prems(1-3), where ifc = ifc and m = m and now = now,
      folded s'_def]
  have "ps_table s' ! i = [] \<or> (\<exists>k\<in>{1..rem}. i = (unat (ps_last s') + k) mod unat n)"
  proof (cases "ps_table s ! i = [] \<or> i = (unat (ps_last s) + 1) mod unat n")
    case True
    then show ?thesis
      using Suc.prems(3,5) by (auto simp: step(1) nth_list_update)
  next
    case False
    then obtain k where k: "k \<in> {1..Suc rem}" "i = (unat (ps_last s) + k) mod unat n"
      using Suc.prems(4) by blast
    with False have "k \<noteq> 1" by auto
    with k obtain k' where k': "k = Suc k'" "k' \<in> {1..rem}"
      by (cases k) auto
    then have "i = (unat (ps_last s') + k') mod unat n"
      using k(2) by (simp add: step(3) mod_simps)
    then show ?thesis using k'(2) by blast
  qed
  then show ?case
    using Suc.IH [of s' "Suc j"] Suc.prems step
    by (simp add: none_idle_update flip: s'_def)
qed auto

lemma cyclic_cover:
  fixes l n i :: nat
  assumes "l < n" and "i < n"
  shows "\<exists>k\<in>{1..n}. i = (l + k) mod n"
proof (cases "l < i")
  case True
  with assms show ?thesis by (intro bexI [of _ "i - l"]) auto
next
  case False
  with assms show ?thesis by (intro bexI [of _ "i + n - l"]) auto
qed

section \<open>Walking the table\<close>

lemma walk_chain_visits:
  assumes "\<And>e d. \<not> idle e \<Longrightarrow> fst (walker e d) = False"
  shows "fst (walk_chain walker c tot d) = False
    \<and> snd (snd (walk_chain walker c tot d))
      = fold (\<lambda>e d. snd (snd (walker e d))) (filter (\<lambda>e. \<not> idle e) c) d"
  using assms by (induction c arbitrary: tot d) (auto simp: split_beta Let_def)

lemma walk_loop_visits:
  assumes stop: "\<And>e d. \<not> idle e \<Longrightarrow> fst (walker e d) = False"
    and "n = hash_id + length buckets"
  shows "\<exists>k \<le> length buckets.
      walk_loop walker walk_all n b buckets hash_id tot d =
        (False, if k = length buckets then 0 else hash_id + k,
         fold (\<lambda>e d. snd (snd (walker e d)))
           (filter (\<lambda>e. \<not> idle e) (concat (take k buckets))) d)
      \<and> (walk_all \<longrightarrow> k = length buckets) \<and> (buckets \<noteq> [] \<longrightarrow> 0 < k)"
  using assms(2)
proof (induction buckets arbitrary: hash_id tot d)
  case (Cons c rest)
  obtain f tot1 d1 where wc: "walk_chain walker c tot d = (f, tot1, d1)"
    by (metis prod_cases3)
  have f: "\<not> f" and d1: "d1 = fold (\<lambda>e d. snd (snd (walker e d))) (filter (\<lambda>e. \<not> idle e) c) d"
    using walk_chain_visits [of walker c tot d] stop by (simp_all add: wc)
  show ?case
  proof (cases "c \<noteq> [] \<and> tot1 \<ge> MIN_NUM_HASH_WALK_ELEMS \<and> \<not> walk_all")
    case True
    then show ?thesis
      using f d1 Cons.prems
      by (intro exI [of _ 1]) (auto simp: wc)
  next
    case False
    define t' where "t' = (if c = [] then tot else tot1)"
    obtain k where k: "k \<le> length rest"
      "walk_loop walker walk_all n b rest (hash_id + 1) t' d1 =
        (False, if k = length rest then 0 else hash_id + 1 + k,
         fold (\<lambda>e d. snd (snd (walker e d)))
           (filter (\<lambda>e. \<not> idle e) (concat (take k rest))) d1)"
      "walk_all \<longrightarrow> k = length rest"
      using Cons.IH [of "hash_id + 1" t' d1] Cons.prems by auto
    have "walk_loop walker walk_all n b (c # rest) hash_id tot d
        = walk_loop walker walk_all n b rest (hash_id + 1) t' d1"
      using False f d1 by (auto simp: wc t'_def)
    then show ?thesis
      using k d1 by (intro exI [of _ "Suc k"]) simp
  qed
qed simp

section \<open>Properties\<close>

text \<open>A concrete interface and a table of four buckets with one entry, for the witnesses.\<close>

definition wit_iface :: iface_env where
  "wit_iface = \<lparr> get_id = 3, isPacketInterface = True, isRunning = True,
     is_purge_idle_interface = True, getTimeLastPktRcvd = 1000,
     skipDPIforCollectedFlows = False, disablePurge = False \<rparr>"

definition wit_entry :: hash_entry where
  "wit_entry = GenericHashEntry_new 7 wit_iface 1000"

definition wit_hash :: "hash_entry generic_hash" where
  "wit_hash = snd (GenericHash_add GenericHashEntry_methods wit_entry
     (GenericHash_new wit_iface 4 100))"

definition wit_queues :: "hash_entry generic_hash" where
  "wit_queues = (GenericHash_new wit_iface 4 100)
     \<lparr>idle_entries := Some [wit_entry, incUses wit_entry], num_idle_transitions := 2\<rparr>"

lemma wit_new_inv: "GenericHash_inv GenericHashEntry_methods (GenericHash_new wit_iface 4 100)"
  by (rule GenericHash_new_inv) simp_all

lemma wit_hash_inv: "GenericHash_inv GenericHashEntry_methods wit_hash"
  unfolding wit_hash_def
  by (rule base_class.add_inv [OF wit_new_inv]) (simp add: GenericHash_new_def Let_def queued_def)

text \<open>
  C1: In every state a table can reach from its construction by adding new entries,
  purging, deleting the purged entries and changing the entries it holds, each entry is
  in the bucket of its key, the size counter is the number of entries in the buckets, no
  object is held twice, the counters of idle transitions and of deletions differ by the
  number of queued entries, entries in the buckets and in the queues together exceed the
  maximum by at most one, and purgeIdle never follows a null pointer.
\<close>
theorem GenericHash_reachable_inv:
  assumes "hash_entry_class m" and "0 < n" and "unat mx * 13 div 10 < 2 ^ 32 - 1"
    and "(gh_step m)\<^sup>*\<^sup>* (GenericHash_new ifc n mx) h"
  shows "GenericHash_inv m h
    \<and> (\<forall>ifc' now force full busy. \<exists>r. purgeIdle ifc' m now force full busy h = Inr r)"
proof -
  have "GenericHash_inv m h"
    using assms GenericHash_new_inv by (blast intro: hash_entry_class.gh_reachable_inv)
  then show ?thesis
    using hash_entry_class.purgeIdle_inv [OF assms(1)] by blast
qed

theorem GenericHash_reachable_inv_witness:
  "GenericHash_inv GenericHashEntry_methods wit_hash"
proof -
  have "gh_step GenericHashEntry_methods (GenericHash_new wit_iface 4 100) wit_hash"
    unfolding wit_hash_def
    by (rule step_add) (simp add: GenericHash_new_def Let_def queued_def)
  then have "(gh_step GenericHashEntry_methods)\<^sup>*\<^sup>* (GenericHash_new wit_iface 4 100) wit_hash"
    by blast
  from GenericHash_reachable_inv [OF base_class.hash_entry_class_axioms _ _ this]
  show ?thesis by simp
qed

text \<open>
  C25: purgeIdle moves entries and never loses or duplicates one: after any call the
  buckets and the three queues hold the same objects with the same keys as before.
\<close>
theorem purgeIdle_conserves_entries:
  assumes "hash_entry_class m" and "GenericHash_inv m h"
    and "purgeIdle ifc m now force full busy h = Inr (r, h')"
  shows "image_mset (\<lambda>e. (ptr e, m_key m e)) (mset (concat (table h') @ queued h'))
    = image_mset (\<lambda>e. (ptr e, m_key m e)) (mset (concat (table h) @ queued h))"
  using hash_entry_class.purgeIdle_inv [OF assms(1,2), of ifc now force full busy] assms(3)
  by (auto simp: entry_sig_def [abs_def])

theorem purgeIdle_conserves_entries_witness:
  "\<exists>r h'. purgeIdle wit_iface GenericHashEntry_methods 1000 False False (\<lambda>_. False) wit_hash
       = Inr (r, h')
     \<and> image_mset (\<lambda>e. (ptr e, m_key GenericHashEntry_methods e))
         (mset (concat (table h') @ queued h')) = {#(7, 0)#}"
proof -
  obtain r h' where p:
    "purgeIdle wit_iface GenericHashEntry_methods 1000 False False (\<lambda>_. False) wit_hash = Inr (r, h')"
    using base_class.purgeIdle_inv [OF wit_hash_inv] by blast
  moreover have "concat (table wit_hash) @ queued wit_hash = [wit_entry]"
    by code_simp
  ultimately show ?thesis
    using purgeIdle_conserves_entries [OF base_class.hash_entry_class_axioms wit_hash_inv p]
    by (simp add: wit_entry_def GenericHashEntry_new_def Let_def GenericHashEntry_methods_def)
qed

text \<open>
  C26: When no entry of the table is idle and no bucket is locked, a forced full purge
  empties every bucket: the size becomes 0 and the result is the number of entries that
  were in the table, all of them moved to the shadow queue.
\<close>
theorem purgeIdle_force_full_drains:
  assumes cls: "hash_entry_class m" and inv: "GenericHash_inv m h" and ni: "none_idle (table h)"
    and en: "\<not> disablePurge ifc"
  shows "\<exists>h'. purgeIdle ifc m now True True (\<lambda>_. False) h = Inr (current_size h, h')
    \<and> table h' = replicate (unat (num_hashes h)) [] \<and> current_size h' = 0
    \<and> length (queued h') = length (concat (table h)) + length (queued h)"
proof -
  obtain d t lst shadow where eq:
    "purgeIdle ifc m now True True (\<lambda>_. False) h =
       Inr (of_nat (length d),
         (purge_swap h)\<lparr>table := t, last_purged_hash := lst,
            current_size := current_size h - of_nat (length d),
            idle_entries_shadow := Some (shadow @ map (idle_one ifc m now) d),
            num_idle_transitions := num_idle_transitions h + of_nat (length d)\<rparr>)"
      (is "_ = Inr (_, ?h')")
    and sh: "idle_entries_shadow (purge_swap h) = Some shadow"
    and t: "length t = unat (num_hashes h)"
    and sig: "image_mset (entry_sig m) (mset (concat t)) + image_mset (entry_sig m) (mset d)
       = image_mset (entry_sig m) (mset (concat (table h)))"
    and loop: "ps_table (purge_loop ifc m now True True (\<lambda>_. False) (num_hashes h)
        (upper_num_visited_entries h) (num_hashes h) (unat (num_hashes h)) 0
        \<lparr> ps_table = table h, ps_last = last_purged_hash h, ps_checked = 0, ps_detached = [] \<rparr>) = t"
    by (rule hash_entry_class.purgeIdle_cases
        [OF cls inv en, of now True True "\<lambda>_. False"]) (rule that, simp_all)
  have lt: "last_purged_hash h < num_hashes h" "length (table h) = unat (num_hashes h)"
    using inv by (simp_all add: GenericHash_inv_def)
  have "t ! i = []" if "i < unat (num_hashes h)" for i
    unfolding loop [symmetric]
    using ni lt that cyclic_cover [OF _ that, of "unat (last_purged_hash h)"]
    by (intro purge_loop_drains) (auto simp: word_less_nat_alt)
  then have empty: "t = replicate (unat (num_hashes h)) []"
    using t by (intro nth_equalityI) simp_all
  then have "length d = length (concat (table h))"
    using arg_cong [OF sig, of size] by simp
  moreover from this have "of_nat (length d) = current_size h"
    using inv by (metis GenericHash_inv_def word_nat_cast_id)
  moreover have "length (queued ?h') = length (queued h) + length d"
    using arg_cong [OF hash_entry_class.queued_detach [OF cls sh], of size] by simp
  ultimately show ?thesis
    using eq empty by simp
qed

theorem purgeIdle_force_full_drains_witness:
  "\<exists>h'. purgeIdle wit_iface GenericHashEntry_methods 1000 True True (\<lambda>_. False) wit_hash = Inr (1, h')
     \<and> table h' = replicate 4 [] \<and> length (queued h') = 1"
proof -
  have "none_idle (table wit_hash)" "\<not> disablePurge wit_iface" by code_simp+
  moreover have "current_size wit_hash = 1" "num_hashes wit_hash = 4"
    "length (concat (table wit_hash)) = 1" "length (queued wit_hash) = 0"
    by code_simp+
  ultimately show ?thesis
    using purgeIdle_force_full_drains [OF base_class.hash_entry_class_axioms wit_hash_inv,
        of wit_iface 1000]
    by auto
qed

text \<open>
  C27: purgeQueuedIdleEntries deletes exactly queued entries that nobody uses: every
  deleted object was queued and has no uses, everything else that was queued stays
  queued, an entry of the idle vector that is in use is kept in the vector of entries in
  use, and the result and the deletion counter grow by the number of deletions. The
  buckets are untouched.
\<close>
theorem purgeQueued_deletes_only_unused:
  assumes "purgeQueuedIdleEntries h = (n, deleted, h')"
  shows "mset deleted + mset (queued h') = mset (queued h) \<and> (\<forall>e\<in>set deleted. getUses e = 0)
    \<and> (\<forall>e\<in>set (idle_entries_in_use h'). getUses e \<noteq> 0)
    \<and> (\<forall>q e. idle_entries h = Some q \<and> e \<in> set q \<and> getUses e \<noteq> 0
         \<longrightarrow> e \<in> set (idle_entries_in_use h'))
    \<and> n = of_nat (length deleted) \<and> num_purged h' = num_purged h + n \<and> table h' = table h"
proof -
  have "\<forall>q e. idle_entries h = Some q \<and> e \<in> set q \<and> getUses e \<noteq> 0
      \<longrightarrow> e \<in> set (idle_entries_in_use h')"
    using assms by (auto simp: purgeQueuedIdleEntries_def Let_def unused_def)
  then show ?thesis
    using purgeQueued_mset [OF assms] purgeQueued_deleted [OF assms] purgeQueued_fields [OF assms]
    by simp
qed

theorem purgeQueued_deletes_only_unused_witness:
  "case purgeQueuedIdleEntries wit_queues of (n, deleted, h') \<Rightarrow>
     n = 1 \<and> mset deleted + mset (queued h') = {#wit_entry, incUses wit_entry#}
     \<and> incUses wit_entry \<in> set (idle_entries_in_use h')"
proof -
  obtain n deleted h' where p: "purgeQueuedIdleEntries wit_queues = (n, deleted, h')"
    by (metis prod_cases3)
  have "fst (purgeQueuedIdleEntries wit_queues) = 1"
    "idle_entries wit_queues = Some [wit_entry, incUses wit_entry]"
    "queued wit_queues = [wit_entry, incUses wit_entry]" "getUses (incUses wit_entry) \<noteq> 0"
    by code_simp+
  then show ?thesis
    using purgeQueued_deletes_only_unused [OF p] by (auto simp: p)
qed

text \<open>
  An entry that was added is found: when add succeeds, the lookup by the entry's key
  with a test that the stored entry passes returns that entry, whatever the table held,
  and a lookup whose test rejects it returns what it returned before. The identifier the
  entry gets has the low byte of the interface id in its top byte and the serial number
  below it. When add fails, the table is unchanged.
\<close>
theorem add_then_lookup:
  assumes cls: "hash_entry_class m" and inv: "GenericHash_inv m h"
    and add: "GenericHash_add m e h = (ok, h')"
  shows "if ok then
       (let e' = m_set_id m (hash_mask h OR last_entry_id h) e in
         (\<not> idle e \<and> p e' \<longrightarrow> hash_lookup (m_key m e) p h' = Some e')
         \<and> (\<not> p e' \<longrightarrow> hash_lookup k p h' = hash_lookup k p h))
     else h' = h"
proof (cases "hasEmptyRoom h")
  case True
  let ?i = "unat (m_key m e mod num_hashes h)"
  let ?e = "m_set_id m (hash_mask h OR last_entry_id h) e"
  have i: "?i < length (table h)"
    by (rule hash_entry_class.bucket_index_less [OF cls inv])
  have h': "ok" "table h' = (table h)[?i := ?e # table h ! ?i]" "num_hashes h' = num_hashes h"
    using add True by (auto simp: GenericHash_add_def Let_def)
  have "idle ?e \<longleftrightarrow> idle e"
    by (simp add: idle_def hash_entry_class.state_stable [OF cls])
  then show ?thesis
    using h' i
    by (cases "unat (k mod num_hashes h) = ?i") (auto simp: hash_lookup_def Let_def)
next
  case False
  then show ?thesis using add by (simp add: GenericHash_add_def)
qed

theorem add_then_lookup_witness:
  "hash_lookup 0 (\<lambda>e. ptr e = 7) wit_hash = Some wit_entry"
proof -
  have "GenericHash_add GenericHashEntry_methods wit_entry (GenericHash_new wit_iface 4 100)
      = (True, wit_hash)"
    by code_simp
  from add_then_lookup [OF base_class.hash_entry_class_axioms wit_new_inv this,
      of "\<lambda>e. ptr e = 7" 0]
  have "\<not> idle wit_entry \<and> ptr wit_entry = 7 \<longrightarrow>
      hash_lookup 0 (\<lambda>e. ptr e = 7) wit_hash = Some wit_entry"
    by (simp add: Let_def GenericHashEntry_methods_def)
  moreover have "\<not> idle wit_entry \<and> ptr wit_entry = 7" by code_simp
  ultimately show ?thesis by blast
qed

text \<open>
  A walk whose walker never asks to stop visits the entries that are not idle of a
  contiguous range of buckets, in order and each once. A walk of the whole table visits
  all buckets from the starting slot; a limited walk visits at least one bucket, and the
  slot it returns is where its range ends (or 0 at the end of the table), so that
  repeating it from the returned slot covers the table.
\<close>
theorem walk_visits_range:
  assumes stop: "\<And>e d. \<not> idle e \<Longrightarrow> fst (walker e d) = False"
    and "length (table h) = unat (num_hashes h)" and "begin_slot \<le> unat (num_hashes h)"
  shows "\<exists>k. begin_slot + k \<le> unat (num_hashes h)
    \<and> GenericHash_walk walker walk_all begin_slot d h =
        (False, if begin_slot + k = unat (num_hashes h) then 0 else begin_slot + k,
         fold (\<lambda>e d. snd (snd (walker e d)))
           (filter (\<lambda>e. \<not> idle e) (concat (take k (drop begin_slot (table h))))) d)
    \<and> (walk_all \<longrightarrow> begin_slot + k = unat (num_hashes h))
    \<and> (begin_slot < unat (num_hashes h) \<longrightarrow> 0 < k)"
proof -
  have "unat (num_hashes h) = begin_slot + length (drop begin_slot (table h))"
    using assms(2,3) by simp
  from walk_loop_visits [where walker = walker and walk_all = walk_all and b = begin_slot
      and tot = 0 and d = d, OF stop this]
  obtain k where "k \<le> length (drop begin_slot (table h))"
    and "GenericHash_walk walker walk_all begin_slot d h =
        (False, if k = length (drop begin_slot (table h)) then 0 else begin_slot + k,
         fold (\<lambda>e d. snd (snd (walker e d)))
           (filter (\<lambda>e. \<not> idle e) (concat (take k (drop begin_slot (table h))))) d)"
    and "walk_all \<longrightarrow> k = length (drop begin_slot (table h))"
    and "drop begin_slot (table h) \<noteq> [] \<longrightarrow> 0 < k"
    unfolding GenericHash_walk_def by blast
  then show ?thesis
    using assms(2,3) by (intro exI [of _ k]) auto
qed

theorem walk_visits_range_witness:
  "GenericHash_walk (\<lambda>e d. (False, True, d @ [ptr e])) True 0 [] wit_hash = (False, 0, [7])"
proof -
  have "length (table wit_hash) = unat (num_hashes wit_hash)"
    "unat (num_hashes wit_hash) = 4"
    "filter (\<lambda>e. \<not> idle e) (concat (take 4 (drop 0 (table wit_hash)))) = [wit_entry]"
    "ptr wit_entry = 7"
    by code_simp+
  then show ?thesis
    using walk_visits_range [of "\<lambda>e d. (False, True, d @ [ptr e])" wit_hash 0 True "[]"]
    by auto
qed

end
