(* ===== verification/Byte_Order.thy ===== *)
theory Byte_Order
  imports Prelude
begin

text \<open>
  Bytes in memory and the integers they hold on a little-endian machine: the views that
  the union of IpAddress.h, the \<open>memcpy\<close> calls and \<open>ntohl\<close>/\<open>ntohs\<close> give of the same bytes.
\<close>

definition le16 :: "u8 \<Rightarrow> u8 \<Rightarrow> u16" where
  "le16 a b = ucast a OR push_bit 8 (ucast b)"

definition le32 :: "u8 \<Rightarrow> u8 \<Rightarrow> u8 \<Rightarrow> u8 \<Rightarrow> u32" where
  "le32 a b c d = ucast a OR push_bit 8 (ucast b) OR push_bit 16 (ucast c) OR push_bit 24 (ucast d)"

definition byte_of :: "nat \<Rightarrow> u32 \<Rightarrow> u8" where
  "byte_of i w = ucast (drop_bit (8 * i) w)"

definition bytes32 :: "u32 \<Rightarrow> u8 list" where
  "bytes32 w = [byte_of 0 w, byte_of 1 w, byte_of 2 w, byte_of 3 w]"

definition ntohl :: "u32 \<Rightarrow> u32" where
  "ntohl w = le32 (byte_of 3 w) (byte_of 2 w) (byte_of 1 w) (byte_of 0 w)"

definition ntohs :: "u16 \<Rightarrow> u16" where
  "ntohs w = le16 (ucast (drop_bit 8 w)) (ucast w)"

lemma bit_le32:
  "bit (le32 a b c d) n \<longleftrightarrow>
     (if n < 8 then bit a n else if n < 16 then bit b (n - 8)
      else if n < 24 then bit c (n - 16) else n < 32 \<and> bit d (n - 24))"
  by (auto simp: le32_def bit_simps dest: bit_imp_le_length)

lemma bit_byte_of: "bit (byte_of i w) n \<longleftrightarrow> n < 8 \<and> bit w (8 * i + n)"
  by (auto simp: byte_of_def bit_simps)

lemma le32_byte_of [simp]: "le32 (byte_of 0 w) (byte_of 1 w) (byte_of 2 w) (byte_of 3 w) = w"
  by (rule bit_word_eqI) (auto simp: bit_le32 bit_byte_of)

lemma le32_byte_of_Suc [simp]:
  "le32 (byte_of 0 w) (byte_of (Suc 0) w) (byte_of 2 w) (byte_of 3 w) = w"
  using le32_byte_of [of w] by simp

lemma byte_of_le32 [simp]:
  "byte_of 0 (le32 a b c d) = a" "byte_of 1 (le32 a b c d) = b"
  "byte_of (Suc 0) (le32 a b c d) = b"
  "byte_of 2 (le32 a b c d) = c" "byte_of 3 (le32 a b c d) = d"
  by (rule bit_word_eqI; simp add: bit_le32 bit_byte_of)+

lemma ntohl_le32 [simp]: "ntohl (le32 a b c d) = le32 d c b a"
  by (simp add: ntohl_def)

lemma ntohl_ntohl [simp]: "ntohl (ntohl w) = w"
  by (simp add: ntohl_def)

lemma ntohl_inj: "ntohl v = ntohl w \<longleftrightarrow> v = w"
  by (metis ntohl_ntohl)

lemma le32_inj: "le32 a b c d = le32 a' b' c' d' \<longleftrightarrow> a = a' \<and> b = b' \<and> c = c' \<and> d = d'"
  by (metis byte_of_le32)

lemma length_bytes32 [simp]: "length (bytes32 w) = 4"
  by (simp add: bytes32_def)

lemma bytes32_inj: "bytes32 v = bytes32 w \<longleftrightarrow> v = w"
proof
  assume "bytes32 v = bytes32 w"
  then have "le32 (byte_of 0 v) (byte_of 1 v) (byte_of 2 v) (byte_of 3 v)
      = le32 (byte_of 0 w) (byte_of 1 w) (byte_of 2 w) (byte_of 3 w)"
    by (simp only: bytes32_def list.inject)
  then show "v = w" by (simp only: le32_byte_of)
qed simp

text \<open>The numeric value of four bytes, and the test of a prefix by a mask.\<close>

lemma unat_le32:
  "unat (le32 a b c d) = unat a + 2 ^ 8 * unat b + 2 ^ 16 * unat c + 2 ^ 24 * unat d"
proof -
  have "push_bit 16 (ucast c) OR push_bit 24 (ucast d) = push_bit 16 (ucast c) + push_bit 24 (ucast d :: u32)"
    by (rule disjunctive_add_eq_or [symmetric], rule bit_word_eqI)
       (auto simp: bit_simps dest: bit_imp_le_length)
  moreover have "push_bit 8 (ucast b) OR (push_bit 16 (ucast c) OR push_bit 24 (ucast d))
      = push_bit 8 (ucast b) + (push_bit 16 (ucast c) OR push_bit 24 (ucast d :: u32))"
    by (rule disjunctive_add_eq_or [symmetric], rule bit_word_eqI)
       (auto simp: bit_simps dest: bit_imp_le_length)
  moreover have "ucast a OR (push_bit 8 (ucast b) OR (push_bit 16 (ucast c) OR push_bit 24 (ucast d)))
      = ucast a + (push_bit 8 (ucast b) OR (push_bit 16 (ucast c) OR push_bit 24 (ucast d :: u32)))"
    by (rule disjunctive_add_eq_or [symmetric], rule bit_word_eqI)
       (auto simp: bit_simps dest: bit_imp_le_length)
  ultimately have sum: "le32 a b c d
      = ucast a + (push_bit 8 (ucast b) + (push_bit 16 (ucast c) + push_bit 24 (ucast d)))"
    by (simp add: le32_def or.assoc)
  have lt: "unat a < 256" "unat b < 256" "unat c < 256" "unat d < 256"
    using unsigned_less [of a] unsigned_less [of b] unsigned_less [of c] unsigned_less [of d]
    by simp_all
  show ?thesis
    using lt
    by (simp add: sum push_bit_eq_mult unat_word_ariths unsigned_ucast_eq take_bit_nat_eq_self)
qed

lemma prefix_mask_iff:
  fixes a k :: u32
  assumes "n < 32" and "unat k < 2 ^ (32 - n)"
  shows "a AND NOT (mask n) = push_bit n k \<longleftrightarrow> unat a div 2 ^ n = unat k"
proof -
  have "a AND NOT (mask n) = push_bit n (drop_bit n a)"
    by (rule bit_word_eqI) (auto simp: bit_simps)
  moreover have "push_bit n (drop_bit n a) = push_bit n k \<longleftrightarrow> drop_bit n a = k"
  proof
    assume eq: "push_bit n (drop_bit n a) = push_bit n k"
    have "take_bit (32 - n) k = k"
      using assms(2) by (metis take_bit_nat_eq_self unat_eq_iff_eq unsigned_take_bit_eq)
    then have kb: "\<not> bit k j" if "32 - n \<le> j" for j
      using that by (metis bit_take_bit_iff linorder_not_less)
    show "drop_bit n a = k"
    proof (rule bit_word_eqI)
      fix j assume "j < LENGTH(32)"
      show "bit (drop_bit n a) j \<longleftrightarrow> bit k j"
      proof (cases "n + j < 32")
        case True
        with eq have "bit (push_bit n (drop_bit n a)) (n + j) \<longleftrightarrow> bit (push_bit n k) (n + j)"
          by simp
        with True show ?thesis by (simp add: bit_simps)
      next
        case False
        then show ?thesis using kb [of j] by (auto simp: bit_simps dest: bit_imp_le_length)
      qed
    qed
  qed simp
  ultimately show ?thesis
    by (metis unat_drop_bit_div unat_eq_iff_eq)
qed

end
