(* ===== verification/Ip_Address.thy ===== *)
theory Ip_Address
  imports Byte_Order
begin

text \<open>
  IP addresses: src/include/IpAddress.h, src/src/IpAddress.cpp, and the helpers of
  src/src/Utils.cpp that print and convert them (intoaV4, intoaV6, maskHost,
  convertIPv4ToIPv6) and src/include/Utils.h (isIPv4MappedAddress). The union of the IPv4
  and the IPv6 address is its 16 bytes; the IPv4 view is the first four. The libc calls
  (inet_addr, inet_pton, inet_ntop) and the lookup of the configured local networks
  (Ntop::isLocalAddress, a patricia tree of nDPI) are arguments.
\<close>

section \<open>Data\<close>

type_synonym u3 = "3 word"

record ipAddress =
  ipVersion :: u3
  loopbackIP :: bool
  privateIP :: bool
  multicastIP :: bool
  broadcastIP :: bool
  blacklistedIP :: bool
  localIP :: bool
  gateway :: bool
  services_bitmap :: u32
  tags_bitmap :: u64
  ipType :: "u8 list"

record IpAddress =
  addr :: ipAddress
  ip_key :: u32

definition ipv4 :: "ipAddress \<Rightarrow> u32" where
  "ipv4 a = le32 (ipType a ! 0) (ipType a ! 1) (ipType a ! 2) (ipType a ! 3)"

definition u6_addr32 :: "u8 list \<Rightarrow> nat \<Rightarrow> u32" where
  "u6_addr32 b i = le32 (b ! (4 * i)) (b ! (4 * i + 1)) (b ! (4 * i + 2)) (b ! (4 * i + 3))"

definition set_ipv4 :: "u32 \<Rightarrow> ipAddress \<Rightarrow> ipAddress" where
  "set_ipv4 v a = a\<lparr>ipVersion := 4, ipType := bytes32 v @ drop 4 (ipType a)\<rparr>"

definition zero_addr :: ipAddress where
  "zero_addr = \<lparr> ipVersion = 0, loopbackIP = False, privateIP = False, multicastIP = False,
     broadcastIP = False, blacklistedIP = False, localIP = False, gateway = False,
     services_bitmap = 0, tags_bitmap = 0, ipType = replicate 16 0 \<rparr>"

text \<open>
  The configured networks: \<open>local4\<close> and \<open>local6\<close> give the mask bits of the local network of
  an address, if there is one.
\<close>

record net_env =
  local4 :: "u32 \<Rightarrow> u8 option"
  local6 :: "u8 list \<Rightarrow> u8 option"
  isBroadcastIPDisabled :: bool

section \<open>Classification\<close>

definition is_private_v4 :: "u32 \<Rightarrow> bool" where
  "is_private_v4 a \<longleftrightarrow>
     a AND 0xFF000000 = 0x0A000000 \<or> a AND 0xFFF00000 = 0xAC100000
     \<or> a AND 0xFFFF0000 = 0xC0A80000 \<or> a AND 0xFF000000 = 0x7F000000
     \<or> a AND 0xFFFF0000 = 0xA9FE0000 \<or> a = 0xFFFFFFFF \<or> a = 0"

definition checkIP_v4 :: "net_env \<Rightarrow> ipAddress \<Rightarrow> ipAddress" where
  "checkIP_v4 env ad =
     (let ad = ad\<lparr>loopbackIP := (ipv4 ad = 0x0100007F)\<rparr>;
          a = ntohl (ipv4 ad);
          ad = (if is_private_v4 a then ad\<lparr>privateIP := True\<rparr> else ad)
      in if a AND 0xF0000000 = 0xE0000000 then ad\<lparr>multicastIP := True\<rparr>
         else if a = 0xFFFFFFFF \<or> a = 0 then ad\<lparr>broadcastIP := True\<rparr>
         else if a AND 0xFF000000 = 0x7F000000 then ad\<lparr>localIP := True\<rparr>
         else case local4 env (ipv4 ad) of
           None \<Rightarrow> ad
         | Some nmask_bits \<Rightarrow>
             let ad = ad\<lparr>localIP := True\<rparr>
             in if \<not> isBroadcastIPDisabled env \<and> nmask_bits > 0 \<and> nmask_bits < 31 then
                  let nmask = NOT (push_bit (32 - unat nmask_bits) 1 - 1)
                  in if a = a OR NOT nmask \<or> a = a AND nmask
                     then ad\<lparr>broadcastIP := True\<rparr> else ad
                else ad)"

definition checkIP_v6 :: "net_env \<Rightarrow> ipAddress \<Rightarrow> ipAddress" where
  "checkIP_v6 env ad =
     (let ad = ad\<lparr>loopbackIP := False\<rparr>;
          ad = (if ipType ad ! 0 AND 0xFF = 0xFE \<and> ipType ad ! 1 AND 0xC0 = 0x80
                then ad\<lparr>privateIP := True, localIP := True\<rparr> else ad);
          ad = (if ipType ad ! 0 = 0xFF then ad\<lparr>multicastIP := True\<rparr> else ad)
      in if local6 env (ipType ad) \<noteq> None then ad\<lparr>localIP := True\<rparr> else ad)"

definition checkIP :: "net_env \<Rightarrow> ipAddress \<Rightarrow> ipAddress" where
  "checkIP env ad0 =
     (let ad = ad0\<lparr>loopbackIP := False, privateIP := False, multicastIP := False,
                   broadcastIP := False, localIP := False\<rparr>
      in if ipVersion ad = 4 then checkIP_v4 env ad
         else if ipVersion ad = 6 then checkIP_v6 env ad else ad)"

definition ipv6_key :: "u8 list \<Rightarrow> u32" where
  "ipv6_key b = fold (\<lambda>i k. k + push_bit (2 * i) (u6_addr32 b i)) [0..<4] 0"

definition compute_key :: "net_env \<Rightarrow> IpAddress \<Rightarrow> IpAddress" where
  "compute_key env ip =
     (let ad = checkIP env (addr ip)
      in if ipVersion ad = 4 then ip\<lparr>addr := ad, ip_key := ntohl (ipv4 ad)\<rparr>
         else if ipVersion ad = 6 then ip\<lparr>addr := ad, ip_key := ipv6_key (ipType ad)\<rparr>
         else ip\<lparr>addr := ad\<rparr>)"

section \<open>Construction and assignment\<close>

definition IpAddress_new :: "net_env \<Rightarrow> IpAddress" where
  "IpAddress_new env = compute_key env \<lparr> addr = zero_addr, ip_key = 0 \<rparr>"

definition IpAddress_set_ip :: "IpAddress \<Rightarrow> IpAddress \<Rightarrow> IpAddress" where
  "IpAddress_set_ip ip self = self\<lparr>addr := addr ip, ip_key := ip_key ip\<rparr>"

definition IpAddress_copy :: "net_env \<Rightarrow> IpAddress \<Rightarrow> IpAddress \<Rightarrow> IpAddress" where
  "IpAddress_copy env ipa self = compute_key env ((IpAddress_set_ip ipa self)\<lparr>addr := addr ipa\<rparr>)"

definition IpAddress_set_struct :: "net_env \<Rightarrow> ipAddress \<Rightarrow> IpAddress \<Rightarrow> IpAddress" where
  "IpAddress_set_struct env a self = compute_key env (self\<lparr>addr := a\<rparr>)"

definition IpAddress_set_v4 :: "net_env \<Rightarrow> u32 \<Rightarrow> IpAddress \<Rightarrow> IpAddress" where
  "IpAddress_set_v4 env v self = compute_key env (self\<lparr>addr := set_ipv4 v (addr self)\<rparr>)"

definition isIPv4MappedAddress :: "u8 list \<Rightarrow> bool" where
  "isIPv4MappedAddress b \<longleftrightarrow>
     u6_addr32 b 0 = 0 \<and> u6_addr32 b 1 = 0 \<and> u6_addr32 b 2 = ntohl 0x0000ffff"

definition IpAddress_set_in6 :: "net_env \<Rightarrow> u8 list \<Rightarrow> IpAddress \<Rightarrow> IpAddress" where
  "IpAddress_set_in6 env b self =
     compute_key env (self\<lparr>addr := (addr self)\<lparr>ipVersion := 6, ipType := b, privateIP := False\<rparr>\<rparr>)"

definition IpAddress_set_v6 :: "net_env \<Rightarrow> u8 list \<Rightarrow> bool \<Rightarrow> IpAddress \<Rightarrow> IpAddress" where
  "IpAddress_set_v6 env b check_ipv4 self =
     (if check_ipv4 \<and> isIPv4MappedAddress b then IpAddress_set_v4 env (u6_addr32 b 3) self
      else IpAddress_set_in6 env b self)"

definition IpAddress_set_str ::
  "net_env \<Rightarrow> (string \<Rightarrow> u32) \<Rightarrow> (string \<Rightarrow> u8 list option) \<Rightarrow> string option \<Rightarrow>
     IpAddress \<Rightarrow> IpAddress" where
  "IpAddress_set_str env inet_addr inet_pton6 sym_addr self =
     (case sym_addr of
        None \<Rightarrow> self
      | Some s \<Rightarrow>
          compute_key env
            (if CHR ''.'' \<in> set s then self\<lparr>addr := set_ipv4 (inet_addr s) (addr self)\<rparr>
             else case inet_pton6 s of
               None \<Rightarrow> self\<lparr>addr := set_ipv4 0 (addr self)\<rparr>
             | Some b \<Rightarrow> self\<lparr>addr := (addr self)\<lparr>ipVersion := 6, ipType := b\<rparr>\<rparr>))"

text \<open>A socket address: the family says which member of the union is meant.\<close>

datatype usa = Usa_in u32 | Usa_in6 "u8 list"

definition IpAddress_set_usa :: "net_env \<Rightarrow> usa \<Rightarrow> IpAddress \<Rightarrow> IpAddress" where
  "IpAddress_set_usa env sa self =
     compute_key env
       (case sa of
          Usa_in v \<Rightarrow> self\<lparr>addr := set_ipv4 v (addr self)\<rparr>
        | Usa_in6 b \<Rightarrow> self\<lparr>addr := (addr self)\<lparr>ipType := b, ipVersion := 6\<rparr>\<rparr>)"

definition IpAddress_reset :: "IpAddress \<Rightarrow> IpAddress" where
  "IpAddress_reset self = self\<lparr>addr := zero_addr\<rparr>"

definition IpAddress_setEmptyIPv6 :: "IpAddress \<Rightarrow> IpAddress" where
  "IpAddress_setEmptyIPv6 self =
     (let s = IpAddress_reset self in s\<lparr>addr := (addr s)\<lparr>ipVersion := 6\<rparr>\<rparr>)"

section \<open>Queries\<close>

definition IpAddress_isEmpty :: "IpAddress \<Rightarrow> bool" where
  "IpAddress_isEmpty ip =
     (let a = addr ip
      in if ipVersion a = 0 \<or> ipVersion a = 4 \<and> ipv4 a = 0 then True
         else if ipVersion a = 6 then ipType a = replicate 16 0
         else False)"

fun memcmp :: "u8 list \<Rightarrow> u8 list \<Rightarrow> int" where
  "memcmp (x # xs) (y # ys) = (if x < y then -1 else if y < x then 1 else memcmp xs ys)"
| "memcmp _ _ = 0"

definition IpAddress_compare :: "IpAddress \<Rightarrow> IpAddress option \<Rightarrow> int" where
  "IpAddress_compare self other =
     (case other of
        None \<Rightarrow> -1
      | Some ip \<Rightarrow>
          if ipVersion (addr self) < ipVersion (addr ip) then -1
          else if ipVersion (addr self) > ipVersion (addr ip) then 1
          else if ipVersion (addr self) = 4
               then memcmp (take 4 (ipType (addr self))) (take 4 (ipType (addr ip)))
               else memcmp (take 16 (ipType (addr self))) (take 16 (ipType (addr ip))))"

definition IpAddress_equal :: "IpAddress \<Rightarrow> IpAddress \<Rightarrow> bool" where
  "IpAddress_equal self ip \<longleftrightarrow> IpAddress_compare self (Some ip) = 0"

definition IpAddress_isLocalHost :: "IpAddress \<Rightarrow> bool" where
  "IpAddress_isLocalHost ip \<longleftrightarrow>
     localIP (addr ip) \<or> multicastIP (addr ip) \<or> broadcastIP (addr ip)"

definition IpAddress_isLocalHost_net :: "net_env \<Rightarrow> IpAddress \<Rightarrow> bool" where
  "IpAddress_isLocalHost_net env ip =
     (if multicastIP (addr ip) \<or> broadcastIP (addr ip) then True
      else if ipVersion (addr ip) = 4 then local4 env (ipv4 (addr ip)) \<noteq> None
      else local6 env (ipType (addr ip)) \<noteq> None)"

definition isNonEmptyUnicastAddress :: "IpAddress \<Rightarrow> bool" where
  "isNonEmptyUnicastAddress ip \<longleftrightarrow>
     \<not> multicastIP (addr ip) \<and> \<not> broadcastIP (addr ip) \<and> \<not> IpAddress_isEmpty ip"

definition isPublicAddress :: "IpAddress \<Rightarrow> bool" where
  "isPublicAddress ip \<longleftrightarrow> \<not> privateIP (addr ip) \<and> isNonEmptyUnicastAddress ip"

text \<open>
  An address tree is its two patricia trees; a missing tree matches everything. A tree is
  the predicate of what it matches (nDPI's best-match search).
\<close>

type_synonym address_tree = "(u32 \<Rightarrow> bool) option \<times> (u8 list \<Rightarrow> bool) option"

definition IpAddress_match :: "address_tree option \<Rightarrow> IpAddress \<Rightarrow> bool" where
  "IpAddress_match tree ip =
     (case tree of
        None \<Rightarrow> True
      | Some (t4, t6) \<Rightarrow>
          if ipVersion (addr ip) = 4
          then (case t4 of None \<Rightarrow> True | Some p \<Rightarrow> p (ipv4 (addr ip)))
          else (case t6 of None \<Rightarrow> True | Some p \<Rightarrow> p (ipType (addr ip))))"

definition IpAddress_get_sockaddr :: "bool \<Rightarrow> IpAddress \<Rightarrow> usa option" where
  "IpAddress_get_sockaddr calloc_ok ip =
     (if ipVersion (addr ip) = 4 then (if calloc_ok then Some (Usa_in (ipv4 (addr ip))) else None)
      else if ipVersion (addr ip) = 6
      then (if calloc_ok then Some (Usa_in6 (ipType (addr ip))) else None)
      else None)"

definition convertIPv4ToIPv6 :: "u32 \<Rightarrow> u8 list" where
  "convertIPv4ToIPv6 v =
     (let b = (replicate 16 0)[10 := 0xff, 11 := 0xff] in take 12 b @ bytes32 v)"

definition IpAddress_get_ip :: "IpAddress \<Rightarrow> u8 list" where
  "IpAddress_get_ip ip =
     (if ipVersion (addr ip) = 6 then ipType (addr ip) else convertIPv4ToIPv6 (ipv4 (addr ip)))"

definition IpAddress_fillIP :: "IpAddress \<Rightarrow> c_error + u8 list" where
  "IpAddress_fillIP ip =
     (if ipVersion (addr ip) = 4 then Inr (bytes32 (ipv4 (addr ip)) @ replicate 12 0)
      else if ipVersion (addr ip) = 6 then Inr (ipType (addr ip))
      else Inl Null_deref)"

section \<open>Printing\<close>

definition digit :: "nat \<Rightarrow> char" where
  "digit n = char_of (n + 48)"

definition push_byte :: "nat \<Rightarrow> string \<Rightarrow> string" where
  "push_byte byte cp =
     (let cp = digit (byte mod 10) # cp; byte = byte div 10
      in if byte > 0 then
           let cp = digit (byte mod 10) # cp; byte = byte div 10
           in if byte > 0 then digit byte # cp else cp
         else cp)"

primrec intoaV4_loop :: "nat \<Rightarrow> u32 \<Rightarrow> string \<Rightarrow> string" where
  "intoaV4_loop 0 a cp = cp"
| "intoaV4_loop (Suc n) a cp =
     (let cp = push_byte (unat (a AND 0xff)) cp;
          cp = (if Suc n > 1 then CHR ''.'' # cp else cp)
      in intoaV4_loop n (drop_bit 8 a) cp)"

text \<open>
  intoaV4 writes from the end of the buffer towards its start, the NUL first; it never
  compares with the start.
\<close>

definition intoaV4 :: "u32 \<Rightarrow> u16 \<Rightarrow> c_error + string" where
  "intoaV4 a bufLen =
     (let s = intoaV4_loop 4 a []
      in if length s + 1 \<le> unat bufLen then Inr s else Inl Heap_overflow)"

definition intoaV6 :: "(u8 list \<Rightarrow> nat \<Rightarrow> string option) \<Rightarrow> u8 list \<Rightarrow> u16 \<Rightarrow> string" where
  "intoaV6 inet_ntop6 b bufLen =
     (case inet_ntop6 b (unat bufLen) of
        None \<Rightarrow> []
      | Some ret \<Rightarrow>
          if take 8 b = replicate 8 0 then
            if drop 8 b = replicate 8 0 then take (unat bufLen - 1) ''0.0.0.0''
            else if take 12 b = replicate 10 0 @ [0xff, 0xff] then drop 7 ret else ret
          else ret)"

text \<open>The loop that masks the bytes of an IPv6 address, \<open>i\<close> bits from byte \<open>j\<close> on.\<close>

function mask6_loop :: "int \<Rightarrow> nat \<Rightarrow> u8 list \<Rightarrow> u8 list" where
  "mask6_loop i j b =
     (if i > 0 then
        mask6_loop (i - 8) (j + 1)
          (b[j := (b ! j) AND (if i \<ge> 8 then 0xff else push_bit (nat (8 - i)) 0xff)])
      else b)"
  by pat_completeness auto
termination
  by (relation "measure (\<lambda>(i, j, b). nat i)") auto

declare mask6_loop.simps [simp del]

definition masked_v4 :: "u8 \<Rightarrow> u32 \<Rightarrow> u32" where
  "masked_v4 bitmask0 v =
     (let bitmask = (if bitmask0 \<le> 32 then bitmask0 else 32); a = ntohl v
      in if bitmask > 0 then a AND NOT (push_bit (32 - unat bitmask) 1 - 1) else 0)"

definition masked_v6 :: "u8 \<Rightarrow> u8 list \<Rightarrow> u8 list" where
  "masked_v6 bitmask0 b =
     (let bitmask = (if bitmask0 \<le> 128 then bitmask0 else 128)
      in if bitmask \<noteq> 128 then mask6_loop (uint bitmask) 0 b else b)"

definition IpAddress_intoa ::
  "(u8 list \<Rightarrow> nat \<Rightarrow> string option) \<Rightarrow> IpAddress \<Rightarrow> u16 \<Rightarrow> u8 \<Rightarrow> c_error + string" where
  "IpAddress_intoa inet_ntop6 ip bufLen bitmask =
     (if ipVersion (addr ip) = 4 \<or> ipVersion (addr ip) = 0
      then intoaV4 (masked_v4 bitmask (ipv4 (addr ip))) bufLen
      else Inr (intoaV6 inet_ntop6 (masked_v6 bitmask (ipType (addr ip))) bufLen))"

datatype host_mask = no_host_mask | mask_local_hosts | mask_remote_hosts

definition maskHost :: "host_mask \<Rightarrow> bool \<Rightarrow> bool" where
  "maskHost hm isLocalIP =
     (case hm of
        mask_local_hosts \<Rightarrow> isLocalIP
      | mask_remote_hosts \<Rightarrow> \<not> isLocalIP
      | no_host_mask \<Rightarrow> False)"

definition IpAddress_print ::
  "(u8 list \<Rightarrow> nat \<Rightarrow> string option) \<Rightarrow> IpAddress \<Rightarrow> u32 \<Rightarrow> u8 \<Rightarrow> c_error + string" where
  "IpAddress_print inet_ntop6 ip str_len bitmask = IpAddress_intoa inet_ntop6 ip (ucast str_len) bitmask"

definition IpAddress_printMask ::
  "(u8 list \<Rightarrow> nat \<Rightarrow> string option) \<Rightarrow> host_mask \<Rightarrow> IpAddress \<Rightarrow> u32 \<Rightarrow> bool \<Rightarrow>
     c_error + string" where
  "IpAddress_printMask inet_ntop6 hm ip str_len isLocalIP =
     (if maskHost hm isLocalIP
      then Inr (take (unat str_len - 1)
             (if ipVersion (addr ip) = 4 then ''0.0.0.0'' else ''::''))
      else IpAddress_intoa inet_ntop6 ip (ucast str_len) 0xFF)"

section \<open>Comparison and keys\<close>

lemma memcmp_eq_0: "length xs = length ys \<Longrightarrow> memcmp xs ys = 0 \<longleftrightarrow> xs = ys"
  by (induction xs ys rule: list_induct2) (auto simp: not_less_iff_gr_or_eq)

lemma memcmp_antisym: "length xs = length ys \<Longrightarrow> memcmp ys xs = - memcmp xs ys"
  by (induction xs ys rule: list_induct2) auto

lemma memcmp_trans:
  assumes "length xs = length ys" and "length ys = length zs"
    and "memcmp xs ys \<le> 0" and "memcmp ys zs \<le> 0"
  shows "memcmp xs zs \<le> 0"
  using assms by (induction xs ys zs rule: list_induct3) (auto split: if_splits)

text \<open>Well-formed addresses: the union has its 16 bytes, and the version is one the code sets.\<close>

definition ip_wf :: "IpAddress \<Rightarrow> bool" where
  "ip_wf ip \<longleftrightarrow> length (ipType (addr ip)) = 16 \<and> ipVersion (addr ip) \<in> {0, 4, 6}"

definition ip_keyed :: "IpAddress \<Rightarrow> bool" where
  "ip_keyed ip \<longleftrightarrow>
     (ipVersion (addr ip) = 4 \<longrightarrow> ip_key ip = ntohl (ipv4 (addr ip)))
     \<and> (ipVersion (addr ip) = 6 \<longrightarrow> ip_key ip = ipv6_key (ipType (addr ip)))
     \<and> (ipVersion (addr ip) = 0 \<longrightarrow> ip_key ip = 0)"

lemma checkIP_v4_addr:
  "ipVersion (checkIP_v4 env a) = ipVersion a" "ipType (checkIP_v4 env a) = ipType a"
  by (simp_all add: checkIP_v4_def Let_def split: option.split)

lemma checkIP_v6_addr:
  "ipVersion (checkIP_v6 env a) = ipVersion a" "ipType (checkIP_v6 env a) = ipType a"
  by (simp_all add: checkIP_v6_def Let_def)

lemma checkIP_addr [simp]:
  "ipVersion (checkIP env a) = ipVersion a" "ipType (checkIP env a) = ipType a"
  "ipv4 (checkIP env a) = ipv4 a"
  by (simp_all add: checkIP_def Let_def checkIP_v4_addr checkIP_v6_addr ipv4_def)

lemma compute_key_addr [simp]:
  "ipVersion (addr (compute_key env ip)) = ipVersion (addr ip)"
  "ipType (addr (compute_key env ip)) = ipType (addr ip)"
  "ipv4 (addr (compute_key env ip)) = ipv4 (addr ip)"
  by (auto simp: compute_key_def Let_def)

lemma compute_key_keyed:
  assumes "ipVersion (addr ip) = 0 \<Longrightarrow> ip_key ip = 0"
  shows "ip_keyed (compute_key env ip)"
  using assms by (auto simp: ip_keyed_def compute_key_def Let_def)

lemma IpAddress_equal_iff:
  assumes "ip_wf a" and "ip_wf b"
  shows "IpAddress_equal a b \<longleftrightarrow>
    ipVersion (addr a) = ipVersion (addr b)
    \<and> (if ipVersion (addr a) = 4 then take 4 (ipType (addr a)) = take 4 (ipType (addr b))
       else ipType (addr a) = ipType (addr b))"
  using assms by (auto simp: IpAddress_equal_def IpAddress_compare_def ip_wf_def memcmp_eq_0
      not_less_iff_gr_or_eq)

lemma take4_nth:
  assumes "4 \<le> length xs"
  shows "take 4 xs = [xs ! 0, xs ! 1, xs ! 2, xs ! 3]"
  using assms by (intro nth_equalityI) (auto simp: less_Suc_eq numeral_eq_Suc)

lemma ipv4_take4:
  assumes "4 \<le> length (ipType a)" and "4 \<le> length (ipType b)"
  shows "ipv4 a = ipv4 b \<longleftrightarrow> take 4 (ipType a) = take 4 (ipType b)"
  by (simp add: ipv4_def take4_nth [OF assms(1)] take4_nth [OF assms(2)] le32_inj)

lemma ip_equal_key:
  assumes "ip_wf a" and "ip_wf b" and "ip_keyed a" and "ip_keyed b" and "IpAddress_equal a b"
  shows "ip_key a = ip_key b"
proof -
  note eq = assms(5) [unfolded IpAddress_equal_iff [OF assms(1,2)]]
  have "ipv4 (addr a) = ipv4 (addr b)" if "ipVersion (addr a) = 4"
    using eq that assms(1,2) by (simp add: ipv4_take4 ip_wf_def)
  then show ?thesis
    using eq assms(1-4) by (auto simp: ip_keyed_def ip_wf_def split: if_splits)
qed

text \<open>A network environment without local networks, for the witnesses.\<close>

definition no_nets :: net_env where
  "no_nets = \<lparr> local4 = (\<lambda>_. None), local6 = (\<lambda>_. None), isBroadcastIPDisabled = False \<rparr>"

text \<open>Operations that set an address, for histories of assignments.\<close>

datatype ip_op = Op_v4 u32 | Op_v6 "u8 list" bool | Op_in6 "u8 list" | Op_usa usa
  | Op_str "string option" | Op_struct ipAddress

definition ip_op_ok :: "ip_op \<Rightarrow> bool" where
  "ip_op_ok op =
     (case op of
        Op_v4 v \<Rightarrow> True | Op_v6 b c \<Rightarrow> length b = 16 | Op_in6 b \<Rightarrow> length b = 16
      | Op_usa (Usa_in v) \<Rightarrow> True | Op_usa (Usa_in6 b) \<Rightarrow> length b = 16 | Op_str s \<Rightarrow> True
      | Op_struct a \<Rightarrow> length (ipType a) = 16 \<and> ipVersion a \<in> {4, 6})"

fun ip_apply :: "net_env \<Rightarrow> (string \<Rightarrow> u32) \<Rightarrow> (string \<Rightarrow> u8 list option) \<Rightarrow> ip_op \<Rightarrow>
    IpAddress \<Rightarrow> IpAddress" where
  "ip_apply env ia pton (Op_v4 v) self = IpAddress_set_v4 env v self"
| "ip_apply env ia pton (Op_v6 b c) self = IpAddress_set_v6 env b c self"
| "ip_apply env ia pton (Op_in6 b) self = IpAddress_set_in6 env b self"
| "ip_apply env ia pton (Op_usa sa) self = IpAddress_set_usa env sa self"
| "ip_apply env ia pton (Op_str s) self = IpAddress_set_str env ia pton s self"
| "ip_apply env ia pton (Op_struct a) self = IpAddress_set_struct env a self"

lemma compute_key_wf: "ip_wf (compute_key env ip) \<longleftrightarrow> ip_wf ip"
  by (simp add: ip_wf_def)

lemma set_ipv4_wf: "ip_wf self \<Longrightarrow> ip_wf (self\<lparr>addr := set_ipv4 v (addr self)\<rparr>)"
  by (simp add: ip_wf_def set_ipv4_def)

lemma ip_apply_ok:
  assumes "ip_wf self" and "ip_keyed self" and "ip_op_ok op"
    and "\<And>s b. pton s = Some b \<Longrightarrow> length b = 16"
  shows "ip_wf (ip_apply env ia pton op self) \<and> ip_keyed (ip_apply env ia pton op self)"
  using assms
proof (cases op)
  case (Op_str so)
  show ?thesis
    using assms Op_str
    by (auto simp: IpAddress_set_str_def set_ipv4_def ip_wf_def
        intro!: compute_key_keyed split: option.splits)
qed (auto simp: IpAddress_set_v4_def IpAddress_set_v6_def IpAddress_set_in6_def
      IpAddress_set_usa_def IpAddress_set_struct_def set_ipv4_def ip_op_ok_def ip_wf_def
      intro!: compute_key_keyed split: usa.splits)

lemma IpAddress_new_ok: "ip_wf (IpAddress_new env) \<and> ip_keyed (IpAddress_new env)"
  by (simp add: IpAddress_new_def compute_key_wf compute_key_keyed)
     (simp add: ip_wf_def zero_addr_def)

text \<open>
  After any sequence of assignments to a new address, from integers, IPv6 bytes,
  socket addresses, strings or structures, the address is well formed and its key is the
  one its version and bytes define.
\<close>
theorem IpAddress_history_keyed:
  assumes "\<And>s b. pton s = Some b \<Longrightarrow> length b = 16" and "list_all ip_op_ok ops"
  shows "ip_wf (fold (ip_apply env ia pton) ops (IpAddress_new env))
    \<and> ip_keyed (fold (ip_apply env ia pton) ops (IpAddress_new env))"
proof -
  have "ip_wf ip \<and> ip_keyed ip \<Longrightarrow>
      ip_wf (fold (ip_apply env ia pton) ops ip) \<and> ip_keyed (fold (ip_apply env ia pton) ops ip)" for ip
    using assms(2)
  proof (induction ops arbitrary: ip)
    case (Cons op ops)
    then show ?case using ip_apply_ok [where pton = pton, OF _ _ _ assms(1)] by simp
  qed simp
  then show ?thesis using IpAddress_new_ok by blast
qed

theorem IpAddress_history_keyed_witness:
  "ip_keyed (fold (ip_apply no_nets (\<lambda>_. 5) (\<lambda>_. None)) [Op_v4 3, Op_str (Some ''1.2.3.4'')]
     (IpAddress_new no_nets))"
  using IpAddress_history_keyed
    [of "\<lambda>_. None" "[Op_v4 3, Op_str (Some ''1.2.3.4'')]" no_nets "\<lambda>_. 5"]
  by (simp add: ip_op_ok_def)

text \<open>
  setEmptyIPv6 clears the address and sets its version without computing the key: an
  object that held another address compares as equal to a fresh empty IPv6 address and
  keeps the key of the old one.
\<close>
theorem setEmptyIPv6_stale_key:
  "\<exists>a b. IpAddress_equal (IpAddress_setEmptyIPv6 a) b \<and> ip_wf a \<and> ip_keyed a
     \<and> ip_wf b \<and> ip_keyed b \<and> ip_key (IpAddress_setEmptyIPv6 a) \<noteq> ip_key b"
proof (intro exI conjI)
  let ?a = "IpAddress_set_v4 no_nets 0x01020304 (IpAddress_new no_nets)"
  let ?b = "IpAddress_set_v6 no_nets (replicate 16 0) False (IpAddress_new no_nets)"
  show "IpAddress_equal (IpAddress_setEmptyIPv6 ?a) ?b" by code_simp
  show "ip_wf ?a" "ip_keyed ?a" "ip_wf ?b" "ip_keyed ?b" by code_simp+
  show "ip_key (IpAddress_setEmptyIPv6 ?a) \<noteq> ip_key ?b" by code_simp
qed

text \<open>
  compare is a total order on well-formed addresses: it is antisymmetric, transitive,
  and answers 0 exactly on equal addresses.
\<close>
theorem compare_total_order:
  assumes "ip_wf a" and "ip_wf b" and "ip_wf c"
  shows "IpAddress_compare b (Some a) = - IpAddress_compare a (Some b)
    \<and> (IpAddress_compare a (Some b) \<le> 0 \<and> IpAddress_compare b (Some c) \<le> 0
        \<longrightarrow> IpAddress_compare a (Some c) \<le> 0)
    \<and> (IpAddress_compare a (Some b) = 0 \<longleftrightarrow> IpAddress_equal a b)"
proof -
  have len: "length (ipType (addr a)) = 16" "length (ipType (addr b)) = 16"
    "length (ipType (addr c)) = 16"
    using assms by (simp_all add: ip_wf_def)
  have "IpAddress_compare a (Some c) \<le> 0"
    if "IpAddress_compare a (Some b) \<le> 0" "IpAddress_compare b (Some c) \<le> 0"
    using that len
      memcmp_trans [of "take 4 (ipType (addr a))" "take 4 (ipType (addr b))" "take 4 (ipType (addr c))"]
      memcmp_trans [of "ipType (addr a)" "ipType (addr b)" "ipType (addr c)"]
    by (auto simp: IpAddress_compare_def split: if_splits)
  moreover have "IpAddress_compare b (Some a) = - IpAddress_compare a (Some b)"
    using len memcmp_antisym [of "take 4 (ipType (addr a))" "take 4 (ipType (addr b))"]
      memcmp_antisym [of "ipType (addr a)" "ipType (addr b)"]
    by (auto simp: IpAddress_compare_def)
  ultimately show ?thesis by (simp add: IpAddress_equal_def)
qed

theorem compare_total_order_witness:
  "let a = IpAddress_set_v4 no_nets 1 (IpAddress_new no_nets);
       b = IpAddress_set_v6 no_nets (replicate 16 7) False (IpAddress_new no_nets)
   in IpAddress_compare b (Some a) = - IpAddress_compare a (Some b)"
proof -
  have "ip_wf (IpAddress_set_v4 no_nets 1 (IpAddress_new no_nets))"
    "ip_wf (IpAddress_set_v6 no_nets (replicate 16 7) False (IpAddress_new no_nets))"
    by code_simp+
  then show ?thesis
    using compare_total_order
      [of "IpAddress_set_v4 no_nets 1 (IpAddress_new no_nets)"
          "IpAddress_set_v6 no_nets (replicate 16 7) False (IpAddress_new no_nets)"
          "IpAddress_set_v4 no_nets 1 (IpAddress_new no_nets)"]
    unfolding Let_def by blast
qed

section \<open>Classification of IPv4 addresses\<close>

lemma mask_consts:
  "(0xFF000000 :: u32) = NOT (mask 24)" "(0xFFF00000 :: u32) = NOT (mask 20)"
  "(0xFFFF0000 :: u32) = NOT (mask 16)" "(0xF0000000 :: u32) = NOT (mask 28)"
  by (simp_all add: mask_numeral)

lemma octet_prefixes:
  fixes p q r s :: u8
  defines "a \<equiv> le32 s r q p"
  shows "unat a div 2 ^ 24 = unat p" and "unat a div 2 ^ 16 = unat p * 256 + unat q"
    and "unat a div 2 ^ 20 = unat p * 16 + unat q div 16" and "unat a div 2 ^ 28 = unat p div 16"
proof -
  have lt: "unat s < 256" "unat r < 256" "unat q < 256"
    using unsigned_less [of s] unsigned_less [of r] unsigned_less [of q] by simp_all
  have ua: "unat a = unat s + 2 ^ 8 * unat r + 2 ^ 16 * unat q + 2 ^ 24 * unat p"
    by (simp add: a_def unat_le32)
  show d24: "unat a div 2 ^ 24 = unat p" and d16: "unat a div 2 ^ 16 = unat p * 256 + unat q"
    using lt by (simp_all add: ua)
  have "unat a div 2 ^ 20 = unat a div 2 ^ 16 div 2 ^ 4"
    by (simp add: div_mult2_eq [symmetric])
  then show "unat a div 2 ^ 20 = unat p * 16 + unat q div 16"
    unfolding d16 by simp
  have "unat a div 2 ^ 28 = unat a div 2 ^ 24 div 2 ^ 4"
    by (simp add: div_mult2_eq [symmetric])
  then show "unat a div 2 ^ 28 = unat p div 16"
    unfolding d24 by simp
qed

lemma nat_172_16:
  fixes p q :: nat
  assumes "q < 256"
  shows "p * 16 + q div 16 = 2753 \<longleftrightarrow> p = 172 \<and> 16 \<le> q \<and> q < 32"
proof -
  define d where "d = q div 16"
  have "d < 16" using assms by (simp add: d_def)
  then have "p * 16 + d = 2753 \<longleftrightarrow> p = 172 \<and> d = 1" by presburger
  moreover have "d = 1 \<longleftrightarrow> 16 \<le> q \<and> q < 32" unfolding d_def by presburger
  ultimately show ?thesis by (simp add: d_def)
qed

lemma prefix_tests:
  fixes p q r s :: u8
  defines "a \<equiv> le32 s r q p"
  shows "a AND 0xFF000000 = 0x0A000000 \<longleftrightarrow> p = 10"
    and "a AND 0xFF000000 = 0x7F000000 \<longleftrightarrow> p = 127"
    and "a AND 0xFFF00000 = 0xAC100000 \<longleftrightarrow> p = 172 \<and> 16 \<le> q \<and> q < 32"
    and "a AND 0xFFFF0000 = 0xC0A80000 \<longleftrightarrow> p = 192 \<and> q = 168"
    and "a AND 0xFFFF0000 = 0xA9FE0000 \<longleftrightarrow> p = 169 \<and> q = 254"
    and "a AND 0xF0000000 = 0xE0000000 \<longleftrightarrow> 224 \<le> p \<and> p < 240"
    and "a = 0xFFFFFFFF \<longleftrightarrow> p = 255 \<and> q = 255 \<and> r = 255 \<and> s = 255"
    and "a = 0 \<longleftrightarrow> p = 0 \<and> q = 0 \<and> r = 0 \<and> s = 0"
proof -
  note oct = octet_prefixes [where p = p and q = q and r = r and s = s, folded a_def, simplified]
  have lt: "unat q < 256" using unsigned_less [of q] by simp
  have eq: "p = k \<longleftrightarrow> unat p = unat k" "q = k \<longleftrightarrow> unat q = unat k" for k
    by (simp_all add: unat_eq_iff_eq)
  note cmp = word_less_nat_alt word_le_nat_alt
  show "a AND 0xFF000000 = 0x0A000000 \<longleftrightarrow> p = 10" "a AND 0xFF000000 = 0x7F000000 \<longleftrightarrow> p = 127"
    using prefix_mask_iff [of 24 10 a] prefix_mask_iff [of 24 127 a]
    by (simp_all add: mask_consts(1) oct eq)
  show "a AND 0xFFFF0000 = 0xC0A80000 \<longleftrightarrow> p = 192 \<and> q = 168"
    using prefix_mask_iff [of 16 "0xC0A8" a] lt by (simp add: mask_consts(3) oct eq) presburger
  show "a AND 0xFFFF0000 = 0xA9FE0000 \<longleftrightarrow> p = 169 \<and> q = 254"
    using prefix_mask_iff [of 16 "0xA9FE" a] lt by (simp add: mask_consts(3) oct eq) presburger
  show "a AND 0xFFF00000 = 0xAC100000 \<longleftrightarrow> p = 172 \<and> 16 \<le> q \<and> q < 32"
    using prefix_mask_iff [of 20 "0xAC1" a] nat_172_16 [OF lt, of "unat p"]
    by (simp add: mask_consts(2) oct eq cmp)
  show "a AND 0xF0000000 = 0xE0000000 \<longleftrightarrow> 224 \<le> p \<and> p < 240"
    using prefix_mask_iff [of 28 14 a] by (auto simp: mask_consts(4) oct cmp)
  have "(0xFFFFFFFF :: u32) = le32 255 255 255 255" "(0 :: u32) = le32 0 0 0 0"
    by (simp_all add: le32_def)
  then show "a = 0xFFFFFFFF \<longleftrightarrow> p = 255 \<and> q = 255 \<and> r = 255 \<and> s = 255"
    "a = 0 \<longleftrightarrow> p = 0 \<and> q = 0 \<and> r = 0 \<and> s = 0"
    using le32_inj [of s r q p 255 255 255 255] le32_inj [of s r q p 0 0 0 0]
    by (auto simp: a_def)
qed

text \<open>
  An IPv4 address p.q.r.s is classified by its octets: private exactly in 10/8,
  172.16/12, 192.168/16, 127/8, 169.254/16, 255.255.255.255 and 0.0.0.0; multicast exactly
  in 224/4; loopback exactly for 127.0.0.1; whatever the configured local networks are.
\<close>
theorem checkIP_v4_classes:
  assumes "ipVersion ad = 4" and "ipType ad = p # q # r # s # rest"
  shows "(privateIP (checkIP env ad) \<longleftrightarrow>
       p = 10 \<or> p = 172 \<and> 16 \<le> q \<and> q < 32 \<or> p = 192 \<and> q = 168 \<or> p = 127 \<or> p = 169 \<and> q = 254
       \<or> (p, q, r, s) = (255, 255, 255, 255) \<or> (p, q, r, s) = (0, 0, 0, 0))
    \<and> (multicastIP (checkIP env ad) \<longleftrightarrow> 224 \<le> p \<and> p < 240)
    \<and> (loopbackIP (checkIP env ad) \<longleftrightarrow> (p, q, r, s) = (127, 0, 0, 1))"
proof -
  define ad' where "ad' = ad\<lparr>loopbackIP := False, privateIP := False, multicastIP := False,
                   broadcastIP := False, localIP := False\<rparr>"
  have v: "ipv4 ad = le32 p q r s" "ipv4 ad' = ipv4 ad"
    using assms(2) by (simp_all add: ipv4_def ad'_def)
  have nt: "ntohl (ipv4 ad) = le32 s r q p" by (simp add: v)
  have chk: "checkIP env ad = checkIP_v4 env ad'"
    using assms(1) by (simp add: checkIP_def Let_def ad'_def)
  have pr: "privateIP (checkIP_v4 env ad') \<longleftrightarrow> is_private_v4 (ntohl (ipv4 ad))"
    by (simp add: checkIP_v4_def Let_def v(2) ipv4_def split: option.split) (simp add: ad'_def)
  have mu: "multicastIP (checkIP_v4 env ad') \<longleftrightarrow> ntohl (ipv4 ad) AND 0xF0000000 = 0xE0000000"
    by (simp add: checkIP_v4_def Let_def ipv4_def split: option.split) (simp add: ad'_def ipv4_def)
  have lo: "loopbackIP (checkIP_v4 env ad') \<longleftrightarrow> ipv4 ad = 0x0100007F"
    by (simp add: checkIP_v4_def Let_def v(2) split: option.split)
  have "le32 127 0 0 1 = (0x0100007F :: u32)" by (simp add: le32_def)
  then have "ipv4 ad = 0x0100007F \<longleftrightarrow> (p, q, r, s) = (127, 0, 0, 1)"
    using le32_inj [of p q r s 127 0 0 1] by (simp add: v)
  then show ?thesis
    using pr mu lo by (simp add: chk nt is_private_v4_def prefix_tests)
qed

theorem checkIP_v4_classes_witness:
  "privateIP (checkIP no_nets (zero_addr\<lparr>ipVersion := 4, ipType := [172, 20, 1, 2] @ replicate 12 0\<rparr>))
   \<and> \<not> privateIP (checkIP no_nets (zero_addr\<lparr>ipVersion := 4, ipType := [172, 32, 1, 2] @ replicate 12 0\<rparr>))"
proof -
  have "(16::u8) \<le> 20 \<and> (20::u8) < 32" "\<not> ((32::u8) < 32)" by simp_all
  then show ?thesis
    using checkIP_v4_classes
      [of "zero_addr\<lparr>ipVersion := 4, ipType := [172, 20, 1, 2] @ replicate 12 0\<rparr>"
          172 20 1 2 "replicate 12 0" no_nets]
      checkIP_v4_classes
      [of "zero_addr\<lparr>ipVersion := 4, ipType := [172, 32, 1, 2] @ replicate 12 0\<rparr>"
          172 32 1 2 "replicate 12 0" no_nets]
    by simp
qed

lemma host_part_tests:
  fixes a :: u32
  assumes "0 < n" and "n < 32"
  shows "a = a OR NOT (NOT (push_bit n 1 - 1)) \<longleftrightarrow> unat a mod 2 ^ n = 2 ^ n - 1"
    and "a = a AND NOT (push_bit n 1 - 1) \<longleftrightarrow> unat a mod 2 ^ n = 0"
proof -
  have m: "push_bit n 1 - 1 = (mask n :: u32)"
    by (simp add: mask_eq_exp_minus_1)
  have tb: "unat (take_bit n a) = unat a mod 2 ^ n"
    by (subst unsigned_take_bit_eq) (rule take_bit_eq_mod)
  have um: "unat (mask n :: u32) = 2 ^ n - 1"
  proof -
    have "unat (word_of_nat (mask n) :: u32) = mask n"
      using assms by (simp only: unsigned_of_nat take_bit_of_mask) simp
    then show ?thesis by (simp add: mask_eq_exp_minus_1)
  qed
  have "a = a OR mask n \<longleftrightarrow> take_bit n a = mask n"
  proof
    assume "a = a OR mask n"
    then have "take_bit n a = take_bit n (a OR mask n)" by simp
    also have "\<dots> = mask n" by (rule bit_word_eqI) (auto simp: bit_simps)
    finally show "take_bit n a = mask n" .
  next
    assume eq: "take_bit n a = mask n"
    show "a = a OR mask n"
    proof (rule bit_word_eqI)
      fix j assume "j < LENGTH(32)"
      have "bit (take_bit n a) j \<longleftrightarrow> bit (mask n :: u32) j" by (simp add: eq)
      then show "bit a j \<longleftrightarrow> bit (a OR mask n) j"
        by (auto simp: bit_simps)
    qed
  qed
  then show "a = a OR NOT (NOT (push_bit n 1 - 1)) \<longleftrightarrow> unat a mod 2 ^ n = 2 ^ n - 1"
    unfolding m bit.double_compl by (metis tb um unat_eq_iff_eq)
  have "a = a AND NOT (mask n) \<longleftrightarrow> take_bit n a = 0"
  proof
    assume "a = a AND NOT (mask n)"
    then have "take_bit n a = take_bit n (a AND NOT (mask n))" by simp
    also have "\<dots> = 0" by (rule bit_word_eqI) (auto simp: bit_simps)
    finally show "take_bit n a = 0" .
  next
    assume eq: "take_bit n a = 0"
    show "a = a AND NOT (mask n)"
    proof (rule bit_word_eqI)
      fix j assume "j < LENGTH(32)"
      have "\<not> bit (take_bit n a) j" by (simp add: eq)
      then show "bit a j \<longleftrightarrow> bit (a AND NOT (mask n)) j"
        by (auto simp: bit_simps dest: bit_imp_le_length)
    qed
  qed
  then show "a = a AND NOT (push_bit n 1 - 1) \<longleftrightarrow> unat a mod 2 ^ n = 0"
    unfolding m by (metis tb unat_eq_iff_eq unsigned_0)
qed

text \<open>
  An address of a configured IPv4 network of 1 to 30 mask bits that is not multicast,
  loopback, 0.0.0.0 or 255.255.255.255 is local, and is marked as a broadcast address
  exactly when its host part is all zeros or all ones, unless that check is disabled.
\<close>
theorem checkIP_subnet_broadcast:
  assumes "ipVersion ad = 4" and "local4 env (ipv4 ad) = Some nb" and "0 < nb" and "nb < 31"
    and "\<not> isBroadcastIPDisabled env"
    and "a = ntohl (ipv4 ad)" and "a \<noteq> 0" and "a \<noteq> 0xFFFFFFFF"
    and "a AND 0xF0000000 \<noteq> 0xE0000000" and "a AND 0xFF000000 \<noteq> 0x7F000000"
  shows "localIP (checkIP env ad)
    \<and> (broadcastIP (checkIP env ad) \<longleftrightarrow>
        unat a mod 2 ^ (32 - unat nb) \<in> {0, 2 ^ (32 - unat nb) - 1})"
proof -
  have n: "0 < 32 - unat nb" "32 - unat nb < 32"
    using assms(3,4) by (simp_all add: word_less_nat_alt)
  define ad' where "ad' = ad\<lparr>loopbackIP := (ipv4 ad = 0x0100007F), privateIP := is_private_v4 a,
    multicastIP := False, broadcastIP := False, localIP := True\<rparr>"
  have "checkIP env ad = (if a = a OR NOT (NOT (push_bit (32 - unat nb) 1 - 1))
        \<or> a = a AND NOT (push_bit (32 - unat nb) 1 - 1)
      then ad'\<lparr>broadcastIP := True\<rparr> else ad')"
    using assms by (simp add: checkIP_def checkIP_v4_def Let_def ad'_def ipv4_def)
  then show ?thesis
    unfolding host_part_tests [OF n] by (auto simp: ad'_def)
qed

theorem checkIP_subnet_broadcast_witness:
  "let env = no_nets\<lparr>local4 := \<lambda>_. Some 24\<rparr>;
       ad = zero_addr\<lparr>ipVersion := 4, ipType := [10, 1, 2, 255] @ replicate 12 0\<rparr>
   in broadcastIP (checkIP env ad)"
proof -
  define env where "env = no_nets\<lparr>local4 := \<lambda>_. Some 24\<rparr>"
  define ad where "ad = zero_addr\<lparr>ipVersion := 4, ipType := [10, 1, 2, 255] @ replicate 12 0\<rparr>"
  have a: "ntohl (ipv4 ad) = 0x0A0102FF" unfolding ad_def by code_simp
  then show ?thesis
    using checkIP_subnet_broadcast [of ad env 24 "0x0A0102FF"]
    by (simp add: env_def ad_def no_nets_def)
qed

section \<open>Printing\<close>

text \<open>Decimal numerals, the reference for the octets.\<close>

fun dec :: "nat \<Rightarrow> string" where
  "dec n = (if n < 10 then [digit n] else dec (n div 10) @ [digit (n mod 10)])"

declare dec.simps [simp del]

lemma push_byte_dec:
  assumes "b < 256"
  shows "push_byte b cp = dec b @ cp"
proof -
  have "b div 10 div 10 < 10" using assms by simp
  then show ?thesis
    by (auto simp: push_byte_def Let_def dec.simps [of b] dec.simps [of "b div 10"]
        dec.simps [of "b div 10 div 10"])
qed

lemma low_byte: "unat (a AND 0xff) = unat (byte_of 0 a)" for a :: u32
proof -
  have "a AND 0xff = take_bit 8 a"
    by (simp add: take_bit_eq_mask mask_numeral)
  then show ?thesis
    by (simp add: byte_of_def unsigned_ucast_eq) (simp add: unsigned_take_bit_eq)
qed

lemma byte_of_drop: "byte_of i (drop_bit 8 a) = byte_of (Suc i) a"
  by (rule bit_word_eqI) (simp add: bit_byte_of bit_simps ac_simps)

lemma byte_less: "unat (byte_of i a) < 256"
  using unsigned_less [of "byte_of i a"] by simp

lemma length_dec_byte: "b < 256 \<Longrightarrow> length (dec b) \<le> 3"
  by (simp add: dec.simps [of b] dec.simps [of "b div 10"] dec.simps [of "b div 10 div 10"])

text \<open>
  intoaV4 prints the four octets of an address, the most significant first, as decimal
  numerals separated by dots, and a buffer of 16 bytes is enough: it then never writes
  before the start of the buffer.
\<close>
theorem intoaV4_dotted:
  assumes "16 \<le> bufLen"
  shows "intoaV4 a bufLen =
    Inr (dec (unat (byte_of 3 a)) @ ''.'' @ dec (unat (byte_of 2 a)) @ ''.''
         @ dec (unat (byte_of 1 a)) @ ''.'' @ dec (unat (byte_of 0 a)))"
proof -
  have four: "(4::nat) = Suc (Suc (Suc (Suc 0)))" by simp
  have s: "intoaV4_loop 4 a [] = dec (unat (byte_of 3 a)) @ ''.'' @ dec (unat (byte_of 2 a)) @ ''.''
         @ dec (unat (byte_of 1 a)) @ ''.'' @ dec (unat (byte_of 0 a))"
    unfolding four
    by (simp add: numeral_2_eq_2 numeral_3_eq_3 low_byte byte_of_drop push_byte_dec byte_less
        del: drop_bit_drop_bit)
  have "length (intoaV4_loop 4 a []) \<le> 15"
    using length_dec_byte [OF byte_less, of 0 a] length_dec_byte [OF byte_less, of 1 a]
      length_dec_byte [OF byte_less, of 2 a] length_dec_byte [OF byte_less, of 3 a]
    by (simp add: s)
  moreover have "16 \<le> unat bufLen" using assms by (simp add: word_le_nat_alt)
  ultimately show ?thesis by (simp add: intoaV4_def Let_def s)
qed

theorem intoaV4_dotted_witness:
  "intoaV4 0x7F000001 16 = Inr ''127.0.0.1''"
proof -
  have "intoaV4 0x7F000001 16 = Inr (dec (unat (byte_of 3 0x7F000001)) @ ''.''
      @ dec (unat (byte_of 2 0x7F000001)) @ ''.'' @ dec (unat (byte_of 1 0x7F000001)) @ ''.''
      @ dec (unat (byte_of 0 0x7F000001)))"
    by (rule intoaV4_dotted) simp
  also have "\<dots> = Inr ''127.0.0.1''" by code_simp
  finally show ?thesis .
qed

text \<open>
  The IPv4 address that intoa prints for a prefix length of up to 32 bits is the
  network address: the address with its host part cleared.
\<close>
theorem masked_v4_network:
  assumes "bm \<le> 32"
  shows "unat (masked_v4 bm v) = unat (ntohl v) - unat (ntohl v) mod 2 ^ (32 - unat bm)"
proof (cases "bm = 0")
  case True
  have "unat (ntohl v) < 2 ^ 32" using unsigned_less [of "ntohl v"] by simp
  then show ?thesis
    using True by (simp add: masked_v4_def Let_def)
next
  case False
  define n where "n = 32 - unat bm"
  have n: "n < 32" using False by (simp add: n_def unat_gt_0)
  have lt: "unat (ntohl v) < 2 ^ 32" using unsigned_less [of "ntohl v"] by simp
  have "masked_v4 bm v = ntohl v AND NOT (mask n)"
    using assms False by (simp add: masked_v4_def Let_def n_def word_gt_0 mask_eq_exp_minus_1)
  also have "\<dots> = push_bit n (drop_bit n (ntohl v))"
    by (rule bit_word_eqI) (auto simp: bit_simps)
  finally have eq: "masked_v4 bm v = push_bit n (drop_bit n (ntohl v))" .
  have "unat (push_bit n (drop_bit n (ntohl v))) = unat (ntohl v) div 2 ^ n * 2 ^ n"
  proof -
    have "unat (ntohl v) div 2 ^ n * 2 ^ n < 2 ^ 32"
      using div_times_less_eq_dividend [of "unat (ntohl v)" "2 ^ n"] lt by (rule le_less_trans)
    then show ?thesis
      using n by (simp add: push_bit_eq_mult unat_word_ariths unat_drop_bit_div unat_exp_2)
  qed
  then show ?thesis
    by (simp add: eq n_def minus_mod_eq_div_mult)
qed

theorem masked_v4_network_witness:
  "unat (masked_v4 24 0x0502A8C0) = unat (ntohl 0x0502A8C0) - unat (ntohl 0x0502A8C0) mod 2 ^ 8"
  using masked_v4_network [of 24 "0x0502A8C0"] by simp

lemma mask6_loop_tail: "i \<le> 8 * (int k - int j) \<Longrightarrow> mask6_loop i j b ! k = b ! k"
proof (induction i j b rule: mask6_loop.induct)
  case (1 i j b)
  show ?case
  proof (cases "i > 0")
    case True
    then have "k \<noteq> j" using 1(2) by auto
    moreover have "i - 8 \<le> 8 * (int k - int (j + 1))" using 1(2) by simp
    ultimately show ?thesis
      using 1(1) [OF True] True by (subst mask6_loop.simps) simp
  next
    case False
    then show ?thesis by (subst mask6_loop.simps) simp
  qed
qed

text \<open>
  For IPv6 the mask of intoa clears nothing after the prefix: every byte at or after
  the end of the prefix is printed as it is in the address, so the printed network of a
  prefix shorter than 128 bits keeps the interface identifier of the host.
\<close>
theorem masked_v6_keeps_host_bytes:
  assumes "bm < 128" and "unat bm \<le> 8 * k"
  shows "masked_v6 bm b ! k = b ! k"
proof -
  have "bm \<le> 128" "bm \<noteq> 128" using assms(1) by auto
  moreover have "uint bm \<le> 8 * (int k - int 0)"
  proof -
    have "int (unat bm) \<le> int (8 * k)" using assms(2) by (simp only: of_nat_le_iff)
    then show ?thesis by (simp only: uint_nat [symmetric]) simp
  qed
  ultimately show ?thesis
    using mask6_loop_tail [of "uint bm" k 0 b] by (simp add: masked_v6_def Let_def)
qed

theorem masked_v6_keeps_host_bytes_witness:
  "masked_v6 64 (replicate 15 0x20 @ [0x42]) ! 15 = 0x42"
proof -
  have "masked_v6 64 (replicate 15 0x20 @ [0x42]) ! 15 = (replicate 15 0x20 @ [0x42 :: u8]) ! 15"
    by (rule masked_v6_keeps_host_bytes) simp_all
  also have "\<dots> = 0x42"
    by (simp only: nth_append length_replicate) simp
  finally show ?thesis .
qed

text \<open>
  C31: Mapping an IPv4 address into IPv6 and assigning the result with the check for mapped
  addresses gives the IPv4 address back, with its key; and an IPv4 address that is read as
  IPv6 bytes and assigned that way is unchanged.
\<close>
theorem mapped_roundtrip:
  "ipVersion (addr (IpAddress_set_v6 env (convertIPv4ToIPv6 v) True self)) = 4
   \<and> ipv4 (addr (IpAddress_set_v6 env (convertIPv4ToIPv6 v) True self)) = v
   \<and> ip_key (IpAddress_set_v6 env (convertIPv4ToIPv6 v) True self) = ntohl v"
proof -
  have c: "convertIPv4ToIPv6 v = replicate 10 0 @ [0xff, 0xff] @ bytes32 v"
    by (simp add: convertIPv4ToIPv6_def Let_def numeral_eq_Suc)
  have w: "u6_addr32 (convertIPv4ToIPv6 v) 0 = 0" "u6_addr32 (convertIPv4ToIPv6 v) 1 = 0"
    "u6_addr32 (convertIPv4ToIPv6 v) 2 = ntohl 0xffff" "u6_addr32 (convertIPv4ToIPv6 v) 3 = v"
  proof -
    show "u6_addr32 (convertIPv4ToIPv6 v) 0 = 0" "u6_addr32 (convertIPv4ToIPv6 v) 1 = 0"
      by (simp_all add: c u6_addr32_def nth_append le32_def)
    have "ntohl 0xffff = le32 0 0 0xff 0xff" by code_simp
    then show "u6_addr32 (convertIPv4ToIPv6 v) 2 = ntohl 0xffff"
      by (simp add: c u6_addr32_def nth_append)
    show "u6_addr32 (convertIPv4ToIPv6 v) 3 = v"
      by (simp add: c u6_addr32_def nth_append bytes32_def)
  qed
  have "isIPv4MappedAddress (convertIPv4ToIPv6 v)"
    by (simp add: isIPv4MappedAddress_def w w(2) [simplified])
  moreover have "ipv4 (set_ipv4 v (addr self)) = v"
    by (simp add: ipv4_def set_ipv4_def bytes32_def nth_append)
  moreover have "ipVersion (set_ipv4 v (addr self)) = 4"
    by (simp add: set_ipv4_def)
  ultimately show ?thesis
    by (simp add: IpAddress_set_v6_def IpAddress_set_v4_def w)
       (simp add: compute_key_def Let_def)
qed

end
