(* ===== verification/Icmp_Info.thy ===== *)
theory Icmp_Info
  imports Ip_Address
begin

text \<open>
  The ICMP information of a flow: src/include/ICMPinfo.h and src/src/ICMPinfo.cpp. The
  payload is the list of the captured bytes; a read outside of it is the error
  \<open>Heap_overflow\<close>. The layout of the IP and UDP headers is the one of the protocols
  (20 and 8 bytes, addresses at 12 and 16, protocol at 9, header length in the low nibble
  of byte 0). DONT_MERGE_ICMP_FLOWS is not defined in the build.
\<close>

record unreachable =
  u_src_ip :: IpAddress
  u_dst_ip :: IpAddress
  u_src_port :: u16
  u_dst_port :: u16
  u_protocol :: u16

record icmp_info =
  icmp_type :: u8
  icmp_code :: u8
  icmp_identifier :: u16
  unreach :: "unreachable option"

definition ICMPinfo_new :: icmp_info where
  "ICMPinfo_new = \<lparr> icmp_type = 0, icmp_code = 0, icmp_identifier = 0, unreach = None \<rparr>"

definition ICMPinfo_reset :: "icmp_info \<Rightarrow> icmp_info" where
  "ICMPinfo_reset i = i\<lparr>unreach := None, icmp_type := 0, icmp_code := 0, icmp_identifier := 0\<rparr>"

definition zero_ip :: IpAddress where
  "zero_ip = \<lparr> addr = zero_addr, ip_key = 0 \<rparr>"

definition ICMPinfo_copy :: "icmp_info \<Rightarrow> icmp_info" where
  "ICMPinfo_copy src =
     (let i = (ICMPinfo_reset ICMPinfo_new)\<lparr>icmp_type := icmp_type src, icmp_code := icmp_code src,
                icmp_identifier := icmp_identifier src\<rparr>
      in case unreach src of
           None \<Rightarrow> i
         | Some u \<Rightarrow>
             i\<lparr>unreach := Some
               \<lparr> u_src_ip = IpAddress_set_ip (u_src_ip u) zero_ip,
                 u_dst_ip = IpAddress_set_ip (u_dst_ip u) zero_ip,
                 u_src_port = u_src_port u, u_dst_port = u_dst_port u,
                 u_protocol = u_protocol u \<rparr>\<rparr>)"

definition ICMPinfo_key :: "icmp_info \<Rightarrow> u32" where
  "ICMPinfo_key i =
     (case unreach i of
        None \<Rightarrow> 0
      | Some u \<Rightarrow> ip_key (u_src_ip u) + ip_key (u_dst_ip u) + ucast (u_src_port u)
                  + ucast (u_dst_port u) + ucast (u_protocol u))"

section \<open>Dissection\<close>

definition get8 :: "u8 list \<Rightarrow> nat \<Rightarrow> c_error + u8" where
  "get8 p i = (if i < length p then Inr (p ! i) else Inl Heap_overflow)"

definition get16 :: "u8 list \<Rightarrow> nat \<Rightarrow> c_error + u16" where
  "get16 p i = (if i + 2 \<le> length p then Inr (le16 (p ! i) (p ! (i + 1))) else Inl Heap_overflow)"

definition get32 :: "u8 list \<Rightarrow> nat \<Rightarrow> c_error + u32" where
  "get32 p i =
     (if i + 4 \<le> length p then Inr (le32 (p ! i) (p ! (i + 1)) (p ! (i + 2)) (p ! (i + 3)))
      else Inl Heap_overflow)"

definition and_then :: "(c_error + 'a) \<Rightarrow> ('a \<Rightarrow> c_error + 'b) \<Rightarrow> c_error + 'b" where
  "and_then r f = (case r of Inl e \<Rightarrow> Inl e | Inr x \<Rightarrow> f x)"

lemma and_then_simps [simp]: "and_then (Inl e) f = Inl e" "and_then (Inr x) f = f x"
  by (simp_all add: and_then_def)

definition ICMP_ECHOREPLY :: u8 where "ICMP_ECHOREPLY = 0"
definition ICMP_DEST_UNREACH :: u8 where "ICMP_DEST_UNREACH = 3"
definition ICMP_ECHO :: u8 where "ICMP_ECHO = 8"
definition ICMP_TIMESTAMP :: u8 where "ICMP_TIMESTAMP = 13"
definition ICMP_TIMESTAMPREPLY :: u8 where "ICMP_TIMESTAMPREPLY = 14"
definition ICMP_INFO_REQUEST :: u8 where "ICMP_INFO_REQUEST = 15"
definition ICMP_INFO_REPLY :: u8 where "ICMP_INFO_REPLY = 16"
definition ICMP_HOST_UNREACH :: u8 where "ICMP_HOST_UNREACH = 1"
definition ICMP_PORT_UNREACH :: u8 where "ICMP_PORT_UNREACH = 3"
definition ICMP6_DEST_UNREACH :: u8 where "ICMP6_DEST_UNREACH = 1"
definition ICMP6_PORT_UNREACH :: u8 where "ICMP6_PORT_UNREACH = 4"
definition IPPROTO_ICMP :: u8 where "IPPROTO_ICMP = 1"
definition IPPROTO_UDP :: u8 where "IPPROTO_UDP = 17"

lemmas icmp_consts = ICMP_ECHOREPLY_def ICMP_DEST_UNREACH_def ICMP_ECHO_def ICMP_TIMESTAMP_def
  ICMP_TIMESTAMPREPLY_def ICMP_INFO_REQUEST_def ICMP_INFO_REPLY_def ICMP_HOST_UNREACH_def
  ICMP_PORT_UNREACH_def ICMP6_DEST_UNREACH_def ICMP6_PORT_UNREACH_def IPPROTO_ICMP_def
  IPPROTO_UDP_def

text \<open>
  The original datagram of a port-unreachable message starts at byte 8: its header length
  decides where its UDP header is.
\<close>

definition dissect_unreach ::
  "net_env \<Rightarrow> u16 \<Rightarrow> u8 list \<Rightarrow> icmp_info \<Rightarrow> c_error + icmp_info" where
  "dissect_unreach env payload_len p i =
     and_then (get8 p 8) (\<lambda>ver_ihl.
       let iph_len = unat (ver_ihl AND 0x0F) * 4
       in if unat payload_len \<ge> 8 + iph_len + 8 then
            and_then (get8 p 17) (\<lambda>proto.
              if proto = IPPROTO_UDP then
                and_then (get32 p 20) (\<lambda>saddr.
                and_then (get32 p 24) (\<lambda>daddr.
                and_then (get16 p (8 + iph_len)) (\<lambda>source.
                and_then (get16 p (8 + iph_len + 2)) (\<lambda>dest.
                  Inr (i\<lparr>unreach := Some
                    \<lparr> u_src_ip = IpAddress_set_v4 env saddr zero_ip,
                      u_dst_ip = IpAddress_set_v4 env daddr zero_ip,
                      u_src_port = source, u_dst_port = dest,
                      u_protocol = ucast proto \<rparr>\<rparr>)))))
              else Inr i)
          else Inr i)"

definition dissectICMP ::
  "net_env \<Rightarrow> u16 \<Rightarrow> u8 list \<Rightarrow> icmp_info \<Rightarrow> c_error + icmp_info" where
  "dissectICMP env payload_len p i0 =
     (let i = ICMPinfo_reset i0
      in if payload_len > 2 then
           and_then (get8 p 0) (\<lambda>ty. and_then (get8 p 1) (\<lambda>co.
             let i = i\<lparr>icmp_type := ty, icmp_code := co\<rparr>
             in if ty = ICMP_DEST_UNREACH \<and> co = ICMP_PORT_UNREACH \<and> payload_len \<ge> 28
                then dissect_unreach env payload_len p i
                else if (ty = ICMP_ECHO \<or> ty = ICMP_ECHOREPLY \<or> ty = ICMP_TIMESTAMP
                         \<or> ty = ICMP_TIMESTAMPREPLY \<or> ty = ICMP_INFO_REQUEST \<or> ty = ICMP_INFO_REPLY)
                        \<and> co = 0 \<and> payload_len > 5
                then and_then (get16 p 4) (\<lambda>w. Inr (i\<lparr>icmp_identifier := ntohs w\<rparr>))
                else Inr i))
         else Inr i)"

section \<open>Queries\<close>

definition ICMPinfo_equal :: "icmp_info \<Rightarrow> icmp_info option \<Rightarrow> bool" where
  "ICMPinfo_equal i other =
     (case other of
        None \<Rightarrow> False
      | Some j \<Rightarrow>
          (case (unreach i, unreach j) of
             (Some u, Some ur) \<Rightarrow>
               IpAddress_equal (u_src_ip u) (u_src_ip ur) \<and> IpAddress_equal (u_dst_ip u) (u_dst_ip ur)
               \<and> u_src_port u = u_src_port ur \<and> u_dst_port u = u_dst_port ur
               \<and> u_protocol u = u_protocol ur
           | _ \<Rightarrow> if icmp_identifier i \<noteq> 0 then icmp_identifier i = icmp_identifier j else True))"

definition isPortUnreachable :: "icmp_info \<Rightarrow> bool" where
  "isPortUnreachable i \<longleftrightarrow>
     icmp_type i = ICMP_DEST_UNREACH \<and> icmp_code i = ICMP_PORT_UNREACH
     \<or> icmp_type i = ICMP6_DEST_UNREACH \<and> icmp_code i = ICMP6_PORT_UNREACH"

definition isHostUnreachable :: "u8 \<Rightarrow> icmp_info \<Rightarrow> bool" where
  "isHostUnreachable proto i \<longleftrightarrow>
     proto = IPPROTO_ICMP \<and> icmp_type i = ICMP_DEST_UNREACH \<and> icmp_code i = ICMP_HOST_UNREACH"

section \<open>Properties\<close>

lemma dissect_unreach_safe:
  assumes "28 \<le> payload_len" and "unat payload_len \<le> length p"
  shows "\<exists>i'. dissect_unreach env payload_len p i = Inr i'"
proof -
  have len: "28 \<le> length p" using assms by (simp add: word_le_nat_alt)
  then show ?thesis
    using assms(2)
    by (auto simp: dissect_unreach_def Let_def get8_def get16_def get32_def)
qed

text \<open>A port-unreachable message about a UDP datagram from port 0x1234.\<close>

definition wit_unreach :: "u8 list" where
  "wit_unreach = [3, 3, 0, 0, 0, 0, 0, 0, 0x45] @ replicate 8 0 @ [17] @ replicate 2 0 @
     [10, 0, 0, 1, 10, 0, 0, 2, 0x12, 0x34, 0x56, 0x78] @ replicate 4 0"

lemma dissectICMP_total:
  assumes "unat payload_len \<le> length p"
  shows "\<exists>i'. dissectICMP env payload_len p i = Inr i'"
proof (cases "2 < payload_len")
  case True
  then have len: "2 < unat payload_len" by (simp add: word_less_nat_alt)
  then have g: "get8 p 0 = Inr (p ! 0)" "get8 p 1 = Inr (p ! 1)"
    using assms by (auto simp: get8_def)
  have "\<exists>w. get16 p 4 = Inr w" if "5 < payload_len"
    using that assms by (simp add: get16_def word_less_nat_alt)
  then show ?thesis
    using True g dissect_unreach_safe [OF _ assms]
    by (auto simp: dissectICMP_def Let_def)
next
  case False
  then show ?thesis by (simp add: dissectICMP_def Let_def)
qed

text \<open>
  C29: dissectICMP never reads outside the payload: whenever the given length does not
  exceed the captured bytes, it returns, for every content of the payload, including
  truncated packets and forged header lengths of the embedded datagram.
\<close>
theorem dissectICMP_memory_safe:
  assumes "unat payload_len \<le> length p"
  shows "\<exists>i'. dissectICMP env payload_len p i = Inr i'"
  using assms by (rule dissectICMP_total)

theorem dissectICMP_memory_safe_witness:
  "\<exists>i'. dissectICMP no_nets 4 [3, 3, 0, 0] ICMPinfo_new = Inr i'"
  using dissectICMP_memory_safe [of 4 "[3, 3, 0, 0]" no_nets ICMPinfo_new] by simp

text \<open>
  A port-unreachable message about a UDP datagram yields the addresses, the ports and
  the protocol of that datagram, wherever the header length of the datagram puts its UDP
  header, and the addresses have their keys computed.
\<close>
theorem dissectICMP_unreach_fields:
  assumes "unat payload_len \<le> length p" and "28 \<le> payload_len"
    and "p ! 0 = 3" and "p ! 1 = 3" and "p ! 17 = 17"
    and "l = unat (p ! 8 AND 0x0F) * 4" and "16 + l \<le> unat payload_len"
  shows "\<exists>i' u. dissectICMP env payload_len p i = Inr i' \<and> unreach i' = Some u
    \<and> ipv4 (addr (u_src_ip u)) = le32 (p ! 20) (p ! 21) (p ! 22) (p ! 23)
    \<and> ipv4 (addr (u_dst_ip u)) = le32 (p ! 24) (p ! 25) (p ! 26) (p ! 27)
    \<and> u_src_port u = le16 (p ! (8 + l)) (p ! (8 + l + 1))
    \<and> u_dst_port u = le16 (p ! (8 + l + 2)) (p ! (8 + l + 2 + 1))
    \<and> u_protocol u = 17 \<and> ip_keyed (u_src_ip u) \<and> ip_keyed (u_dst_ip u)"
proof -
  have len: "28 \<le> length p" "16 + l \<le> length p"
    using assms by (simp_all add: word_le_nat_alt)
  have keyed: "ip_keyed (IpAddress_set_v4 env v zero_ip)"
    and val: "ipv4 (addr (IpAddress_set_v4 env v zero_ip)) = v" for v
    unfolding IpAddress_set_v4_def
    by (rule compute_key_keyed) (simp_all add: set_ipv4_def ipv4_def bytes32_def)
  have "2 < payload_len" using assms(2) by (simp add: word_less_nat_alt word_le_nat_alt)
  then have "dissectICMP env payload_len p i = dissect_unreach env payload_len p
      ((ICMPinfo_reset i)\<lparr>icmp_type := 3, icmp_code := 3\<rparr>)"
    using assms(2-4) len by (auto simp: dissectICMP_def Let_def get8_def icmp_consts)
  moreover have "dissect_unreach env payload_len p j = Inr (j\<lparr>unreach := Some
      \<lparr> u_src_ip = IpAddress_set_v4 env (le32 (p ! 20) (p ! 21) (p ! 22) (p ! 23)) zero_ip,
        u_dst_ip = IpAddress_set_v4 env (le32 (p ! 24) (p ! 25) (p ! 26) (p ! 27)) zero_ip,
        u_src_port = le16 (p ! (8 + l)) (p ! (8 + l + 1)),
        u_dst_port = le16 (p ! (8 + l + 2)) (p ! (8 + l + 2 + 1)), u_protocol = 17 \<rparr>\<rparr>)" for j
    using assms(5-7) len
    by (simp add: dissect_unreach_def Let_def get8_def get16_def get32_def icmp_consts)
  ultimately show ?thesis
    by (simp add: keyed val)
qed

theorem dissectICMP_unreach_fields_witness:
  "\<exists>i' u. dissectICMP no_nets 36 wit_unreach ICMPinfo_new = Inr i'
    \<and> unreach i' = Some u \<and> u_src_port u = 0x3412"
proof -
  have "length wit_unreach = 36" "wit_unreach ! 0 = 3" "wit_unreach ! 1 = 3" "wit_unreach ! 17 = 17"
    "unat (wit_unreach ! 8 AND 0x0F) * 4 = 20" "le16 (wit_unreach ! 28) (wit_unreach ! 29) = 0x3412"
    by code_simp+
  then show ?thesis
    using dissectICMP_unreach_fields [of 36 wit_unreach 20 no_nets ICMPinfo_new] by auto
qed

end
