(* ===== verification/Traffic_Tables.thy ===== *)
theory Traffic_Tables
  imports Generic_Hash Icmp_Info
begin

text \<open>
  The tables of the traffic model over GenericHash: src/src/FlowHash.cpp with the identity
  of a flow (Flow::computeKey, Flow::equal in src/src/Flow.cpp), src/src/HostHash.cpp,
  MacHash.cpp, VLANHash.cpp, AutonomousSystemHash.cpp, CountriesHash.cpp,
  ObservationPointHash.cpp, VirtualHostHash.cpp and the hash functions of Utils.cpp they
  use. MAKE_OBSERVATION_POINT_KEY, USE_MAC_IN_KEY_WITH_DHCP, DONT_MERGE_ICMP_FLOWS and
  HAVE_NEDGE are not defined in the build. The counter of loops in FlowHash::find is only
  traced and is left out.
\<close>

section \<open>Lookup in a bucket\<close>

lemma find_chain_sound: "find_chain p c = Some e \<Longrightarrow> e \<in> set c \<and> \<not> idle e \<and> p e"
  by (induction c) (auto split: if_splits)

lemma find_chain_None_iff: "find_chain p c = None \<longleftrightarrow> (\<forall>e\<in>set c. idle e \<or> \<not> p e)"
  by (induction c) auto

lemma in_bucket_of_key:
  assumes "GenericHash_inv m h" and "e \<in> set (concat (table h))"
  shows "e \<in> set (table h ! unat (m_key m e mod num_hashes h))"
proof -
  from assms(2) obtain i where i: "i < length (table h)" "e \<in> set (table h ! i)"
    by (metis UN_E in_set_conv_nth set_concat)
  then have "unat (m_key m e mod num_hashes h) = i"
    using assms(1) by (auto simp: GenericHash_inv_def placed_def)
  with i show ?thesis by simp
qed

lemma hash_lookup_sound:
  assumes "GenericHash_inv m h" and "hash_lookup k p h = Some e"
  shows "e \<in> set (concat (table h)) \<and> \<not> idle e \<and> p e"
proof -
  have "unat (k mod num_hashes h) < length (table h)"
    using assms(1) by (simp add: GenericHash_inv_def unat_mod word_less_nat_alt)
  then show ?thesis
    using assms(2) find_chain_sound [of p "table h ! unat (k mod num_hashes h)" e] nth_mem
    by (auto simp: hash_lookup_def Let_def split: if_splits)
qed

lemma hash_lookup_complete:
  assumes "GenericHash_inv m h" and "e \<in> set (concat (table h))"
    and "\<not> idle e" and "p e" and "m_key m e = k"
  shows "\<exists>e'. hash_lookup k p h = Some e'"
proof -
  have "e \<in> set (table h ! unat (k mod num_hashes h))"
    using in_bucket_of_key [OF assms(1,2)] assms(5) by simp
  then show ?thesis
    using assms(3,4) find_chain_None_iff [of p "table h ! unat (k mod num_hashes h)"]
    by (auto simp: hash_lookup_def Let_def)
qed

section \<open>Flows\<close>

text \<open>
  The identity of a flow. A peer host is present (\<open>Some\<close>) with its MAC pointer, which may
  be null, or absent. Pointers to MAC objects are compared as addresses.
\<close>

record flow = flow_entry +
  cli_ip_addr :: "IpAddress option"
  srv_ip_addr :: "IpAddress option"
  cli_port :: u16
  srv_port :: u16
  vlanId :: u16
  privateFlowId :: u32
  protocol :: u8
  flow_icmp :: "icmp_info option"
  swap_requested :: bool
  flow_key :: u32
  cli_host :: "nat option option"
  srv_host :: "nat option option"

definition opt_ip_key :: "IpAddress option \<Rightarrow> u32" where
  "opt_ip_key ip = (case ip of None \<Rightarrow> 0 | Some i \<Rightarrow> ip_key i)"

definition opt_icmp_key :: "icmp_info option \<Rightarrow> u32" where
  "opt_icmp_key i = (case i of None \<Rightarrow> 0 | Some x \<Rightarrow> ICMPinfo_key x)"

definition Flow_computeKey :: "'m flow_scheme \<Rightarrow> 'm flow_scheme" where
  "Flow_computeKey f =
     f\<lparr>flow_key := ucast (cli_port f) + ucast (srv_port f) + ucast (vlanId f)
         + ucast (protocol f) + privateFlowId f
         + opt_ip_key (cli_ip_addr f) + opt_ip_key (srv_ip_addr f) + opt_icmp_key (flow_icmp f)\<rparr>"

text \<open>The tuple that a packet is looked up with.\<close>

record flow_tuple =
  t_src_mac :: "nat option"
  t_dst_mac :: "nat option"
  t_src_ip :: IpAddress
  t_dst_ip :: IpAddress
  t_src_port :: u16
  t_dst_port :: u16
  t_vlanId :: u16
  t_private_flow_id :: u32
  t_protocol :: u8
  t_icmp :: "icmp_info option"

definition opt_ip_equal :: "IpAddress option \<Rightarrow> IpAddress \<Rightarrow> bool" where
  "opt_ip_equal ip j = (case ip of None \<Rightarrow> False | Some i \<Rightarrow> IpAddress_equal i j)"

definition flow_mac_check :: "bool \<Rightarrow> nat option \<Rightarrow> nat option \<Rightarrow> 'm flow_scheme \<Rightarrow> bool" where
  "flow_mac_check useMac src_mac dst_mac f =
     (if useMac then
        if cli_host f \<noteq> None \<and> src_mac \<noteq> None \<and> the (cli_host f) \<noteq> src_mac then False
        else if src_mac \<noteq> None \<and> dst_mac \<noteq> None \<and> cli_host f \<noteq> None \<and> srv_host f \<noteq> None
                \<and> the (srv_host f) \<noteq> dst_mac then False
        else True
      else True)"

text \<open>The result, and the direction when the call sets it.\<close>

definition Flow_equal :: "bool \<Rightarrow> flow_tuple \<Rightarrow> 'm flow_scheme \<Rightarrow> bool \<times> bool option" where
  "Flow_equal useMac t f =
     (if privateFlowId f \<noteq> t_private_flow_id t then (False, None)
      else if vlanId f \<noteq> t_vlanId t then (False, None)
      else if t_protocol t \<noteq> protocol f then (False, None)
      else if opt_ip_equal (cli_ip_addr f) (t_src_ip t) \<and> opt_ip_equal (srv_ip_addr f) (t_dst_ip t)
              \<and> t_src_port t = cli_port f \<and> t_dst_port t = srv_port f
      then (flow_mac_check useMac (t_src_mac t) (t_dst_mac t) f, Some True)
      else if opt_ip_equal (srv_ip_addr f) (t_src_ip t) \<and> opt_ip_equal (cli_ip_addr f) (t_dst_ip t)
              \<and> t_dst_port t = cli_port f \<and> t_src_port t = srv_port f
      then (flow_mac_check useMac (t_dst_mac t) (t_src_mac t) f, Some False)
      else (False, None))"

definition FlowHash_hash :: "flow_tuple \<Rightarrow> u32" where
  "FlowHash_hash t =
     ip_key (t_src_ip t) + ip_key (t_dst_ip t) + opt_icmp_key (t_icmp t) + t_private_flow_id t
     + ucast (t_src_port t) + ucast (t_dst_port t) + ucast (t_vlanId t) + ucast (t_protocol t)"

record 'f find_result =
  found :: "'f option"
  unswapped :: "'f option"
  src2dst_direction :: bool

fun flow_find_chain ::
  "bool \<Rightarrow> flow_tuple \<Rightarrow> 'm flow_scheme list \<Rightarrow> bool \<Rightarrow> ('m flow_scheme) find_result" where
  "flow_find_chain useMac t [] dir = \<lparr> found = None, unswapped = None, src2dst_direction = dir \<rparr>"
| "flow_find_chain useMac t (head # next) dir =
     (if idle head then flow_find_chain useMac t next dir
      else
        let (eq, d) = Flow_equal useMac t head;
            dir = (case d of None \<Rightarrow> dir | Some x \<Rightarrow> x)
        in if eq then
             if swap_requested head
             then \<lparr> found = None, unswapped = Some head, src2dst_direction = dir \<rparr>
             else \<lparr> found = Some head, unswapped = None, src2dst_direction = dir \<rparr>
           else flow_find_chain useMac t next dir)"

definition FlowHash_find ::
  "bool \<Rightarrow> flow_tuple \<Rightarrow> bool \<Rightarrow> ('m flow_scheme) generic_hash \<Rightarrow> ('m flow_scheme) find_result" where
  "FlowHash_find useMac t dir h =
     (let hash = unat (FlowHash_hash t mod num_hashes h)
      in if table h ! hash = [] then \<lparr> found = None, unswapped = None, src2dst_direction = dir \<rparr>
         else flow_find_chain useMac t (table h ! hash) dir)"

definition FlowHash_findByKeyAndHashId ::
  "u32 \<Rightarrow> u32 \<Rightarrow> ('m flow_entry_scheme) generic_hash \<Rightarrow> 'm flow_entry_scheme option" where
  "FlowHash_findByKeyAndHashId key hash_id h =
     hash_lookup key (\<lambda>f. hash_entry_id f = hash_id) h"

text \<open>A flow whose addresses are well formed and whose key has been computed.\<close>

definition flow_keyed :: "'m flow_scheme \<Rightarrow> bool" where
  "flow_keyed f \<longleftrightarrow>
     flow_key f = flow_key (Flow_computeKey f)
     \<and> (\<forall>i. cli_ip_addr f = Some i \<or> srv_ip_addr f = Some i \<longrightarrow> ip_wf i \<and> ip_keyed i)"

definition tuple_keyed :: "flow_tuple \<Rightarrow> bool" where
  "tuple_keyed t \<longleftrightarrow> ip_wf (t_src_ip t) \<and> ip_keyed (t_src_ip t)
     \<and> ip_wf (t_dst_ip t) \<and> ip_keyed (t_dst_ip t)"

lemma opt_ip_equal_key:
  assumes "opt_ip_equal ip j" and "ip_wf j" and "ip_keyed j"
    and "\<forall>i. ip = Some i \<longrightarrow> ip_wf i \<and> ip_keyed i"
  shows "opt_ip_key ip = ip_key j"
proof (cases ip)
  case (Some i)
  then have e: "IpAddress_equal i j" "ip_wf i" "ip_keyed i"
    using assms(1,4) by (simp_all add: opt_ip_equal_def)
  then show ?thesis
    using Some ip_equal_key [OF e(2) assms(2) e(3) assms(3) e(1)]
    by (simp add: opt_ip_key_def)
qed (use assms(1) in \<open>simp add: opt_ip_equal_def\<close>)

lemma Flow_equal_same_key:
  assumes "fst (Flow_equal useMac t f)" and "flow_keyed f" and "tuple_keyed t"
    and "opt_icmp_key (flow_icmp f) = opt_icmp_key (t_icmp t)"
  shows "flow_key f = FlowHash_hash t"
proof -
  note kt = assms(3) [unfolded tuple_keyed_def]
  have ck: "\<forall>i. cli_ip_addr f = Some i \<longrightarrow> ip_wf i \<and> ip_keyed i"
    and sk: "\<forall>i. srv_ip_addr f = Some i \<longrightarrow> ip_wf i \<and> ip_keyed i"
    and fk: "flow_key f = flow_key (Flow_computeKey f)"
    using assms(2) by (auto simp: flow_keyed_def)
  have common: "privateFlowId f = t_private_flow_id t" "vlanId f = t_vlanId t"
    "protocol f = t_protocol t"
    using assms(1) by (auto simp: Flow_equal_def split: if_splits)
  consider (fwd) "opt_ip_equal (cli_ip_addr f) (t_src_ip t)" "opt_ip_equal (srv_ip_addr f) (t_dst_ip t)"
      "cli_port f = t_src_port t" "srv_port f = t_dst_port t"
    | (rev) "opt_ip_equal (srv_ip_addr f) (t_src_ip t)" "opt_ip_equal (cli_ip_addr f) (t_dst_ip t)"
      "cli_port f = t_dst_port t" "srv_port f = t_src_port t"
    using assms(1) by (auto simp: Flow_equal_def split: if_splits)
  then show ?thesis
  proof cases
    case fwd
    then show ?thesis
      using opt_ip_equal_key [OF fwd(1) _ _ ck] opt_ip_equal_key [OF fwd(2) _ _ sk] kt common assms(4) fk
      by (simp add: FlowHash_hash_def Flow_computeKey_def ac_simps)
  next
    case rev
    then show ?thesis
      using opt_ip_equal_key [OF rev(1) _ _ sk] opt_ip_equal_key [OF rev(2) _ _ ck] kt common assms(4) fk
      by (simp add: FlowHash_hash_def Flow_computeKey_def ac_simps)
  qed
qed

lemma flow_find_chain_sound:
  "(\<forall>f. found (flow_find_chain useMac t c dir) = Some f \<longrightarrow>
      f \<in> set c \<and> \<not> idle f \<and> fst (Flow_equal useMac t f) \<and> \<not> swap_requested f)
   \<and> (\<forall>f. unswapped (flow_find_chain useMac t c dir) = Some f \<longrightarrow>
      f \<in> set c \<and> \<not> idle f \<and> fst (Flow_equal useMac t f) \<and> swap_requested f)
   \<and> (found (flow_find_chain useMac t c dir) = None \<and> unswapped (flow_find_chain useMac t c dir) = None
      \<longleftrightarrow> (\<forall>f\<in>set c. idle f \<or> \<not> fst (Flow_equal useMac t f)))"
  by (induction c arbitrary: dir) (auto simp: split_beta Let_def)

text \<open>
  C3: A packet of either direction finds its flow. Whenever the table holds a flow that is
  not idle and that equals the packet's tuple, in the direction of the flow or in the
  opposite one, and both have the same ICMP key, the search reaches a flow that equals
  the tuple: it returns it, or remembers it as unswapped when its swap is requested; what
  it returns is in the table, live and equal to the tuple.
\<close>
theorem FlowHash_find_complete:
  assumes inv: "GenericHash_inv m h" and key: "m_key m = flow_key"
    and f: "f \<in> set (concat (table h))" "\<not> idle f" "fst (Flow_equal useMac t f)"
    and keyed: "flow_keyed f" "tuple_keyed t"
    and icmp: "opt_icmp_key (flow_icmp f) = opt_icmp_key (t_icmp t)"
  shows "\<exists>g. (found (FlowHash_find useMac t dir h) = Some g \<and> \<not> swap_requested g
        \<or> unswapped (FlowHash_find useMac t dir h) = Some g \<and> swap_requested g)
      \<and> g \<in> set (concat (table h)) \<and> \<not> idle g \<and> fst (Flow_equal useMac t g)"
proof -
  define c where "c = table h ! unat (FlowHash_hash t mod num_hashes h)"
  have "flow_key f = FlowHash_hash t"
    by (rule Flow_equal_same_key [OF f(3) keyed icmp])
  then have fc: "f \<in> set c"
    using in_bucket_of_key [OF inv f(1)] by (simp add: key c_def)
  have "unat (FlowHash_hash t mod num_hashes h) < length (table h)"
    using inv by (simp add: GenericHash_inv_def unat_mod word_less_nat_alt)
  then have sub: "set c \<subseteq> set (concat (table h))"
    unfolding c_def using nth_mem by fastforce
  have eq: "FlowHash_find useMac t dir h = flow_find_chain useMac t c dir"
    using fc by (auto simp: FlowHash_find_def Let_def c_def)
  note snd = flow_find_chain_sound [of useMac t c dir]
  have "found (flow_find_chain useMac t c dir) \<noteq> None \<or> unswapped (flow_find_chain useMac t c dir) \<noteq> None"
    using snd fc f(2,3) by metis
  then obtain g where g: "found (flow_find_chain useMac t c dir) = Some g
      \<or> unswapped (flow_find_chain useMac t c dir) = Some g"
    by (auto simp del: split_paired_Ex)
  then have "g \<in> set c \<and> \<not> idle g \<and> fst (Flow_equal useMac t g)
      \<and> (found (flow_find_chain useMac t c dir) = Some g \<longrightarrow> \<not> swap_requested g)
      \<and> (unswapped (flow_find_chain useMac t c dir) = Some g \<longrightarrow> swap_requested g)"
    using snd by auto
  with g sub show ?thesis
    unfolding eq by (intro exI [of _ g]) auto
qed

text \<open>
  The methods of a flow that the table calls; \<open>hk\<close> and \<open>su\<close> are the effects of
  Flow::housekeep and Flow::periodic_stats_update on the flow.
\<close>

definition Flow_methods ::
  "(int \<Rightarrow> 'm flow_scheme \<Rightarrow> 'm flow_scheme) \<Rightarrow> ('m flow_scheme \<Rightarrow> 'm flow_scheme) \<Rightarrow>
     idle_prefs \<Rightarrow> bool \<Rightarrow> ('m flow_scheme) entry_methods" where
  "Flow_methods hk su pr collected =
     \<lparr> m_key = flow_key, m_set_id = Flow_set_hash_entry_id, m_stats_update = su,
       m_housekeep = hk, m_idle_ready = Flow_idle_ready pr collected,
       m_set_idle = set_hash_entry_state_idle \<rparr>"

interpretation quiet_flow_class: hash_entry_class "Flow_methods (\<lambda>t f. f) (\<lambda>f. f) pr collected"
  by unfold_locales
     (simp_all add: Flow_methods_def Flow_set_hash_entry_id_def set_hash_entry_state_idle_def
       set_state_def idle_def)

text \<open>A table with one TCP flow, for the witness.\<close>

definition wit_prefs :: idle_prefs where
  "wit_prefs = \<lparr> local_host_max_idle = 300, non_local_host_max_idle = 60,
     mac_address_cache_duration = 300, flow_max_idle = 60 \<rparr>"

definition wit_ip :: "u32 \<Rightarrow> IpAddress" where
  "wit_ip v = IpAddress_set_v4 no_nets v (IpAddress_new no_nets)"

definition wit_flow :: flow where
  "wit_flow = Flow_computeKey
     \<lparr> ptr = 9, hash_entry_state = hash_entry_state_active, num_uses = 0, first_seen = 1,
       last_seen = 2, hash_entry_id = 0, creation_time = 1, is_tcp = True,
       src2dst_tcp_flags = 0x12, dst2src_tcp_flags = 0x12,
       cli_ip_addr = Some (wit_ip 1), srv_ip_addr = Some (wit_ip 2), cli_port = 1000,
       srv_port = 80, vlanId = 0, privateFlowId = 0, protocol = 6, flow_icmp = None,
       swap_requested = False, flow_key = 0, cli_host = None, srv_host = None \<rparr>"

definition wit_flow_methods :: "flow entry_methods" where
  "wit_flow_methods = Flow_methods (\<lambda>t f. f) (\<lambda>f. f) wit_prefs False"

definition wit_flow_hash :: "flow generic_hash" where
  "wit_flow_hash = snd (GenericHash_add wit_flow_methods wit_flow (GenericHash_new wit_iface 4 100))"

definition wit_reply :: flow_tuple where
  "wit_reply = \<lparr> t_src_mac = None, t_dst_mac = None, t_src_ip = wit_ip 2, t_dst_ip = wit_ip 1,
     t_src_port = 80, t_dst_port = 1000, t_vlanId = 0, t_private_flow_id = 0,
     t_protocol = 6, t_icmp = None \<rparr>"

lemma wit_flow_hash_inv: "GenericHash_inv wit_flow_methods wit_flow_hash"
  unfolding wit_flow_hash_def wit_flow_methods_def
  by (rule quiet_flow_class.add_inv, rule GenericHash_new_inv)
     (simp_all add: GenericHash_new_def Let_def queued_def)

lemma wit_ip_ok: "ip_wf (wit_ip v) \<and> ip_keyed (wit_ip v)"
  using ip_apply_ok [of "IpAddress_new no_nets" "Op_v4 v" "\<lambda>_. None" no_nets "\<lambda>_. 0"]
    IpAddress_new_ok [of no_nets]
  by (simp add: ip_op_ok_def wit_ip_def)

theorem FlowHash_find_complete_witness:
  "\<exists>g. found (FlowHash_find False wit_reply True wit_flow_hash) = Some g
     \<or> unswapped (FlowHash_find False wit_reply True wit_flow_hash) = Some g"
proof -
  have t: "concat (table wit_flow_hash) = [Flow_set_hash_entry_id 0x03000000 wit_flow]"
    by code_simp
  have live: "\<not> idle (Flow_set_hash_entry_id 0x03000000 wit_flow)"
    "fst (Flow_equal False wit_reply (Flow_set_hash_entry_id 0x03000000 wit_flow))"
    by code_simp+
  have "flow_keyed (Flow_set_hash_entry_id 0x03000000 wit_flow)" "tuple_keyed wit_reply"
    using wit_ip_ok
    by (auto simp: flow_keyed_def tuple_keyed_def wit_flow_def wit_reply_def Flow_computeKey_def
        Flow_set_hash_entry_id_def)
  moreover have "opt_icmp_key (flow_icmp (Flow_set_hash_entry_id 0x03000000 wit_flow))
      = opt_icmp_key (t_icmp wit_reply)"
    by (simp add: wit_flow_def wit_reply_def Flow_computeKey_def Flow_set_hash_entry_id_def)
  moreover have "m_key wit_flow_methods = flow_key"
    by (simp add: wit_flow_methods_def Flow_methods_def)
  ultimately show ?thesis
    using FlowHash_find_complete [OF wit_flow_hash_inv _ _ live, of True] t by auto
qed

section \<open>The other tables\<close>

record host = hash_entry +
  host_ip :: IpAddress
  host_vlan_id :: u16
  host_observation_point :: u16
  host_mac :: "nat option"

text \<open>\<open>useMac\<close> is the preference to use MAC addresses in keys; \<open>mac\<close> is the pointer passed.\<close>

definition HostHash_get ::
  "bool \<Rightarrow> u16 \<Rightarrow> IpAddress \<Rightarrow> nat option \<Rightarrow> u16 \<Rightarrow> ('m host_scheme) generic_hash \<Rightarrow>
     'm host_scheme option" where
  "HostHash_get useMac vlan key mac0 obs h =
     (let mac = (if useMac then mac0 else None)
      in hash_lookup (ip_key key)
           (\<lambda>e. host_vlan_id e = vlan \<and> host_observation_point e = obs
                \<and> IpAddress_compare (host_ip e) (Some key) = 0
                \<and> (mac = None \<or> mac = host_mac e)) h)"

record mac_entry = hash_entry +
  mac_bytes :: "u8 list"

definition macHash :: "u8 list option \<Rightarrow> u32" where
  "macHash mac =
     (case mac of None \<Rightarrow> 0
      | Some b \<Rightarrow> fold (\<lambda>i k. k + push_bit (i + 1) (ucast (b ! i))) [0..<6] 0)"

definition MacHash_get ::
  "u8 list option \<Rightarrow> ('m mac_entry_scheme) generic_hash \<Rightarrow> 'm mac_entry_scheme option" where
  "MacHash_get mac h =
     (case mac of None \<Rightarrow> None
      | Some b \<Rightarrow> hash_lookup (macHash (Some b)) (\<lambda>e. take 6 (mac_bytes e) = take 6 b) h)"

text \<open>Entries identified by a number: VLANs, autonomous systems, observation points.\<close>

record num_entry = hash_entry +
  entry_num :: u32

definition VLANHash_get :: "u16 \<Rightarrow> ('m num_entry_scheme) generic_hash \<Rightarrow> 'm num_entry_scheme option" where
  "VLANHash_get vlan h = hash_lookup (ucast vlan) (\<lambda>e. entry_num e = ucast vlan) h"

text \<open>\<open>getAS\<close> is the geolocation database.\<close>

definition AutonomousSystemHash_get ::
  "(IpAddress \<Rightarrow> u32) \<Rightarrow> IpAddress \<Rightarrow> ('m num_entry_scheme) generic_hash \<Rightarrow>
     'm num_entry_scheme option" where
  "AutonomousSystemHash_get getAS ipa h =
     (let asn = getAS ipa in hash_lookup asn (\<lambda>e. entry_num e = asn) h)"

definition ObservationPointHash_get ::
  "u16 \<Rightarrow> ('m num_entry_scheme) generic_hash \<Rightarrow> 'm num_entry_scheme option" where
  "ObservationPointHash_get obs h =
     (if obs = 0 \<or> obs = -1 then None
      else hash_lookup (ucast obs) (\<lambda>e. entry_num e = ucast obs) h)"

text \<open>Entries identified by a name: countries and virtual hosts. A \<open>char\<close> is signed.\<close>

record name_entry = hash_entry +
  entry_name :: string

fun stringHash_loop :: "string \<Rightarrow> nat \<Rightarrow> u32 \<Rightarrow> u32" where
  "stringHash_loop [] pos hash = hash"
| "stringHash_loop (c # cs) pos hash =
     (let hash = hash + push_bit pos (word_of_int (sint (of_char c :: u8)));
          pos = pos + 8
      in stringHash_loop cs (if pos = 32 then 0 else pos) hash)"

definition stringHash :: "string \<Rightarrow> u32" where
  "stringHash s = stringHash_loop s 0 0"

definition hashString :: "string \<Rightarrow> u32" where
  "hashString key =
     fold (\<lambda>i hash. hash + word_of_int (sint (of_char (key ! i) :: u8)) * of_nat i)
       [0..<length key] 0"

definition CountriesHash_get ::
  "string \<Rightarrow> ('m name_entry_scheme) generic_hash \<Rightarrow> 'm name_entry_scheme option" where
  "CountriesHash_get name h = hash_lookup (stringHash name) (\<lambda>e. entry_name e = name) h"

definition VirtualHostHash_get ::
  "string \<Rightarrow> ('m name_entry_scheme) generic_hash \<Rightarrow> 'm name_entry_scheme option" where
  "VirtualHostHash_get name h = hash_lookup (hashString name) (\<lambda>e. entry_name e = name) h"

definition incNumHTTPEntries :: "u32 \<Rightarrow> u32" where
  "incNumHTTPEntries n = n + 1"

definition decNumHTTPEntries :: "u32 \<Rightarrow> u32" where
  "decNumHTTPEntries n = (if n > 0 then n - 1 else n)"

text \<open>
  HostHash::get finds a host by address: when the table holds a live host of the same
  VLAN and observation point whose address equals the searched one (and whose MAC matches
  if MACs are part of the key), a host with these properties is returned; and what is
  returned has them.
\<close>
theorem HostHash_get_correct:
  assumes inv: "GenericHash_inv m h" and key: "m_key m = (\<lambda>e. ip_key (host_ip e))"
    and wf: "ip_wf ip" "ip_keyed ip" "\<forall>e\<in>set (concat (table h)). ip_wf (host_ip e) \<and> ip_keyed (host_ip e)"
  shows "(case HostHash_get useMac vlan ip mac obs h of
       Some e \<Rightarrow> e \<in> set (concat (table h)) \<and> \<not> idle e \<and> host_vlan_id e = vlan
         \<and> host_observation_point e = obs \<and> IpAddress_equal (host_ip e) ip
         \<and> (useMac \<and> mac \<noteq> None \<longrightarrow> mac = host_mac e)
     | None \<Rightarrow> \<not> (\<exists>e\<in>set (concat (table h)). \<not> idle e \<and> host_vlan_id e = vlan
         \<and> host_observation_point e = obs \<and> IpAddress_equal (host_ip e) ip
         \<and> (useMac \<and> mac \<noteq> None \<longrightarrow> mac = host_mac e)))"
proof -
  define p where "p = (\<lambda>e :: 'a host_scheme. host_vlan_id e = vlan \<and> host_observation_point e = obs
      \<and> IpAddress_equal (host_ip e) ip \<and> (useMac \<and> mac \<noteq> None \<longrightarrow> mac = host_mac e))"
  have get: "HostHash_get useMac vlan ip mac obs h = hash_lookup (ip_key ip) p h"
    unfolding HostHash_get_def Let_def p_def
    by (rule arg_cong2 [where f = "hash_lookup (ip_key ip)"]) (auto simp: IpAddress_equal_def fun_eq_iff)
  show ?thesis
  proof (cases "hash_lookup (ip_key ip) p h")
    case None
    have "\<not> p e" if "e \<in> set (concat (table h))" "\<not> idle e" for e
    proof
      assume "p e"
      then have "m_key m e = ip_key ip"
        using ip_equal_key [of "host_ip e" ip] wf that(1) by (auto simp: key p_def)
      with \<open>p e\<close> that show False
        using hash_lookup_complete [OF inv that, of p "ip_key ip"] None by auto
    qed
    then show ?thesis using None by (auto simp: get p_def)
  next
    case (Some e)
    then show ?thesis using hash_lookup_sound [OF inv Some] by (simp add: get p_def)
  qed
qed

text \<open>A table without hosts, for the witness.\<close>

definition wit_host_methods :: "host entry_methods" where
  "wit_host_methods = \<lparr> m_key = (\<lambda>e. ip_key (host_ip e)), m_set_id = (\<lambda>i e. e),
     m_stats_update = (\<lambda>e. e), m_housekeep = (\<lambda>t e. e), m_idle_ready = (\<lambda>ifc e. False),
     m_set_idle = set_hash_entry_state_idle \<rparr>"

interpretation quiet_host_class: hash_entry_class wit_host_methods
  by unfold_locales
     (simp_all add: wit_host_methods_def set_hash_entry_state_idle_def set_state_def idle_def)

definition wit_host :: host where
  "wit_host = \<lparr> ptr = 5, hash_entry_state = hash_entry_state_active, num_uses = 0, first_seen = 1,
     last_seen = 2, host_ip = wit_ip 0x0100A8C0, host_vlan_id = 3, host_observation_point = 0,
     host_mac = None \<rparr>"

definition wit_host_hash :: "host generic_hash" where
  "wit_host_hash = snd (GenericHash_add wit_host_methods wit_host (GenericHash_new wit_iface 4 100))"

lemma wit_host_hash_inv: "GenericHash_inv wit_host_methods wit_host_hash"
  unfolding wit_host_hash_def
  by (rule quiet_host_class.add_inv, rule GenericHash_new_inv)
     (simp_all add: GenericHash_new_def Let_def queued_def)

theorem HostHash_get_correct_witness:
  "\<exists>e. HostHash_get False 3 (wit_ip 0x0100A8C0) None 0 wit_host_hash = Some e
     \<and> IpAddress_equal (host_ip e) (wit_ip 0x0100A8C0)"
proof -
  have t: "concat (table wit_host_hash) = [wit_host]"
    by code_simp
  have h: "\<not> idle wit_host \<and> host_vlan_id wit_host = 3 \<and> host_observation_point wit_host = 0
      \<and> IpAddress_equal (host_ip wit_host) (wit_ip 0x0100A8C0)"
    by code_simp
  have "ip_wf (host_ip wit_host) \<and> ip_keyed (host_ip wit_host)"
    using wit_ip_ok by (simp add: wit_host_def)
  then show ?thesis
    using HostHash_get_correct [OF wit_host_hash_inv, where ip = "wit_ip 0x0100A8C0"
        and useMac = False and vlan = 3 and mac = None and obs = 0]
      h wit_ip_ok [of "0x0100A8C0"] unfolding t
    by (auto simp: wit_host_methods_def split: option.splits)
qed

end
