(* ===== verification/Scores.thy ===== *)
theory Scores
  imports Prelude
begin

text \<open>
  The score of a host, an autonomous system or a country: src/src/ScoreCounter.cpp,
  ScoreStats.cpp, ViewScoreStats.cpp, Score.cpp and their headers. A decrement does not
  show at once: the value read decays linearly for a minute from the old value to the
  new one. The product \<open>(u_int32_t)(alpha * t_past)\<close> of the decay is single-precision
  arithmetic; it is the argument \<open>fdecay\<close> applied to the drop (old minus new value, from
  which alpha is computed) and the seconds passed. The Lua and JSON breakdowns print.
\<close>

section \<open>ScoreCounter\<close>

record score_counter =
  sc_value :: u32
  sc_decay_time :: u32
  sc_beta :: u32
  sc_drop :: u32

definition DEFAULT_DECAY_TIME :: u32 where "DEFAULT_DECAY_TIME = 60"

definition ScoreCounter_new :: score_counter where
  "ScoreCounter_new = \<lparr> sc_value = 0, sc_decay_time = 0, sc_beta = 0, sc_drop = 0 \<rparr>"

definition ScoreCounter_inc :: "u16 \<Rightarrow> score_counter \<Rightarrow> u32 \<times> score_counter" where
  "ScoreCounter_inc score c =
     (let v = sc_value c + ucast score in (v, c\<lparr>sc_value := v, sc_decay_time := 0\<rparr>))"

definition ScoreCounter_dec :: "u32 \<Rightarrow> u16 \<Rightarrow> score_counter \<Rightarrow> u32 \<times> score_counter" where
  "ScoreCounter_dec now score c =
     (if sc_value c \<ge> ucast score then
        let old_value = sc_value c; v = old_value - ucast score
        in (v, c\<lparr>sc_value := v, sc_decay_time := now + DEFAULT_DECAY_TIME,
                 sc_drop := old_value - v, sc_beta := old_value\<rparr>)
      else (0, c\<lparr>sc_value := 0\<rparr>))"

definition ScoreCounter_get ::
  "(u32 \<Rightarrow> u32 \<Rightarrow> u32) \<Rightarrow> u32 \<Rightarrow> score_counter \<Rightarrow> u32 \<times> score_counter" where
  "ScoreCounter_get fdecay now c =
     (if sc_decay_time c = 0 then (sc_value c, c)
      else if sc_decay_time c < now then (sc_value c, c\<lparr>sc_decay_time := 0\<rparr>)
      else
        let t_diff = sc_decay_time c - now; t_past = DEFAULT_DECAY_TIME - t_diff
        in (sc_beta c - fdecay (sc_drop c) t_past, c))"

section \<open>ScoreStats and ViewScoreStats\<close>

datatype score_category = score_category_network | score_category_security

fun score_cat :: "score_category \<Rightarrow> nat" where
  "score_cat score_category_network = 0"
| "score_cat score_category_security = 1"

definition MAX_NUM_SCORE_CATEGORIES :: nat where "MAX_NUM_SCORE_CATEGORIES = 2"

record score_stats =
  cli_score :: "score_counter list"
  srv_score :: "score_counter list"
  is_view :: bool
  cli_dec :: "score_counter list"
  srv_dec :: "score_counter list"

definition ScoreStats_new :: "bool \<Rightarrow> score_stats" where
  "ScoreStats_new view =
     (let z = replicate MAX_NUM_SCORE_CATEGORIES ScoreCounter_new
      in \<lparr> cli_score = z, srv_score = z, is_view = view, cli_dec = z, srv_dec = z \<rparr>)"

fun ScoreStats_sum ::
  "(u32 \<Rightarrow> u32 \<Rightarrow> u32) \<Rightarrow> u32 \<Rightarrow> score_counter list \<Rightarrow> u64 \<times> score_counter list" where
  "ScoreStats_sum fdecay now [] = (0, [])"
| "ScoreStats_sum fdecay now (c # cs) =
     (let (v, c1) = ScoreCounter_get fdecay now c; (s, cs1) = ScoreStats_sum fdecay now cs
      in (ucast v + s, c1 # cs1))"

definition inc_at :: "u16 \<Rightarrow> score_category \<Rightarrow> score_counter list \<Rightarrow> score_counter list" where
  "inc_at score cat cs = cs[score_cat cat := snd (ScoreCounter_inc score (cs ! score_cat cat))]"

definition dec_at :: "u32 \<Rightarrow> u16 \<Rightarrow> score_category \<Rightarrow> score_counter list \<Rightarrow> score_counter list" where
  "dec_at now score cat cs = cs[score_cat cat := snd (ScoreCounter_dec now score (cs ! score_cat cat))]"

definition ScoreStats_incValue ::
  "u16 \<Rightarrow> score_category \<Rightarrow> bool \<Rightarrow> score_stats \<Rightarrow> u16 \<times> score_stats" where
  "ScoreStats_incValue score cat as_client s =
     (score, if as_client then s\<lparr>cli_score := inc_at score cat (cli_score s)\<rparr>
             else s\<lparr>srv_score := inc_at score cat (srv_score s)\<rparr>)"

text \<open>On a view interface a decrement is an increment of a separate counter.\<close>

definition ScoreStats_decValue ::
  "u32 \<Rightarrow> u16 \<Rightarrow> score_category \<Rightarrow> bool \<Rightarrow> score_stats \<Rightarrow> u16 \<times> score_stats" where
  "ScoreStats_decValue now score cat as_client s =
     (score,
      if is_view s then
        (if as_client then s\<lparr>cli_dec := inc_at score cat (cli_dec s)\<rparr>
         else s\<lparr>srv_dec := inc_at score cat (srv_dec s)\<rparr>)
      else
        (if as_client then s\<lparr>cli_score := dec_at now score cat (cli_score s)\<rparr>
         else s\<lparr>srv_score := dec_at now score cat (srv_score s)\<rparr>))"

definition ScoreStats_getClient :: "(u32 \<Rightarrow> u32 \<Rightarrow> u32) \<Rightarrow> u32 \<Rightarrow> score_stats \<Rightarrow> u64 \<times> score_stats" where
  "ScoreStats_getClient fdecay now s =
     (let (v, cs) = ScoreStats_sum fdecay now (cli_score s)
      in if is_view s then
           let (d, ds) = ScoreStats_sum fdecay now (cli_dec s)
           in (v - d, s\<lparr>cli_score := cs, cli_dec := ds\<rparr>)
         else (v, s\<lparr>cli_score := cs\<rparr>))"

definition ScoreStats_getServer :: "(u32 \<Rightarrow> u32 \<Rightarrow> u32) \<Rightarrow> u32 \<Rightarrow> score_stats \<Rightarrow> u64 \<times> score_stats" where
  "ScoreStats_getServer fdecay now s =
     (let (v, cs) = ScoreStats_sum fdecay now (srv_score s)
      in if is_view s then
           let (d, ds) = ScoreStats_sum fdecay now (srv_dec s)
           in (v - d, s\<lparr>srv_score := cs, srv_dec := ds\<rparr>)
         else (v, s\<lparr>srv_score := cs\<rparr>))"

text \<open>The getters by category; on a view the two 32-bit values are subtracted.\<close>

definition get_at ::
  "(u32 \<Rightarrow> u32 \<Rightarrow> u32) \<Rightarrow> u32 \<Rightarrow> score_category \<Rightarrow> score_counter list \<Rightarrow> u32 \<times> score_counter list" where
  "get_at fdecay now cat cs =
     (let (v, c) = ScoreCounter_get fdecay now (cs ! score_cat cat) in (v, cs[score_cat cat := c]))"

definition ScoreStats_getClient_cat ::
  "(u32 \<Rightarrow> u32 \<Rightarrow> u32) \<Rightarrow> u32 \<Rightarrow> score_category \<Rightarrow> score_stats \<Rightarrow> u32 \<times> score_stats" where
  "ScoreStats_getClient_cat fdecay now cat s =
     (let (v, cs) = get_at fdecay now cat (cli_score s)
      in if is_view s then
           let (d, ds) = get_at fdecay now cat (cli_dec s)
           in (v - d, s\<lparr>cli_score := cs, cli_dec := ds\<rparr>)
         else (v, s\<lparr>cli_score := cs\<rparr>))"

definition ScoreStats_getServer_cat ::
  "(u32 \<Rightarrow> u32 \<Rightarrow> u32) \<Rightarrow> u32 \<Rightarrow> score_category \<Rightarrow> score_stats \<Rightarrow> u32 \<times> score_stats" where
  "ScoreStats_getServer_cat fdecay now cat s =
     (let (v, cs) = get_at fdecay now cat (srv_score s)
      in if is_view s then
           let (d, ds) = get_at fdecay now cat (srv_dec s)
           in (v - d, s\<lparr>srv_score := cs, srv_dec := ds\<rparr>)
         else (v, s\<lparr>srv_score := cs\<rparr>))"

definition ScoreStats_get :: "(u32 \<Rightarrow> u32 \<Rightarrow> u32) \<Rightarrow> u32 \<Rightarrow> score_stats \<Rightarrow> u64 \<times> score_stats" where
  "ScoreStats_get fdecay now s =
     (let (c, s1) = ScoreStats_getClient fdecay now s; (v, s2) = ScoreStats_getServer fdecay now s1
      in (c + v, s2))"

section \<open>Score\<close>

record score_holder =
  view_interface_score :: bool
  score_ptr :: "score_stats option"

definition Score_new :: "bool \<Rightarrow> score_holder" where
  "Score_new isView = \<lparr> view_interface_score = isView, score_ptr = None \<rparr>"

definition Score_incScoreValue ::
  "u16 \<Rightarrow> score_category \<Rightarrow> bool \<Rightarrow> score_holder \<Rightarrow> u16 \<times> score_holder" where
  "Score_incScoreValue v cat as_client h =
     (let s = (case score_ptr h of None \<Rightarrow> ScoreStats_new (view_interface_score h) | Some s \<Rightarrow> s);
          (r, s1) = ScoreStats_incValue v cat as_client s
      in (r, h\<lparr>score_ptr := Some s1\<rparr>))"

definition Score_decScoreValue ::
  "u32 \<Rightarrow> u16 \<Rightarrow> score_category \<Rightarrow> bool \<Rightarrow> score_holder \<Rightarrow> u16 \<times> score_holder" where
  "Score_decScoreValue now v cat as_client h =
     (case score_ptr h of
        None \<Rightarrow> (0, h)
      | Some s \<Rightarrow> let (r, s1) = ScoreStats_decValue now v cat as_client s
                  in (r, h\<lparr>score_ptr := Some s1\<rparr>))"

definition with_score ::
  "(score_stats \<Rightarrow> u64 \<times> score_stats) \<Rightarrow> score_holder \<Rightarrow> u32 \<times> score_holder" where
  "with_score getter h =
     (case score_ptr h of
        None \<Rightarrow> (0, h)
      | Some s \<Rightarrow> let (v, s1) = getter s in (ucast v, h\<lparr>score_ptr := Some s1\<rparr>))"

definition getScore :: "(u32 \<Rightarrow> u32 \<Rightarrow> u32) \<Rightarrow> u32 \<Rightarrow> score_holder \<Rightarrow> u32 \<times> score_holder" where
  "getScore fdecay now = with_score (ScoreStats_get fdecay now)"

definition getScoreAsClient :: "(u32 \<Rightarrow> u32 \<Rightarrow> u32) \<Rightarrow> u32 \<Rightarrow> score_holder \<Rightarrow> u32 \<times> score_holder" where
  "getScoreAsClient fdecay now = with_score (ScoreStats_getClient fdecay now)"

definition getScoreAsServer :: "(u32 \<Rightarrow> u32 \<Rightarrow> u32) \<Rightarrow> u32 \<Rightarrow> score_holder \<Rightarrow> u32 \<times> score_holder" where
  "getScoreAsServer fdecay now = with_score (ScoreStats_getServer fdecay now)"

section \<open>The value behind the decay\<close>

datatype score_op = Inc u16 | Dec u32 u16

fun sc_apply :: "score_op \<Rightarrow> score_counter \<Rightarrow> score_counter" where
  "sc_apply (Inc s) c = snd (ScoreCounter_inc s c)"
| "sc_apply (Dec now s) c = snd (ScoreCounter_dec now s c)"

text \<open>The exact balance, when no prefix of the history takes more than was given.\<close>

fun sc_balance :: "score_op list \<Rightarrow> nat \<Rightarrow> nat option" where
  "sc_balance [] b = Some b"
| "sc_balance (Inc s # ops) b = (if b + unat s < 2 ^ 32 then sc_balance ops (b + unat s) else None)"
| "sc_balance (Dec now s # ops) b = (if unat s \<le> b then sc_balance ops (b - unat s) else None)"

lemma unat_ucast_u16: "unat (ucast (s::u16) :: u32) = unat s"
proof -
  have "unat s < 2 ^ 16" using unsigned_less [of s] by simp
  then show ?thesis by (simp add: unsigned_ucast_eq take_bit_nat_eq_self)
qed

lemma ScoreCounter_inc_value:
  assumes "unat (sc_value c) + unat s < 2 ^ 32"
  shows "unat (sc_value (snd (ScoreCounter_inc s c))) = unat (sc_value c) + unat s"
  using assms by (simp add: ScoreCounter_inc_def Let_def unat_word_ariths unat_ucast_u16)

lemma ScoreCounter_dec_value:
  assumes "unat s \<le> unat (sc_value c)"
  shows "unat (sc_value (snd (ScoreCounter_dec now s c))) = unat (sc_value c) - unat s"
proof -
  have "ucast s \<le> sc_value c" using assms by (simp add: word_le_nat_alt unat_ucast_u16)
  then show ?thesis
    by (simp add: ScoreCounter_dec_def Let_def unat_sub word_le_nat_alt unat_ucast_u16)
qed

lemma sc_run_value:
  "sc_balance ops (unat (sc_value c)) = Some b \<Longrightarrow> unat (sc_value (fold sc_apply ops c)) = b"
proof (induction ops arbitrary: c)
  case (Cons op ops)
  show ?case
  proof (cases op)
    case (Inc s)
    then have "sc_balance ops (unat (sc_value (sc_apply op c))) = Some b"
      using Cons.prems by (simp add: ScoreCounter_inc_value split: if_splits)
    then show ?thesis using Cons.IH by simp
  next
    case (Dec now s)
    then have "sc_balance ops (unat (sc_value (sc_apply op c))) = Some b"
      using Cons.prems by (simp add: ScoreCounter_dec_value split: if_splits)
    then show ?thesis using Cons.IH by simp
  qed
qed simp

text \<open>
  A score counter that was given a history of increments and decrements, none of which
  takes more than the balance, holds exactly the balance; once the decay time of the last
  decrement has passed, or when the last operation is an increment, get returns it.
\<close>
theorem ScoreCounter_balance:
  assumes "sc_balance ops 0 = Some b"
    and "sc_decay_time (fold sc_apply ops ScoreCounter_new) < now
      \<or> sc_decay_time (fold sc_apply ops ScoreCounter_new) = 0"
  shows "unat (fst (ScoreCounter_get fdecay now (fold sc_apply ops ScoreCounter_new))) = b"
proof -
  have "unat (sc_value (fold sc_apply ops ScoreCounter_new)) = b"
    by (rule sc_run_value) (use assms(1) in \<open>simp add: ScoreCounter_new_def\<close>)
  then show ?thesis using assms(2) by (auto simp: ScoreCounter_get_def)
qed

theorem ScoreCounter_balance_witness:
  "unat (fst (ScoreCounter_get (\<lambda>d t. 0) 1000
     (fold sc_apply [Inc 100, Dec 10 30, Inc 5] ScoreCounter_new))) = 75"
proof -
  have "sc_balance [Inc 100, Dec 10 30, Inc 5] 0 = Some 75"
    by simp
  moreover have "sc_decay_time (fold sc_apply [Inc 100, Dec 10 30, Inc 5] ScoreCounter_new) = 0"
    by (simp add: ScoreCounter_inc_def Let_def)
  ultimately show ?thesis by (intro ScoreCounter_balance) simp_all
qed

text \<open>
  During the decay the value that get returns lies between the new and the old value:
  right after the decrement it is the old value. The decay product is assumed to be 0 at
  the start and at most the drop within the decay time, as the linear rate gives it.
\<close>
theorem ScoreCounter_decay_bounds:
  assumes "unat s \<le> unat (sc_value c)" and "c' = snd (ScoreCounter_dec t0 s c)"
    and "t0 \<le> now" and "now \<le> t0 + 60" and "unat t0 + 60 < 2 ^ 32"
    and "\<And>d. fdecay d 0 = 0" and "\<And>d t. t \<le> 60 \<Longrightarrow> fdecay d t \<le> d"
  shows "sc_value c' \<le> fst (ScoreCounter_get fdecay now c')
    \<and> fst (ScoreCounter_get fdecay now c') \<le> sc_value c
    \<and> fst (ScoreCounter_get fdecay t0 c') = sc_value c"
proof -
  have le: "ucast s \<le> sc_value c" using assms(1) by (simp add: word_le_nat_alt unat_ucast_u16)
  have dt: "unat (t0 + 60) = unat t0 + 60" using assms(5) by (simp add: unat_word_ariths)
  have nz: "t0 + 60 \<noteq> 0"
  proof
    assume "t0 + 60 = 0"
    with dt have "unat t0 + 60 = 0" by (simp only: unsigned_0)
    then show False by linarith
  qed
  have c': "sc_value c' = sc_value c - ucast s" "sc_decay_time c' = t0 + 60"
    "sc_beta c' = sc_value c" "sc_drop c' = ucast s"
    using le assms(2) by (simp_all add: ScoreCounter_dec_def Let_def DEFAULT_DECAY_TIME_def)
  have get: "fst (ScoreCounter_get fdecay x c') = sc_value c - fdecay (ucast s) (60 - (t0 + 60 - x))"
    if "x \<le> t0 + 60" for x
    using that nz by (simp add: ScoreCounter_get_def Let_def c' DEFAULT_DECAY_TIME_def leD)
  have "unat (60 - (t0 + 60 - x)) \<le> 60" if "t0 \<le> x" "x \<le> t0 + 60" for x
  proof -
    have "60 - (t0 + 60 - x) = x - t0" by simp
    moreover have "unat (x - t0) = unat x - unat t0"
      using that(1) by (simp add: unat_sub word_le_nat_alt)
    moreover have "unat x \<le> unat t0 + 60" using that(2) dt by (simp add: word_le_nat_alt)
    ultimately show ?thesis by simp
  qed
  then have f: "fdecay (ucast s) (60 - (t0 + 60 - now)) \<le> ucast s"
    using assms(3,4,7) by (simp add: word_le_nat_alt)
  have "t0 \<le> t0 + 60" by (simp add: word_le_nat_alt dt)
  then have "fst (ScoreCounter_get fdecay t0 c') = sc_value c"
    by (simp add: get assms(6))
  moreover have "sc_value c' \<le> fst (ScoreCounter_get fdecay now c')"
    "fst (ScoreCounter_get fdecay now c') \<le> sc_value c"
    using le f assms(4) by (simp_all add: get c' word_le_nat_alt unat_sub)
  ultimately show ?thesis by simp
qed

text \<open>
  The stored value of one counter of a holder, and what an increment and a decrement do
  to it, for a host whose interface is not a view.
\<close>

definition score_value :: "score_category \<Rightarrow> bool \<Rightarrow> score_holder \<Rightarrow> u32" where
  "score_value cat as_client h =
     (case score_ptr h of
        None \<Rightarrow> 0
      | Some s \<Rightarrow> sc_value ((if as_client then cli_score s else srv_score s) ! score_cat cat))"

definition score_wf :: "score_holder \<Rightarrow> bool" where
  "score_wf h \<longleftrightarrow> \<not> view_interface_score h \<and>
     (case score_ptr h of
        None \<Rightarrow> True
      | Some s \<Rightarrow> \<not> is_view s \<and> length (cli_score s) = MAX_NUM_SCORE_CATEGORIES
          \<and> length (srv_score s) = MAX_NUM_SCORE_CATEGORIES)"

lemma score_cat_bound [simp]: "score_cat cat < MAX_NUM_SCORE_CATEGORIES"
  by (cases cat) (simp_all add: MAX_NUM_SCORE_CATEGORIES_def)

lemma score_cat_inject [simp]: "score_cat a = score_cat b \<longleftrightarrow> a = b"
  by (cases a; cases b) simp_all

lemma score_wf_new [simp]: "score_wf (Score_new False)" "score_value cat r (Score_new v) = 0"
  by (simp_all add: score_wf_def Score_new_def score_value_def)

lemma score_wf_inc [simp]: "score_wf h \<Longrightarrow> score_wf (snd (Score_incScoreValue v cat r h))"
  by (auto simp: score_wf_def Score_incScoreValue_def Let_def ScoreStats_incValue_def inc_at_def
      ScoreStats_new_def split: option.splits prod.splits)

lemma score_wf_dec [simp]: "score_wf h \<Longrightarrow> score_wf (snd (Score_decScoreValue now v cat r h))"
  by (auto simp: score_wf_def Score_decScoreValue_def Let_def ScoreStats_decValue_def dec_at_def
      split: option.splits prod.splits)

lemma score_value_inc:
  assumes "score_wf h" and "unat (score_value cat r h) + unat v < 2 ^ 32"
  shows "unat (score_value cat' r' (snd (Score_incScoreValue v cat r h))) =
    unat (score_value cat' r' h) + (if cat' = cat \<and> r' = r then unat v else 0)"
  using assms
  by (auto simp: score_wf_def score_value_def Score_incScoreValue_def Let_def ScoreStats_incValue_def
      inc_at_def ScoreStats_new_def nth_list_update ScoreCounter_inc_value ScoreCounter_new_def
      split: option.splits prod.splits)

lemma score_value_dec:
  assumes "score_wf h" and "unat v \<le> unat (score_value cat r h)" 
  shows "unat (score_value cat' r' (snd (Score_decScoreValue now v cat r h))) =
    unat (score_value cat' r' h) - (if cat' = cat \<and> r' = r then unat v else 0)"
  using assms
  by (auto simp: score_wf_def score_value_def Score_decScoreValue_def Let_def ScoreStats_decValue_def
      dec_at_def nth_list_update ScoreCounter_dec_value split: option.splits prod.splits)

end
