(* ===== verification/Host_Alerts.thy ===== *)
theory Host_Alerts
  imports Recipients Scores
begin

text \<open>
  The life of a host alert: src/include/HostAlert.h, src/src/HostAlertableEntity.cpp,
  AlertableEntity.cpp, the methods of src/src/Host.cpp that trigger, store and release
  alerts, the queue between the packet thread and the notification thread
  (NetworkInterface::enqueueHostAlert, dequeueHostAlerts) and the executor of the host
  checks (src/src/HostChecksExecutor.cpp).

  Alert objects live in a heap from addresses to objects; an address that was deleted
  maps to \<open>None\<close>, and reading it is the error \<open>Use_after_free\<close>. The state is that of one
  host with its part of the interface's queue and counters; Host::incScoreValue and
  decScoreValue pass the same amounts on to the host's autonomous system, VLAN, country and
  network, which are not part of it. Whether the ring accepts an
  element is an argument of each call that enqueues.
\<close>

section \<open>Severities\<close>

definition mapScoreToSeverity :: "u32 \<Rightarrow> alert_level" where
  "mapScoreToSeverity v =
     (if v < 1 then alert_level_none
      else if v < 10 then alert_level_info
      else if v < 50 then alert_level_notice
      else if v < 100 then alert_level_warning
      else if v < 200 then alert_level_error
      else if v < 250 then alert_level_critical
      else alert_level_emergency)"

definition mapSeverityToScore :: "alert_level \<Rightarrow> u8" where
  "mapSeverityToScore l =
     (if l \<le> alert_level_info then 1
      else if l \<le> alert_level_notice then 10
      else if l \<le> alert_level_warning then 50
      else if l \<le> alert_level_error then 100
      else if l \<le> alert_level_critical then 200
      else if l \<le> alert_level_emergency then 250
      else 150)"

datatype alert_level_group =
    alert_level_group_none | alert_level_group_notice_or_lower | alert_level_group_warning
  | alert_level_group_error | alert_level_group_critical | alert_level_group_emergency

fun mapAlertLevelToGroup :: "alert_level \<Rightarrow> alert_level_group" where
  "mapAlertLevelToGroup alert_level_debug = alert_level_group_notice_or_lower"
| "mapAlertLevelToGroup alert_level_info = alert_level_group_notice_or_lower"
| "mapAlertLevelToGroup alert_level_notice = alert_level_group_notice_or_lower"
| "mapAlertLevelToGroup alert_level_warning = alert_level_group_warning"
| "mapAlertLevelToGroup alert_level_error = alert_level_group_error"
| "mapAlertLevelToGroup alert_level_critical = alert_level_group_critical"
| "mapAlertLevelToGroup alert_level_alert = alert_level_group_critical"
| "mapAlertLevelToGroup alert_level_emergency = alert_level_group_emergency"
| "mapAlertLevelToGroup alert_level_none = alert_level_group_none"

definition mapAlertToScoreCategory :: "alert_category \<Rightarrow> score_category" where
  "mapAlertToScoreCategory c =
     (if c = alert_category_security then score_category_security else score_category_network)"

section \<open>Alerts\<close>

record host_alert =
  released :: bool
  last_released_for_host :: bool
  expiring :: bool
  forced_release :: bool
  ha_check_id :: nat
  ha_alert_id :: u8
  ha_category :: alert_category
  ha_score :: u8
  ha_auto_release :: bool
  ha_rowid :: u64
  engage_time :: int
  release_time :: int
  timeout_time :: int
  cli_pctg :: u8
  is_attacker :: bool
  is_victim :: bool
  ha_hits :: u64

text \<open>The values that the constructor sets; type and score are those of the subclass, and
  \<open>ha_hits\<close> is the payload of the flood alerts.\<close>

definition HostAlert_new ::
  "nat \<Rightarrow> u8 \<Rightarrow> alert_category \<Rightarrow> u8 \<Rightarrow> bool \<Rightarrow> u8 \<Rightarrow> int \<Rightarrow> host_alert" where
  "HostAlert_new check aid cat v auto_rel pctg now =
     \<lparr> released = False, last_released_for_host = False, expiring = False,
       forced_release = False, ha_check_id = check, ha_alert_id = aid, ha_category = cat,
       ha_score = v, ha_auto_release = auto_rel, ha_rowid = 0, engage_time = now,
       release_time = 0, timeout_time = 0, cli_pctg = pctg, is_attacker = False,
       is_victim = False, ha_hits = 0 \<rparr>"

text \<open>The product is an \<open>int\<close>; the result is cut to 8 bits.\<close>

definition getCliScore :: "host_alert \<Rightarrow> u8" where
  "getCliScore a = of_nat (unat (cli_pctg a) * unat (ha_score a) div 100)"

definition getSrvScore :: "host_alert \<Rightarrow> u8" where
  "getSrvScore a = ha_score a - getCliScore a"

definition setEngaged :: "u64 \<Rightarrow> host_alert \<Rightarrow> host_alert" where
  "setEngaged row a = a\<lparr>expiring := False, released := False, ha_rowid := row\<rparr>"

definition HostAlert_release :: "int \<Rightarrow> host_alert \<Rightarrow> host_alert" where
  "HostAlert_release now a = a\<lparr>released := True, release_time := now\<rparr>"

definition getRowID :: "host_alert \<Rightarrow> u32" where
  "getRowID a = ucast (ha_rowid a)"

definition NUM_DEFINED_HOST_CHECKS :: nat where "NUM_DEFINED_HOST_CHECKS = 28"

record engaged_info =
  engaged_alerts_map :: u32
  engaged_alerts :: "nat option list"

record host_state =
  heap :: "nat \<Rightarrow> host_alert option"
  alerts :: "engaged_info option"
  num_engaged_alerts :: u32
  if_engaged :: "alert_level_group \<Rightarrow> u32"
  hs_score :: score_holder
  host_uses :: nat
  alerts_queue :: "(nat \<times> bool) list"
  alert_serial :: u64
  last_call_min :: int
  last_call_5min :: int

definition HostState_new :: host_state where
  "HostState_new = \<lparr> heap = (\<lambda>_. None), alerts = None, num_engaged_alerts = 0,
     if_engaged = (\<lambda>_. 0), hs_score = Score_new False, host_uses = 0, alerts_queue = [],
     alert_serial = 1, last_call_min = 0, last_call_5min = 0 \<rparr>"

definition deref :: "nat \<Rightarrow> host_state \<Rightarrow> c_error + host_alert" where
  "deref p h = (case heap h p of None \<Rightarrow> Inl Use_after_free | Some a \<Rightarrow> Inr a)"

definition put :: "nat \<Rightarrow> host_alert \<Rightarrow> host_state \<Rightarrow> host_state" where
  "put p a h = h\<lparr>heap := (heap h)(p \<mapsto> a)\<rparr>"

definition delete_alert :: "nat \<Rightarrow> host_state \<Rightarrow> host_state" where
  "delete_alert p h = h\<lparr>heap := (heap h)(p := None)\<rparr>"

section \<open>The engaged alerts of a host\<close>

definition incNumAlertsEngaged :: "alert_level \<Rightarrow> host_state \<Rightarrow> host_state" where
  "incNumAlertsEngaged sev h =
     (let g = mapAlertLevelToGroup sev
      in h\<lparr>if_engaged := (if g = alert_level_group_none then if_engaged h
                          else (if_engaged h)(g := if_engaged h g + 1)),
           num_engaged_alerts := num_engaged_alerts h + 1\<rparr>)"

definition decNumAlertsEngaged :: "alert_level \<Rightarrow> host_state \<Rightarrow> host_state" where
  "decNumAlertsEngaged sev h =
     (let g = mapAlertLevelToGroup sev
      in h\<lparr>if_engaged := (if g = alert_level_group_none then if_engaged h
                          else (if_engaged h)(g := if_engaged h g - 1)),
           num_engaged_alerts := num_engaged_alerts h - 1\<rparr>)"

definition severity_of :: "host_alert \<Rightarrow> alert_level" where
  "severity_of a = mapScoreToSeverity (ucast (ha_score a))"

definition engaged_at :: "host_state \<Rightarrow> nat \<Rightarrow> nat option" where
  "engaged_at h c = (case alerts h of None \<Rightarrow> None | Some i \<Rightarrow> engaged_alerts i ! c)"

definition addEngagedAlert :: "nat \<Rightarrow> host_alert \<Rightarrow> host_state \<Rightarrow> bool \<times> host_state" where
  "addEngagedAlert p a h =
     (let i = (case alerts h of
                 None \<Rightarrow> \<lparr> engaged_alerts_map = 0,
                            engaged_alerts = replicate NUM_DEFINED_HOST_CHECKS None \<rparr>
               | Some i \<Rightarrow> i);
          h1 = h\<lparr>alerts := Some i\<rparr>
      in if engaged_alerts i ! ha_check_id a = None then
           (True, incNumAlertsEngaged (severity_of a)
              (h1\<lparr>alerts := Some (i\<lparr>engaged_alerts := (engaged_alerts i)[ha_check_id a := Some p],
                 engaged_alerts_map := UintBitmap_setBit (engaged_alerts_map i) (ha_alert_id a)\<rparr>)\<rparr>))
         else (False, h1))"

definition removeEngagedAlert :: "nat \<Rightarrow> host_alert \<Rightarrow> host_state \<Rightarrow> bool \<times> host_state" where
  "removeEngagedAlert p a h =
     (case alerts h of
        None \<Rightarrow> (False, h)
      | Some i \<Rightarrow>
          if engaged_alerts i ! ha_check_id a = Some p then
            (True, decNumAlertsEngaged (severity_of a)
               (h\<lparr>alerts := Some (i\<lparr>engaged_alerts := (engaged_alerts i)[ha_check_id a := None],
                  engaged_alerts_map := UintBitmap_clearBit (engaged_alerts_map i) (ha_alert_id a)\<rparr>)\<rparr>))
          else (False, h))"

definition findEngagedAlert :: "u8 \<Rightarrow> nat \<Rightarrow> host_state \<Rightarrow> nat option" where
  "findEngagedAlert aid check h =
     (case alerts h of
        None \<Rightarrow> None
      | Some i \<Rightarrow>
          if UintBitmap_isSetBit (engaged_alerts_map i) aid then
            (case engaged_alerts i ! check of
               None \<Rightarrow> None
             | Some p \<Rightarrow> (case heap h p of
                 None \<Rightarrow> None
               | Some a \<Rightarrow> if ha_alert_id a = aid then Some p else None))
          else None)"

section \<open>The queue to the notification thread\<close>

definition enqueueHostAlert :: "bool \<Rightarrow> bool \<Rightarrow> nat \<Rightarrow> host_state \<Rightarrow> c_error + host_state" where
  "enqueueHostAlert dontEmit ring_ok p h =
     (case deref p h of
        Inl e \<Rightarrow> Inl e
      | Inr a \<Rightarrow>
          if \<not> dontEmit \<and> ring_ok then
            Inr (h\<lparr>alerts_queue := alerts_queue h @ [(p, released a)], host_uses := host_uses h + 1\<rparr>)
          else if released a then Inr (delete_alert p h) else Inr h)"

text \<open>
  dequeueHostAlerts for one element: enqueueAlertToRecipients reads the alert to build
  the notification and deletes it when it was queued as released.
\<close>

definition dequeueHostAlert :: "host_state \<Rightarrow> c_error + host_state" where
  "dequeueHostAlert h =
     (case alerts_queue h of
        [] \<Rightarrow> Inr h
      | (p, rel) # q \<Rightarrow>
          (case deref p h of
             Inl e \<Rightarrow> Inl e
           | Inr a \<Rightarrow>
               let h1 = h\<lparr>alerts_queue := q\<rparr>;
                   h2 = (if rel then delete_alert p h1 else h1)
               in Inr (h2\<lparr>host_uses := host_uses h2 - 1\<rparr>)))"

section \<open>Triggering, releasing and storing\<close>

definition inc_scores :: "host_alert \<Rightarrow> host_state \<Rightarrow> host_state" where
  "inc_scores a h =
     (let cat = mapAlertToScoreCategory (ha_category a);
          s1 = snd (Score_incScoreValue (ucast (getCliScore a)) cat True (hs_score h));
          s2 = snd (Score_incScoreValue (ucast (getSrvScore a)) cat False s1)
      in h\<lparr>hs_score := s2\<rparr>)"

definition dec_scores :: "u32 \<Rightarrow> host_alert \<Rightarrow> host_state \<Rightarrow> host_state" where
  "dec_scores tick a h =
     (let cat = mapAlertToScoreCategory (ha_category a);
          s1 = snd (Score_decScoreValue tick (ucast (getCliScore a)) cat True (hs_score h));
          s2 = snd (Score_decScoreValue tick (ucast (getSrvScore a)) cat False s1)
      in h\<lparr>hs_score := s2\<rparr>)"

text \<open>
  \<open>disabled\<close> is Host::isHostAlertDisabled. The alert was allocated by the check, or it is
  the one that is engaged already.
\<close>

definition triggerAlert ::
  "bool \<Rightarrow> (u8 \<Rightarrow> bool) \<Rightarrow> bool \<Rightarrow> nat \<Rightarrow> host_state \<Rightarrow> c_error + (bool \<times> host_state)" where
  "triggerAlert dontEmit disabled ring_ok p h =
     (case deref p h of
        Inl e \<Rightarrow> Inl e
      | Inr a \<Rightarrow>
          if dontEmit \<or> disabled (ha_alert_id a) then
            if engaged_at h (ha_check_id a) = Some p
            then Inr (False, put p (a\<lparr>expiring := True\<rparr>) h)
            else Inr (False, delete_alert p h)
          else
            let row = (if getRowID a = 0 then alert_serial h else ucast (getRowID a));
                h = (if getRowID a = 0 then h\<lparr>alert_serial := alert_serial h + 1\<rparr> else h);
                a = setEngaged row a;
                h = put p a h
            in case engaged_at h (ha_check_id a) of
                 Some q \<Rightarrow> if q = p then Inr (True, h) else Inr (False, delete_alert p h)
               | None \<Rightarrow>
                   (case enqueueHostAlert dontEmit ring_ok p (snd (addEngagedAlert p a (inc_scores a h))) of
                      Inl e \<Rightarrow> Inl e
                    | Inr h' \<Rightarrow> Inr (True, h')))"

definition releaseAlert ::
  "bool \<Rightarrow> u32 \<Rightarrow> int \<Rightarrow> bool \<Rightarrow> nat \<Rightarrow> host_state \<Rightarrow> c_error + host_state" where
  "releaseAlert dontEmit tick now ring_ok p h =
     (case deref p h of
        Inl e \<Rightarrow> Inl e
      | Inr a \<Rightarrow>
          let a = HostAlert_release now a;
              h = snd (removeEngagedAlert p a (put p a h));
              a = (if num_engaged_alerts h = 0 then a\<lparr>last_released_for_host := True\<rparr> else a);
              h = dec_scores tick a (put p a h)
          in enqueueHostAlert dontEmit ring_ok p h)"

definition storeAlert ::
  "bool \<Rightarrow> (u8 \<Rightarrow> bool) \<Rightarrow> int \<Rightarrow> bool \<Rightarrow> bool \<Rightarrow> nat \<Rightarrow> host_state \<Rightarrow> c_error + (bool \<times> host_state)" where
  "storeAlert dontEmit disabled now ring_ok1 ring_ok2 p h =
     (case deref p h of
        Inl e \<Rightarrow> Inl e
      | Inr a \<Rightarrow>
          if dontEmit \<or> disabled (ha_alert_id a) then Inr (False, delete_alert p h)
          else case enqueueHostAlert dontEmit ring_ok1 p h of
            Inl e \<Rightarrow> Inl e
          | Inr h1 \<Rightarrow>
              let a = HostAlert_release now a;
                  a = (if num_engaged_alerts h1 = 0 then a\<lparr>last_released_for_host := True\<rparr> else a)
              in case enqueueHostAlert dontEmit ring_ok2 p (put p a h1) of
                   Inl e \<Rightarrow> Inl e
                 | Inr h2 \<Rightarrow> Inr (True, h2))"

text \<open>
  The loops: releaseAllEngagedAlerts (called before an idle host leaves memory),
  clearEngagedAlerts (the destructor) and dequeueHostAlerts, whose budget 0 means none.
  Whether the ring accepts an element is asked in the state of the call.
\<close>

fun release_checks ::
  "bool \<Rightarrow> u32 \<Rightarrow> int \<Rightarrow> (host_state \<Rightarrow> bool) \<Rightarrow> nat list \<Rightarrow> host_state \<Rightarrow> c_error + host_state" where
  "release_checks dontEmit tick now ring [] h = Inr h"
| "release_checks dontEmit tick now ring (c # cs) h =
     (case engaged_at h c of
        None \<Rightarrow> release_checks dontEmit tick now ring cs h
      | Some p \<Rightarrow>
          (case releaseAlert dontEmit tick now (ring h) p h of
             Inl e \<Rightarrow> Inl e
           | Inr h1 \<Rightarrow> release_checks dontEmit tick now ring cs h1))"

definition releaseAllEngagedAlerts ::
  "bool \<Rightarrow> u32 \<Rightarrow> int \<Rightarrow> (host_state \<Rightarrow> bool) \<Rightarrow> host_state \<Rightarrow> c_error + host_state" where
  "releaseAllEngagedAlerts dontEmit tick now ring h =
     release_checks dontEmit tick now ring [0..<NUM_DEFINED_HOST_CHECKS] h"

fun clear_checks :: "nat list \<Rightarrow> host_state \<Rightarrow> c_error + host_state" where
  "clear_checks [] h = Inr h"
| "clear_checks (c # cs) h =
     (case engaged_at h c of
        None \<Rightarrow> clear_checks cs h
      | Some p \<Rightarrow>
          (case deref p h of
             Inl e \<Rightarrow> Inl e
           | Inr a \<Rightarrow> clear_checks cs (delete_alert p (snd (removeEngagedAlert p a h)))))"

definition clearEngagedAlerts :: "host_state \<Rightarrow> c_error + host_state" where
  "clearEngagedAlerts h =
     (case alerts h of
        None \<Rightarrow> Inr h
      | Some _ \<Rightarrow>
          (case clear_checks [0..<NUM_DEFINED_HOST_CHECKS] h of
             Inl e \<Rightarrow> Inl e
           | Inr h1 \<Rightarrow> Inr (h1\<lparr>alerts := None\<rparr>)))"

lemma dequeueHostAlert_shrinks:
  "dequeueHostAlert h = Inr h' \<Longrightarrow> alerts_queue h' = tl (alerts_queue h)"
  by (auto simp: dequeueHostAlert_def delete_alert_def Let_def split: list.splits sum.splits prod.splits)

function dequeueHostAlerts :: "nat \<Rightarrow> nat \<Rightarrow> host_state \<Rightarrow> c_error + (nat \<times> host_state)" where
  "dequeueHostAlerts budget num_done h =
     (if alerts_queue h = [] then Inr (num_done, h)
      else case dequeueHostAlert h of
        Inl e \<Rightarrow> Inl e
      | Inr h1 \<Rightarrow>
          if budget > 0 \<and> num_done + 1 \<ge> budget then Inr (num_done + 1, h1)
          else dequeueHostAlerts budget (num_done + 1) h1)"
  by pat_completeness auto

termination
  by (relation "measure (\<lambda>(_, _, h). length (alerts_queue h))")
    (auto dest!: dequeueHostAlert_shrinks)

declare dequeueHostAlerts.simps [simp del]

section \<open>Pointers\<close>

text \<open>
  \<open>pinv E H Q\<close> relates the engaged slots, the heap and the queue. An engaged alert is live,
  sits in the slot of its check, is not released and not queued as released; a queued
  alert is live and nothing of an alert comes after its released entry; a live alert is
  engaged or queued as released (so it will be freed).
\<close>

fun released_last :: "(nat \<times> bool) list \<Rightarrow> bool" where
  "released_last [] = True"
| "released_last ((p, r) # q) = ((r \<longrightarrow> p \<notin> fst ` set q) \<and> released_last q)"

definition pinv :: "(nat \<Rightarrow> nat option) \<Rightarrow> (nat \<Rightarrow> host_alert option) \<Rightarrow> (nat \<times> bool) list \<Rightarrow> bool" where
  "pinv E H Q \<longleftrightarrow>
     (\<forall>c p. E c = Some p \<longrightarrow> c < NUM_DEFINED_HOST_CHECKS \<and> (p, True) \<notin> set Q
        \<and> (\<exists>a. H p = Some a \<and> ha_check_id a = c \<and> \<not> released a))
     \<and> (\<forall>p r. (p, r) \<in> set Q \<longrightarrow> H p \<noteq> None) \<and> released_last Q
     \<and> (\<forall>p. H p \<noteq> None \<longrightarrow> (\<exists>c. E c = Some p) \<or> (p, True) \<in> set Q)"

lemma released_last_snoc:
  "released_last (q @ [(p, r)]) \<longleftrightarrow> released_last q \<and> (p, True) \<notin> set q"
proof (induction q rule: released_last.induct)
  case (2 p' r' q)
  then show ?case by auto
qed simp

lemma pinvI:
  assumes "\<And>c p. E c = Some p \<Longrightarrow> c < NUM_DEFINED_HOST_CHECKS \<and> (p, True) \<notin> set Q
        \<and> (\<exists>a. H p = Some a \<and> ha_check_id a = c \<and> \<not> released a)"
    and "\<And>p r. (p, r) \<in> set Q \<Longrightarrow> H p \<noteq> None" and "released_last Q"
    and "\<And>p. H p \<noteq> None \<Longrightarrow> (\<exists>c. E c = Some p) \<or> (p, True) \<in> set Q"
  shows "pinv E H Q"
  using assms unfolding pinv_def by blast

lemma pinv_engaged:
  assumes "pinv E H Q" "E c = Some p"
  obtains a where "H p = Some a" "ha_check_id a = c" "\<not> released a"
    "c < NUM_DEFINED_HOST_CHECKS" "(p, True) \<notin> set Q"
  using assms unfolding pinv_def by blast

lemma pinv_queued: "pinv E H Q \<Longrightarrow> (p, r) \<in> set Q \<Longrightarrow> \<exists>a. H p = Some a"
  unfolding pinv_def by blast

lemma pinv_live: "pinv E H Q \<Longrightarrow> H p = Some a \<Longrightarrow> (\<exists>c. E c = Some p) \<or> (p, True) \<in> set Q"
  unfolding pinv_def by blast

lemma pinv_last: "pinv E H Q \<Longrightarrow> released_last Q"
  unfolding pinv_def by blast

lemma pinv_inj:
  assumes "pinv E H Q" "E c = Some p" "E d = Some p"
  shows "c = d"
proof -
  obtain a where "H p = Some a" "ha_check_id a = c" by (rule pinv_engaged [OF assms(1,2)])
  moreover obtain b where "H p = Some b" "ha_check_id b = d" by (rule pinv_engaged [OF assms(1,3)])
  ultimately show ?thesis by simp
qed

lemma pinv_free:
  assumes "pinv E H Q" "H p = None"
  shows "E c \<noteq> Some p" "(p, r) \<notin> set Q"
proof -
  show "E c \<noteq> Some p"
  proof
    assume "E c = Some p"
    then show False using assms(2) by (elim pinv_engaged [OF assms(1)]) simp
  qed
  show "(p, r) \<notin> set Q" using assms(2) pinv_queued [OF assms(1), of p r] by auto
qed

lemma pinv_add:
  assumes "pinv E H Q" "H p = None" "E (ha_check_id a) = None" "\<not> released a"
    and "ha_check_id a < NUM_DEFINED_HOST_CHECKS" and "Q' = Q \<or> Q' = Q @ [(p, False)]"
  shows "pinv (E(ha_check_id a \<mapsto> p)) (H(p \<mapsto> a)) Q'"
proof (rule pinvI)
  note free = pinv_free [OF assms(1,2)]
  have Q': "(q, True) \<in> set Q' \<longleftrightarrow> (q, True) \<in> set Q" for q using assms(6) by auto
  fix c q
  show "c < NUM_DEFINED_HOST_CHECKS \<and> (q, True) \<notin> set Q'
        \<and> (\<exists>b. (H(p \<mapsto> a)) q = Some b \<and> ha_check_id b = c \<and> \<not> released b)"
    if "(E(ha_check_id a \<mapsto> p)) c = Some q"
  proof (cases "c = ha_check_id a")
    case True
    then show ?thesis using that assms free Q' by auto
  next
    case False
    then have "E c = Some q" "q \<noteq> p" using that free by auto
    then show ?thesis by (elim pinv_engaged [OF assms(1)]) (auto simp: Q')
  qed
  show "(H(p \<mapsto> a)) q \<noteq> None" if "(q, r) \<in> set Q'" for r
    using that assms(6) pinv_queued [OF assms(1), of q r] by auto
  show "released_last Q'" using assms(6) pinv_last [OF assms(1)] free by (auto simp: released_last_snoc)
  show "(\<exists>c. (E(ha_check_id a \<mapsto> p)) c = Some q) \<or> (q, True) \<in> set Q'"
    if "(H(p \<mapsto> a)) q \<noteq> None"
  proof (cases "q = p")
    case True
    then show ?thesis by (intro disjI1 exI [of _ "ha_check_id a"]) simp
  next
    case False
    then obtain b where "H q = Some b" using \<open>(H(p \<mapsto> a)) q \<noteq> None\<close> by auto
    then have "(\<exists>d. E d = Some q) \<or> (q, True) \<in> set Q" by (rule pinv_live [OF assms(1)])
    then show ?thesis
    proof
      assume "\<exists>d. E d = Some q"
      then obtain d where "E d = Some q" ..
      then have "(E(ha_check_id a \<mapsto> p)) d = Some q" using assms(3) by auto
      then show ?thesis by blast
    qed (simp add: Q')
  qed
qed

lemma pinv_refresh:
  assumes "pinv E H Q" "E c = Some p" "ha_check_id a = c" "\<not> released a"
  shows "pinv E (H(p \<mapsto> a)) Q"
proof (rule pinvI)
  fix d q
  show "d < NUM_DEFINED_HOST_CHECKS \<and> (q, True) \<notin> set Q
        \<and> (\<exists>b. (H(p \<mapsto> a)) q = Some b \<and> ha_check_id b = d \<and> \<not> released b)" if "E d = Some q"
  proof -
    from that obtain b where "H q = Some b" "ha_check_id b = d" "\<not> released b"
        "d < NUM_DEFINED_HOST_CHECKS" "(q, True) \<notin> set Q"
      using pinv_engaged [OF assms(1)] by blast
    then show ?thesis using assms pinv_inj [OF assms(1,2), of d] that by auto
  qed
  show "(H(p \<mapsto> a)) q \<noteq> None" if "(q, r) \<in> set Q" for r
    using pinv_queued [OF assms(1) that] by auto
  show "released_last Q" using pinv_last [OF assms(1)] .
  show "(\<exists>c. E c = Some q) \<or> (q, True) \<in> set Q" if "(H(p \<mapsto> a)) q \<noteq> None"
    using that assms(2) pinv_live [OF assms(1), of q] by (cases "q = p") auto
qed

lemma pinv_release:
  assumes "pinv E H Q" "E c = Some p"
    and "(H' = H(p \<mapsto> a) \<and> Q' = Q @ [(p, True)]) \<or> (H' = H(p := None) \<and> Q' = Q \<and> p \<notin> fst ` set Q)"
  shows "pinv (E(c := None)) H' Q'"
proof (rule pinvI)
  fix d q
  show "d < NUM_DEFINED_HOST_CHECKS \<and> (q, True) \<notin> set Q'
        \<and> (\<exists>b. H' q = Some b \<and> ha_check_id b = d \<and> \<not> released b)"
    if "(E(c := None)) d = Some q"
  proof -
    have "E d = Some q" "q \<noteq> p"
      using that pinv_inj [OF assms(1,2), of d] by (auto split: if_splits)
    then show ?thesis
      by (elim pinv_engaged [OF assms(1)]) (use assms(3) in auto)
  qed
  show "H' q \<noteq> None" if "(q, r) \<in> set Q'" for r
    using that assms(3) pinv_queued [OF assms(1), of q r] by (auto simp: image_iff)
  have "(p, True) \<notin> set Q" by (rule pinv_engaged [OF assms(1,2)])
  then show "released_last Q'"
    using assms(3) pinv_last [OF assms(1)] by (auto simp: released_last_snoc)
  show "(\<exists>d. (E(c := None)) d = Some q) \<or> (q, True) \<in> set Q'" if "H' q \<noteq> None"
  proof (cases "q = p")
    case True
    then show ?thesis using that assms(3) by auto
  next
    case False
    then obtain b where "H q = Some b" using \<open>H' q \<noteq> None\<close> assms(3) by auto
    then have "(\<exists>d. E d = Some q) \<or> (q, True) \<in> set Q" by (rule pinv_live [OF assms(1)])
    then show ?thesis
    proof
      assume "\<exists>d. E d = Some q"
      then obtain d where "E d = Some q" ..
      then have "(E(c := None)) d = Some q" using assms(2) False by auto
      then show ?thesis by blast
    next
      assume "(q, True) \<in> set Q"
      then show ?thesis using assms(3) by auto
    qed
  qed
qed

lemma pinv_store:
  assumes "pinv E H Q" "H p = None" and "Q' = Q @ [(p, False), (p, True)] \<or> Q' = Q @ [(p, True)]"
  shows "pinv E (H(p \<mapsto> a)) Q'"
proof (rule pinvI)
  note free = pinv_free [OF assms(1,2)]
  fix c q
  show "c < NUM_DEFINED_HOST_CHECKS \<and> (q, True) \<notin> set Q'
        \<and> (\<exists>b. (H(p \<mapsto> a)) q = Some b \<and> ha_check_id b = c \<and> \<not> released b)" if "E c = Some q"
    by (rule pinv_engaged [OF assms(1) that]) (use assms(3) free that in auto)
  show "(H(p \<mapsto> a)) q \<noteq> None" if "(q, r) \<in> set Q'" for r
    using that assms(3) pinv_queued [OF assms(1), of q r] by auto
  have "released_last (Q @ [(p, False)])" using pinv_last [OF assms(1)] free by (simp add: released_last_snoc)
  then have "released_last ((Q @ [(p, False)]) @ [(p, True)])" "released_last (Q @ [(p, True)])"
    using free by (auto simp only: released_last_snoc set_append) auto
  then show "released_last Q'" using assms(3) by auto
  show "(\<exists>c. E c = Some q) \<or> (q, True) \<in> set Q'" if "(H(p \<mapsto> a)) q \<noteq> None"
    using that assms(3) pinv_live [OF assms(1), of q] by (cases "q = p") auto
qed

lemma pinv_dequeue:
  assumes "pinv E H ((p, r) # Q)"
  shows "pinv E (if r then H(p := None) else H) Q"
proof (rule pinvI)
  have last: "r \<longrightarrow> p \<notin> fst ` set Q" "released_last Q" using pinv_last [OF assms] by simp_all
  fix c q
  show "c < NUM_DEFINED_HOST_CHECKS \<and> (q, True) \<notin> set Q
        \<and> (\<exists>b. (if r then H(p := None) else H) q = Some b \<and> ha_check_id b = c \<and> \<not> released b)"
    if "E c = Some q"
    by (rule pinv_engaged [OF assms that]) auto
  show "(if r then H(p := None) else H) q \<noteq> None" if "(q, s) \<in> set Q" for s
    using that pinv_queued [OF assms, of q s] last by (auto simp: image_iff)
  show "released_last Q" by (rule last)
  show "(\<exists>c. E c = Some q) \<or> (q, True) \<in> set Q" if "(if r then H(p := None) else H) q \<noteq> None"
    using that pinv_live [OF assms, of q] by (auto split: if_splits)
qed

section \<open>Counters\<close>

text \<open>
  The sum of a weight over the engaged alerts, and how it changes when a slot does. The
  weights that the code counts depend only on the score, the category and the share of
  the client, which no operation changes.
\<close>

definition esum ::
  "(host_alert \<Rightarrow> nat) \<Rightarrow> (nat \<Rightarrow> nat option) \<Rightarrow> (nat \<Rightarrow> host_alert option) \<Rightarrow> nat" where
  "esum f E H = (\<Sum>c<NUM_DEFINED_HOST_CHECKS.
     (case E c of None \<Rightarrow> 0 | Some p \<Rightarrow> (case H p of None \<Rightarrow> 0 | Some a \<Rightarrow> f a)))"

definition same_weights :: "host_alert \<Rightarrow> host_alert \<Rightarrow> bool" where
  "same_weights a b \<longleftrightarrow> ha_score a = ha_score b \<and> ha_category a = ha_category b \<and> cli_pctg a = cli_pctg b"

lemma esum_other_heap:
  assumes "\<And>c. c < NUM_DEFINED_HOST_CHECKS \<Longrightarrow> E c \<noteq> Some p"
  shows "esum f E (H(p := x)) = esum f E H"
  unfolding esum_def by (intro sum.cong refl) (use assms in \<open>auto split: option.splits\<close>)

lemma esum_split:
  assumes "c < NUM_DEFINED_HOST_CHECKS"
  shows "esum f E H = (case E c of None \<Rightarrow> 0 | Some p \<Rightarrow> (case H p of None \<Rightarrow> 0 | Some a \<Rightarrow> f a))
    + esum f (E(c := None)) H"
proof -
  let ?g = "\<lambda>E d. (case E d of None \<Rightarrow> 0 | Some p \<Rightarrow> (case H p of None \<Rightarrow> 0 | Some a \<Rightarrow> f a))"
  have c: "c \<in> {..<NUM_DEFINED_HOST_CHECKS}" using assms by simp
  have "(\<Sum>d\<in>{..<NUM_DEFINED_HOST_CHECKS} - {c}. ?g E d)
      = (\<Sum>d\<in>{..<NUM_DEFINED_HOST_CHECKS} - {c}. ?g (E(c := None)) d)"
    by (rule sum.cong) auto
  moreover have "?g (E(c := None)) c = 0" by simp
  ultimately show ?thesis
    unfolding esum_def
    using sum.remove [OF finite_lessThan c, of "?g E"] sum.remove [OF finite_lessThan c, of "?g (E(c := None))"]
    by simp
qed

lemma esum_add:
  assumes "E c = None" "c < NUM_DEFINED_HOST_CHECKS" "\<And>d. E d \<noteq> Some p"
  shows "esum f (E(c \<mapsto> p)) (H(p \<mapsto> a)) = f a + esum f E H"
  using assms esum_split [OF assms(2), of f "E(c \<mapsto> p)" "H(p \<mapsto> a)"]
  by (simp add: esum_other_heap fun_upd_idem)

lemma esum_take:
  assumes "pinv E H Q" "E c = Some p" "H p = Some a"
  shows "esum f E H = f a + esum f (E(c := None)) (H(p := x))"
proof -
  have c: "c < NUM_DEFINED_HOST_CHECKS" by (rule pinv_engaged [OF assms(1,2)])
  have "(E(c := None)) d \<noteq> Some p" for d using pinv_inj [OF assms(1,2), of d] by auto
  then show ?thesis using esum_split [OF c, of f E H] assms by (simp add: esum_other_heap)
qed

lemma esum_refresh:
  assumes "pinv E H Q" "E c = Some p" "H p = Some a" "f b = f a"
  shows "esum f E (H(p \<mapsto> b)) = esum f E H"
proof -
  have c: "c < NUM_DEFINED_HOST_CHECKS" by (rule pinv_engaged [OF assms(1,2)])
  have "(E(c := None)) d \<noteq> Some p" for d using pinv_inj [OF assms(1,2), of d] by auto
  then have "esum f (E(c := None)) (H(p \<mapsto> b)) = esum f (E(c := None)) H" by (simp add: esum_other_heap)
  then show ?thesis
    using esum_split [OF c, of f E H] esum_split [OF c, of f E "H(p \<mapsto> b)"] assms by simp
qed

lemma esum_bound:
  assumes "\<And>a. f a \<le> k"
  shows "esum f E H \<le> NUM_DEFINED_HOST_CHECKS * k"
proof -
  have "esum f E H \<le> (\<Sum>c<NUM_DEFINED_HOST_CHECKS. k)"
    unfolding esum_def by (rule sum_mono) (use assms in \<open>auto split: option.splits\<close>)
  then show ?thesis by simp
qed

text \<open>The weights: one per alert, its severity group, its share of a score counter.\<close>

definition w_group :: "alert_level_group \<Rightarrow> host_alert \<Rightarrow> nat" where
  "w_group g a = (if mapAlertLevelToGroup (severity_of a) = g then 1 else 0)"

definition w_score :: "score_category \<Rightarrow> bool \<Rightarrow> host_alert \<Rightarrow> nat" where
  "w_score cat as_client a = (if mapAlertToScoreCategory (ha_category a) = cat
     then unat (if as_client then getCliScore a else getSrvScore a) else 0)"

lemma same_weights_simps:
  assumes "same_weights a b"
  shows "w_group g a = w_group g b" "w_score cat r a = w_score cat r b"
  using assms by (simp_all add: same_weights_def w_group_def w_score_def severity_of_def
      getCliScore_def getSrvScore_def)

lemma unat_u8_le: "unat (w :: u8) \<le> 255"
proof -
  have "unat w < 2 ^ 8" using unsigned_less [of w] by simp
  then show ?thesis by simp
qed

lemma w_score_le: "w_score cat r a \<le> 255"
  by (simp add: w_score_def unat_u8_le)

lemma unat_ucast_u8: "unat (ucast (s::u8) :: u16) = unat s"
proof -
  have "unat s < 2 ^ 8" using unsigned_less [of s] by simp
  then show ?thesis by (simp add: unsigned_ucast_eq take_bit_nat_eq_self)
qed

definition cinv ::
  "(nat \<Rightarrow> nat option) \<Rightarrow> (nat \<Rightarrow> host_alert option) \<Rightarrow> u32 \<Rightarrow> (alert_level_group \<Rightarrow> u32) \<Rightarrow> score_holder \<Rightarrow> bool" where
  "cinv E H n ifc sc \<longleftrightarrow> n = of_nat (esum (\<lambda>_. 1) E H)
     \<and> (\<forall>g. g \<noteq> alert_level_group_none \<longrightarrow> ifc g = of_nat (esum (w_group g) E H))
     \<and> score_wf sc \<and> (\<forall>cat r. unat (score_value cat r sc) = esum (w_score cat r) E H)"

definition score_inc :: "host_alert \<Rightarrow> score_holder \<Rightarrow> score_holder" where
  "score_inc a sc = hs_score (inc_scores a (HostState_new\<lparr>hs_score := sc\<rparr>))"

definition score_dec :: "u32 \<Rightarrow> host_alert \<Rightarrow> score_holder \<Rightarrow> score_holder" where
  "score_dec tick a sc = hs_score (dec_scores tick a (HostState_new\<lparr>hs_score := sc\<rparr>))"

lemma inc_scores_eq: "inc_scores a h = h\<lparr>hs_score := score_inc a (hs_score h)\<rparr>"
  by (simp add: score_inc_def inc_scores_def Let_def)

lemma dec_scores_eq: "dec_scores tick a h = h\<lparr>hs_score := score_dec tick a (hs_score h)\<rparr>"
  by (simp add: score_dec_def dec_scores_def Let_def)

lemma score_inc_value:
  assumes "score_wf sc" "\<And>cat r. unat (score_value cat r sc) \<le> 28 * 255"
  shows "score_wf (score_inc a sc)
    \<and> unat (score_value cat r (score_inc a sc)) = w_score cat r a + unat (score_value cat r sc)"
proof -
  let ?c = "mapAlertToScoreCategory (ha_category a)"
  let ?v = "ucast (getCliScore a) :: u16" and ?w = "ucast (getSrvScore a) :: u16"
  let ?s = "snd (Score_incScoreValue ?v ?c True sc)"
  have *: "unat (score_value ?c True sc) + unat ?v < 2 ^ 32"
    using assms(2) [of ?c True] unat_u8_le [of "getCliScore a"] by (simp add: unat_ucast_u8)
  note v1 = score_value_inc [OF assms(1) *]
  have **: "unat (score_value ?c False ?s) + unat ?w < 2 ^ 32"
    using assms(2) [of ?c False] unat_u8_le [of "getSrvScore a"] by (simp add: unat_ucast_u8 v1)
  have wf: "score_wf ?s" using assms(1) by simp
  have "score_inc a sc = snd (Score_incScoreValue ?w ?c False ?s)"
    by (simp add: score_inc_def inc_scores_def Let_def)
  then show ?thesis
    using wf by (auto simp: score_value_inc [OF wf **] v1 w_score_def unat_ucast_u8)
qed

lemma score_dec_value:
  assumes "score_wf sc" "\<And>cat r. w_score cat r a \<le> unat (score_value cat r sc)"
  shows "score_wf (score_dec tick a sc)
    \<and> unat (score_value cat r (score_dec tick a sc)) = unat (score_value cat r sc) - w_score cat r a"
proof -
  let ?c = "mapAlertToScoreCategory (ha_category a)"
  let ?v = "ucast (getCliScore a) :: u16" and ?w = "ucast (getSrvScore a) :: u16"
  let ?s = "snd (Score_decScoreValue tick ?v ?c True sc)"
  have *: "unat ?v \<le> unat (score_value ?c True sc)"
    using assms(2) [of ?c True] by (simp add: unat_ucast_u8 w_score_def)
  note v1 = score_value_dec [OF assms(1) *]
  have **: "unat ?w \<le> unat (score_value ?c False ?s)"
    using assms(2) [of ?c False] by (simp add: unat_ucast_u8 v1 w_score_def)
  have wf: "score_wf ?s" using assms(1) by simp
  have "score_dec tick a sc = snd (Score_decScoreValue tick ?w ?c False ?s)"
    by (simp add: score_dec_def dec_scores_def Let_def)
  then show ?thesis
    using wf by (auto simp: score_value_dec [OF wf **] v1 w_score_def unat_ucast_u8)
qed

lemma cinv_score_bound:
  assumes "cinv E H n ifc sc"
  shows "unat (score_value cat r sc) \<le> 28 * 255"
proof -
  have "esum (w_score cat r) E H \<le> NUM_DEFINED_HOST_CHECKS * 255"
    by (rule esum_bound) (rule w_score_le)
  then show ?thesis using assms by (simp add: cinv_def NUM_DEFINED_HOST_CHECKS_def)
qed

lemma cinv_add:
  assumes "cinv E H n ifc sc" "E c = None" "c < NUM_DEFINED_HOST_CHECKS" "\<And>d. E d \<noteq> Some p"
    and g: "g = mapAlertLevelToGroup (severity_of a)"
  shows "cinv (E(c \<mapsto> p)) (H(p \<mapsto> a)) (n + 1)
    (if g = alert_level_group_none then ifc else ifc(g := ifc g + 1)) (score_inc a sc)"
proof -
  note add = esum_add [where E = E and c = c and p = p, OF assms(2-4)]
  have wf: "score_wf sc" using assms(1) by (simp add: cinv_def)
  note sc = score_inc_value [OF wf cinv_score_bound [OF assms(1)]]
  show ?thesis
    using assms(1) g sc unfolding cinv_def by (auto simp: add w_group_def)
qed

lemma cinv_remove:
  assumes "pinv E H Q" "cinv E H n ifc sc" "E c = Some p" "H p = Some a" "same_weights b a"
    and g: "g = mapAlertLevelToGroup (severity_of b)"
  shows "cinv (E(c := None)) (H(p := x)) (n - 1)
    (if g = alert_level_group_none then ifc else ifc(g := ifc g - 1)) (score_dec tick b sc)"
proof -
  note take = esum_take [OF assms(1,3,4), where x = x]
  note sw = same_weights_simps [OF assms(5)]
  have wf: "score_wf sc" using assms(2) by (simp add: cinv_def)
  have le: "w_score cat r b \<le> unat (score_value cat r sc)" for cat r
    using assms(2) by (simp add: cinv_def take sw)
  note sc = score_dec_value [OF wf le]
  have g': "w_group k a = (if g = k then 1 else 0)" for k
    using sw(1) [of k] g by (simp add: w_group_def)
  have "unat (score_value cat r (score_dec tick b sc)) = esum (w_score cat r) (E(c := None)) (H(p := x))" for cat r
    using assms(2) sc [where cat = cat and r = r and tick = tick] by (simp add: cinv_def sw take [of "w_score cat r"])
  then show ?thesis
    using assms(2) sc unfolding cinv_def by (auto simp: take g')
qed

lemma cinv_refresh:
  assumes "pinv E H Q" "cinv E H n ifc sc" "E c = Some p" "H p = Some a" "same_weights b a"
  shows "cinv E (H(p \<mapsto> b)) n ifc sc"
proof -
  note refresh = esum_refresh [where b = b, OF assms(1,3,4)]
  note sw = same_weights_simps [OF assms(5)]
  show ?thesis
    using assms(2) unfolding cinv_def by (auto simp: refresh sw)
qed

lemma cinv_other:
  assumes "cinv E H n ifc sc" "\<And>d. E d \<noteq> Some p"
  shows "cinv E (H(p := x)) n ifc sc"
  using assms unfolding cinv_def by (auto simp: esum_other_heap)

section \<open>The invariant of a host\<close>

definition eng_ptr :: "host_state \<Rightarrow> nat \<Rightarrow> nat option" where
  "eng_ptr h c = (if c < NUM_DEFINED_HOST_CHECKS then engaged_at h c else None)"

definition hwf :: "host_state \<Rightarrow> bool" where
  "hwf h \<longleftrightarrow> (\<forall>i. alerts h = Some i \<longrightarrow> length (engaged_alerts i) = NUM_DEFINED_HOST_CHECKS)"

definition hinv :: "host_state \<Rightarrow> bool" where
  "hinv h \<longleftrightarrow> hwf h \<and> pinv (eng_ptr h) (heap h) (alerts_queue h)
     \<and> host_uses h = length (alerts_queue h)
     \<and> cinv (eng_ptr h) (heap h) (num_engaged_alerts h) (if_engaged h) (hs_score h)"

text \<open>The operations on the projections that the invariant is about.\<close>

lemma put_proj [simp]:
  "heap (put p a h) = (heap h)(p \<mapsto> a)" "alerts (put p a h) = alerts h"
  "alerts_queue (put p a h) = alerts_queue h" "host_uses (put p a h) = host_uses h"
  "num_engaged_alerts (put p a h) = num_engaged_alerts h" "if_engaged (put p a h) = if_engaged h"
  "hs_score (put p a h) = hs_score h" "engaged_at (put p a h) = engaged_at h"
  "eng_ptr (put p a h) = eng_ptr h" "hwf (put p a h) = hwf h"
  by (simp_all add: put_def engaged_at_def eng_ptr_def hwf_def fun_eq_iff)

lemma delete_proj [simp]:
  "heap (delete_alert p h) = (heap h)(p := None)" "alerts (delete_alert p h) = alerts h"
  "alerts_queue (delete_alert p h) = alerts_queue h" "host_uses (delete_alert p h) = host_uses h"
  "num_engaged_alerts (delete_alert p h) = num_engaged_alerts h"
  "if_engaged (delete_alert p h) = if_engaged h" "hs_score (delete_alert p h) = hs_score h"
  "engaged_at (delete_alert p h) = engaged_at h" "eng_ptr (delete_alert p h) = eng_ptr h"
  "hwf (delete_alert p h) = hwf h"
  by (simp_all add: delete_alert_def engaged_at_def eng_ptr_def hwf_def fun_eq_iff)

lemma update_proj [simp]:
  "eng_ptr (h\<lparr>hs_score := s\<rparr>) = eng_ptr h" "hwf (h\<lparr>hs_score := s\<rparr>) = hwf h"
  "eng_ptr (h\<lparr>alert_serial := n\<rparr>) = eng_ptr h" "hwf (h\<lparr>alert_serial := n\<rparr>) = hwf h"
  "eng_ptr (h\<lparr>alerts_queue := q\<rparr>) = eng_ptr h" "hwf (h\<lparr>alerts_queue := q\<rparr>) = hwf h"
  "eng_ptr (h\<lparr>host_uses := u\<rparr>) = eng_ptr h" "hwf (h\<lparr>host_uses := u\<rparr>) = hwf h"
  "engaged_at (h\<lparr>alert_serial := n\<rparr>) = engaged_at h" "engaged_at (h\<lparr>hs_score := s\<rparr>) = engaged_at h"
  "engaged_at (h\<lparr>alerts_queue := q\<rparr>) = engaged_at h" "engaged_at (h\<lparr>host_uses := u\<rparr>) = engaged_at h"
  by (simp_all add: engaged_at_def eng_ptr_def hwf_def fun_eq_iff)

lemma inc_dec_proj [simp]:
  "heap (incNumAlertsEngaged s h) = heap h" "heap (decNumAlertsEngaged s h) = heap h"
  "alerts (incNumAlertsEngaged s h) = alerts h" "alerts (decNumAlertsEngaged s h) = alerts h"
  "alerts_queue (incNumAlertsEngaged s h) = alerts_queue h"
  "alerts_queue (decNumAlertsEngaged s h) = alerts_queue h"
  "host_uses (incNumAlertsEngaged s h) = host_uses h" "host_uses (decNumAlertsEngaged s h) = host_uses h"
  "hs_score (incNumAlertsEngaged s h) = hs_score h" "hs_score (decNumAlertsEngaged s h) = hs_score h"
  "num_engaged_alerts (incNumAlertsEngaged s h) = num_engaged_alerts h + 1"
  "num_engaged_alerts (decNumAlertsEngaged s h) = num_engaged_alerts h - 1"
  by (simp_all add: incNumAlertsEngaged_def decNumAlertsEngaged_def Let_def)

lemma addEngagedAlert_proj:
  assumes "hwf h" "eng_ptr h (ha_check_id a) = None" "ha_check_id a < NUM_DEFINED_HOST_CHECKS"
    and "h' = snd (addEngagedAlert p a h)" and "g = mapAlertLevelToGroup (severity_of a)"
  shows "hwf h'" "eng_ptr h' = (eng_ptr h)(ha_check_id a \<mapsto> p)" "heap h' = heap h"
    "alerts_queue h' = alerts_queue h" "host_uses h' = host_uses h" "hs_score h' = hs_score h"
    "num_engaged_alerts h' = num_engaged_alerts h + 1"
    "if_engaged h' = (if g = alert_level_group_none then if_engaged h
       else (if_engaged h)(g := if_engaged h g + 1))"
  using assms
  by (auto simp: addEngagedAlert_def Let_def hwf_def eng_ptr_def engaged_at_def fun_eq_iff nth_list_update
      incNumAlertsEngaged_def split: option.splits)

lemma removeEngagedAlert_proj:
  assumes "hwf h" "eng_ptr h (ha_check_id a) = Some p"
    and "h' = snd (removeEngagedAlert p a h)" and "g = mapAlertLevelToGroup (severity_of a)"
  shows "hwf h'" "eng_ptr h' = (eng_ptr h)(ha_check_id a := None)" "heap h' = heap h"
    "alerts_queue h' = alerts_queue h" "host_uses h' = host_uses h" "hs_score h' = hs_score h"
    "num_engaged_alerts h' = num_engaged_alerts h - 1"
    "if_engaged h' = (if g = alert_level_group_none then if_engaged h
       else (if_engaged h)(g := if_engaged h g - 1))"
  using assms
  by (auto simp: removeEngagedAlert_def Let_def hwf_def eng_ptr_def engaged_at_def fun_eq_iff nth_list_update
      decNumAlertsEngaged_def split: option.splits if_splits)

section \<open>Every operation keeps the invariant\<close>

lemma enqueueHostAlert_cases:
  assumes "heap h p = Some a"
  shows "enqueueHostAlert de ring p h =
    (if \<not> de \<and> ring then Inr (h\<lparr>alerts_queue := alerts_queue h @ [(p, released a)], host_uses := host_uses h + 1\<rparr>)
     else if released a then Inr (delete_alert p h) else Inr h)"
  using assms by (simp add: enqueueHostAlert_def deref_def)

lemma hinvE:
  assumes "hinv h"
  shows "hwf h" "pinv (eng_ptr h) (heap h) (alerts_queue h)" "host_uses h = length (alerts_queue h)"
    "cinv (eng_ptr h) (heap h) (num_engaged_alerts h) (if_engaged h) (hs_score h)"
  using assms by (simp_all add: hinv_def)

lemma hinv_free:
  assumes "hinv h" "heap h p = None"
  shows "eng_ptr h c \<noteq> Some p" "(p, r) \<notin> set (alerts_queue h)"
  using pinv_free [OF hinvE(2) [OF assms(1)] assms(2)] by blast+

lemma hinv_engaged:
  assumes "hinv h" "eng_ptr h c = Some p"
  obtains a where "heap h p = Some a" "ha_check_id a = c" "\<not> released a"
    "c < NUM_DEFINED_HOST_CHECKS" "engaged_at h c = Some p"
proof -
  obtain a where "heap h p = Some a" "ha_check_id a = c" "\<not> released a" "c < NUM_DEFINED_HOST_CHECKS"
    by (rule pinv_engaged [OF hinvE(2) [OF assms(1)] assms(2)])
  then show ?thesis using that assms(2) by (simp add: eng_ptr_def)
qed

lemma hinv_new: "hinv HostState_new"
proof -
  have E: "eng_ptr HostState_new = (\<lambda>_. None)"
    by (simp add: eng_ptr_def engaged_at_def HostState_new_def fun_eq_iff)
  have "pinv (\<lambda>_. None) (\<lambda>_. None) []" by (simp add: pinv_def)
  moreover have "cinv (\<lambda>_. None) (\<lambda>_. None) 0 (\<lambda>_. 0) (Score_new False)" by (simp add: cinv_def esum_def)
  ultimately show ?thesis by (simp add: hinv_def E hwf_def) (simp add: HostState_new_def)
qed

lemma hinv_touch:
  assumes "hinv h" "eng_ptr h c = Some p" "heap h p = Some a"
    and "same_weights b a" "ha_check_id b = ha_check_id a" "\<not> released b"
  shows "hinv (put p b h)"
proof -
  have "ha_check_id b = c" by (rule hinv_engaged [OF assms(1,2)]) (use assms in simp)
  then have "pinv (eng_ptr h) ((heap h)(p \<mapsto> b)) (alerts_queue h)"
    by (rule pinv_refresh [OF hinvE(2) [OF assms(1)] assms(2) _ assms(6)])
  moreover have "cinv (eng_ptr h) ((heap h)(p \<mapsto> b)) (num_engaged_alerts h) (if_engaged h) (hs_score h)"
    by (rule cinv_refresh [OF hinvE(2) [OF assms(1)] hinvE(4) [OF assms(1)] assms(2-4)])
  ultimately show ?thesis using hinvE(1,3) [OF assms(1)] by (simp add: hinv_def)
qed

lemma hinv_serial [simp]: "hinv (h\<lparr>alert_serial := n\<rparr>) = hinv h"
  by (simp add: hinv_def)

lemma hinv_put_delete:
  assumes "hinv h" "heap h p = None"
  shows "hinv (delete_alert p (put p a h))"
proof -
  have "((heap h)(p \<mapsto> a))(p := None) = heap h" using assms(2) by (simp add: fun_upd_idem)
  then show ?thesis using hinvE [OF assms(1)] by (simp add: hinv_def)
qed

text \<open>The last part of a trigger: score, slot and queue.\<close>

lemma hinv_engage:
  assumes "hinv h" "heap h p = None" "eng_ptr h (ha_check_id a) = None" "\<not> released a"
    and "ha_check_id a < NUM_DEFINED_HOST_CHECKS"
  shows "\<exists>h'. enqueueHostAlert de ring p (snd (addEngagedAlert p a (inc_scores a (put p a h)))) = Inr h'
    \<and> hinv h' \<and> eng_ptr h' = (eng_ptr h)(ha_check_id a \<mapsto> p) \<and> heap h' = (heap h)(p \<mapsto> a)"
proof -
  let ?h = "inc_scores a (put p a h)"
  define h1 where "h1 = snd (addEngagedAlert p a ?h)"
  note I = hinvE [OF assms(1)]
  have "hwf ?h" "eng_ptr ?h (ha_check_id a) = None"
    using I(1) assms(3) by (simp_all add: inc_scores_eq)
  note A = addEngagedAlert_proj [OF this assms(5) h1_def refl]
  have hp: "heap h1 p = Some a" by (simp add: A inc_scores_eq)
  note free = hinv_free [OF assms(1,2)]
  have p: "pinv (eng_ptr h1) (heap h1) Q'"
    if "Q' = alerts_queue h1 \<or> Q' = alerts_queue h1 @ [(p, False)]" for Q'
    using pinv_add [OF I(2) assms(2-5), of Q'] that by (simp add: A inc_scores_eq)
  have c: "cinv (eng_ptr h1) (heap h1) (num_engaged_alerts h1) (if_engaged h1) (hs_score h1)"
    using cinv_add [OF I(4) assms(3,5) free(1) refl, where a = a]
    by (simp add: A inc_scores_eq split: if_splits)
  have u: "host_uses h1 = length (alerts_queue h1)" using I(3) by (simp add: A inc_scores_eq)
  have "hinv h1" using A(1) p c u by (simp add: hinv_def)
  moreover have "hinv (h1\<lparr>alerts_queue := alerts_queue h1 @ [(p, False)], host_uses := host_uses h1 + 1\<rparr>)"
    using A(1) p c u by (simp add: hinv_def)
  ultimately show ?thesis
    unfolding h1_def [symmetric] using assms(4)
    by (simp add: enqueueHostAlert_cases [OF hp] A(2,3)) (simp add: inc_scores_eq)
qed

definition trig_state :: "c_error + (bool \<times> host_state) \<Rightarrow> c_error + host_state" where
  "trig_state r = (case r of Inl e \<Rightarrow> Inl e | Inr (_, h) \<Rightarrow> Inr h)"

text \<open>
  What a trigger of a new alert does besides: it touches no other slot and no other
  alert, and unless it is suppressed, a free slot ends up with the alert, not expiring.
\<close>

definition trigger_effect ::
  "bool \<Rightarrow> nat \<Rightarrow> host_alert \<Rightarrow> host_state \<Rightarrow> host_state \<Rightarrow> bool" where
  "trigger_effect suppressed p a h h' \<longleftrightarrow>
     (\<forall>q. q \<noteq> p \<longrightarrow> heap h' q = heap h q)
     \<and> (\<forall>c. c \<noteq> ha_check_id a \<longrightarrow> eng_ptr h' c = eng_ptr h c)
     \<and> (\<not> suppressed \<and> eng_ptr h (ha_check_id a) \<in> {None, Some p} \<longrightarrow>
          eng_ptr h' (ha_check_id a) = Some p
          \<and> (\<exists>b. heap h' p = Some b \<and> \<not> expiring b \<and> ha_alert_id b = ha_alert_id a))
     \<and> (suppressed \<longrightarrow> eng_ptr h' = eng_ptr h)"

lemma triggerAlert_new_spec:
  assumes "hinv h" "heap h p = None" "\<not> released a" "ha_check_id a < NUM_DEFINED_HOST_CHECKS"
  shows "\<exists>h'. trig_state (triggerAlert de dis ring p (put p a h)) = Inr h' \<and> hinv h'
    \<and> trigger_effect (de \<or> dis (ha_alert_id a)) p a h h'"
proof (cases "de \<or> dis (ha_alert_id a)")
  case True
  moreover have "engaged_at h (ha_check_id a) \<noteq> Some p"
    using hinv_free(1) [OF assms(1,2), of "ha_check_id a"] assms(4) by (simp add: eng_ptr_def)
  ultimately show ?thesis
    using hinv_put_delete [OF assms(1,2)]
    by (auto simp: triggerAlert_def deref_def trig_state_def trigger_effect_def)
next
  case False
  define row where "row = (if getRowID a = 0 then alert_serial h else ucast (getRowID a))"
  define h0 where "h0 = (if getRowID a = 0 then h\<lparr>alert_serial := alert_serial h + 1\<rparr> else h)"
  let ?a = "setEngaged row a"
  have inv0: "hinv h0" "heap h0 p = None" using assms(1,2) by (simp_all add: h0_def)
  have a: "ha_check_id ?a = ha_check_id a" "\<not> released ?a" by (simp_all add: setEngaged_def)
  have put0: "put p ?a (put p a h') = put p ?a h'" for h' by (simp add: put_def)
  have pe: "engaged_at h0 (ha_check_id a) = engaged_at h (ha_check_id a)" by (simp add: h0_def)
  have ser: "put p ?a (if getRowID a = 0
      then put p a h\<lparr>alert_serial := alert_serial (put p a h) + 1\<rparr> else put p a h) = put p ?a h0"
    by (simp add: put_def h0_def)
  have ne: "engaged_at h (ha_check_id a) \<noteq> Some p"
    using hinv_free(1) [OF assms(1,2), of "ha_check_id a"] assms(4) by (simp add: eng_ptr_def)
  have eq: "triggerAlert de dis ring p (put p a h) =
     (case engaged_at h (ha_check_id a) of
        Some q \<Rightarrow> if q = p then Inr (True, put p ?a h0) else Inr (False, delete_alert p (put p ?a h0))
      | None \<Rightarrow> (case enqueueHostAlert de ring p (snd (addEngagedAlert p ?a (inc_scores ?a (put p ?a h0)))) of
            Inl e \<Rightarrow> Inl e | Inr h' \<Rightarrow> Inr (True, h')))"
  proof -
    have row: "row = (if getRowID a = 0 then alert_serial (put p a h) else ucast (getRowID a))"
      by (simp add: row_def put_def)
    have slot: "engaged_at (if getRowID a = 0 then put p a h\<lparr>alert_serial := alert_serial (put p a h) + 1\<rparr>
        else put p a h) = engaged_at h"
      by simp
    show ?thesis
      unfolding triggerAlert_def deref_def Let_def using False
      by (simp only: put_proj fun_upd_same option.case sum.case if_False ser a slot row [symmetric])
  qed
  show ?thesis
  proof (cases "engaged_at h (ha_check_id a)")
    case (Some q)
    then have "eng_ptr h (ha_check_id a) = Some q" using assms(4) by (simp add: eng_ptr_def)
    moreover have "trig_state (triggerAlert de dis ring p (put p a h)) = Inr (delete_alert p (put p ?a h0))"
      using Some ne by (simp add: eq trig_state_def)
    moreover have "eng_ptr h0 = eng_ptr h" "heap h0 = heap h" by (simp_all add: h0_def)
    ultimately show ?thesis
      using Some ne False hinv_put_delete [OF inv0] by (simp add: trigger_effect_def)
  next
    case None
    then have "eng_ptr h0 (ha_check_id ?a) = None" by (simp add: eng_ptr_def pe a)
    from hinv_engage [OF inv0 this a(2), of de ring] assms(4) a
    obtain h' where "enqueueHostAlert de ring p (snd (addEngagedAlert p ?a (inc_scores ?a (put p ?a h0)))) = Inr h'"
      and h': "hinv h'" "eng_ptr h' = (eng_ptr h0)(ha_check_id a \<mapsto> p)" "heap h' = (heap h0)(p \<mapsto> ?a)" by auto
    then have "trig_state (triggerAlert de dis ring p (put p a h)) = Inr h'"
      by (simp add: eq None trig_state_def)
    moreover have "eng_ptr h0 = eng_ptr h" "heap h0 = heap h" by (simp_all add: h0_def)
    ultimately show ?thesis
      using False h' by (simp add: trigger_effect_def) (simp add: setEngaged_def)
  qed
qed

lemma triggerAlert_new_inv:
  assumes "hinv h" "heap h p = None" "\<not> released a" "ha_check_id a < NUM_DEFINED_HOST_CHECKS"
  shows "\<exists>h'. trig_state (triggerAlert de dis ring p (put p a h)) = Inr h' \<and> hinv h'"
  using triggerAlert_new_spec [OF assms] by blast

lemma triggerAlert_again_spec:
  assumes "hinv h" "eng_ptr h c = Some p" "heap h p = Some a"
  shows "\<exists>h'. trig_state (triggerAlert de dis ring p h) = Inr h' \<and> hinv h'
    \<and> trigger_effect (de \<or> dis (ha_alert_id a)) p a h h'"
proof -
  obtain b where "heap h p = Some b" "ha_check_id b = c" "\<not> released b" "engaged_at h c = Some p"
    by (rule hinv_engaged [OF assms(1,2)])
  then have a: "heap h p = Some a" "ha_check_id a = c" "\<not> released a" "engaged_at h c = Some p"
    using assms(3) by simp_all
  have "hinv (put p (a\<lparr>expiring := True\<rparr>) h)"
    by (rule hinv_touch [OF assms]) (use a in \<open>simp_all add: same_weights_def\<close>)
  moreover have "hinv (put p (setEngaged row a) h')" if "h' = h \<or> h' = h\<lparr>alert_serial := n\<rparr>" for row h' n
    by (rule hinv_touch [of _ c _ a]) (use that assms a in \<open>auto simp: same_weights_def setEngaged_def\<close>)
  ultimately show ?thesis
    using a assms(2)
    by (auto simp: triggerAlert_def deref_def trig_state_def Let_def setEngaged_def trigger_effect_def)
qed

lemma triggerAlert_again_inv:
  assumes "hinv h" "eng_ptr h c = Some p"
  shows "\<exists>h'. trig_state (triggerAlert de dis ring p h) = Inr h' \<and> hinv h'"
proof -
  obtain a where "heap h p = Some a" by (rule hinv_engaged [OF assms])
  then show ?thesis using triggerAlert_again_spec [OF assms] by blast
qed

text \<open>A release before its last step, the enqueue.\<close>

lemma releaseAlert_parts:
  assumes "hinv h" "eng_ptr h c = Some p"
  obtains h' d where
    "\<And>de ring. releaseAlert de tick now ring p h = enqueueHostAlert de ring p h'"
    "released d" "hwf h'" "eng_ptr h' = (eng_ptr h)(c := None)" "heap h' = (heap h)(p \<mapsto> d)"
    "alerts_queue h' = alerts_queue h" "host_uses h' = length (alerts_queue h)"
    "\<And>x. cinv ((eng_ptr h)(c := None)) ((heap h)(p := x)) (num_engaged_alerts h') (if_engaged h') (hs_score h')"
proof -
  obtain a where a: "heap h p = Some a" "ha_check_id a = c" "\<not> released a" "engaged_at h c = Some p"
    by (rule hinv_engaged [OF assms(1,2)])
  note I = hinvE [OF assms(1)]
  define b where "b = HostAlert_release now a"
  define h1 where "h1 = snd (removeEngagedAlert p b (put p b h))"
  define d where "d = (if num_engaged_alerts h1 = 0 then b\<lparr>last_released_for_host := True\<rparr> else b)"
  define h2 where "h2 = dec_scores tick d (put p d h1)"
  have b: "ha_check_id b = c" by (simp add: b_def HostAlert_release_def a)
  have sw: "same_weights b a" "same_weights d a" "released d"
    by (simp_all add: b_def d_def HostAlert_release_def same_weights_def)
  have bd: "mapAlertLevelToGroup (severity_of b) = mapAlertLevelToGroup (severity_of d)"
    using sw by (simp add: same_weights_def severity_of_def)
  have "hwf (put p b h)" "eng_ptr (put p b h) (ha_check_id b) = Some p"
    using I(1) assms(2) b by simp_all
  note R = removeEngagedAlert_proj [OF this h1_def refl]
  have pr: "hwf h2" "eng_ptr h2 = (eng_ptr h)(c := None)" "heap h2 = (heap h)(p \<mapsto> d)"
    "alerts_queue h2 = alerts_queue h" "host_uses h2 = length (alerts_queue h)"
    "hs_score h2 = score_dec tick d (hs_score h)" "num_engaged_alerts h2 = num_engaged_alerts h - 1"
    "if_engaged h2 = (if mapAlertLevelToGroup (severity_of d) = alert_level_group_none then if_engaged h
       else (if_engaged h)(mapAlertLevelToGroup (severity_of d) :=
         if_engaged h (mapAlertLevelToGroup (severity_of d)) - 1))"
    using R I(3) by (simp_all add: h2_def dec_scores_eq b bd)
  have eq: "releaseAlert de tick now ring p h = enqueueHostAlert de ring p h2" for de ring
    by (simp add: releaseAlert_def deref_def a Let_def h2_def d_def h1_def b_def)
  have c: "cinv ((eng_ptr h)(c := None)) ((heap h)(p := x)) (num_engaged_alerts h2) (if_engaged h2) (hs_score h2)" for x
    unfolding pr by (rule cinv_remove [OF I(2,4) assms(2) a(1) sw(2) refl])
  show thesis by (rule that [OF eq sw(3) pr(1-5) c])
qed

lemma releaseAlert_inv:
  assumes "hinv h" "eng_ptr h c = Some p" "\<not> de \<and> ring \<or> p \<notin> fst ` set (alerts_queue h)"
  shows "\<exists>h'. releaseAlert de tick now ring p h = Inr h' \<and> hinv h' \<and> eng_ptr h' = (eng_ptr h)(c := None)
    \<and> (\<forall>q. q \<noteq> p \<longrightarrow> heap h' q = heap h q)"
proof -
  obtain h2 d where eq: "\<And>de ring. releaseAlert de tick now ring p h = enqueueHostAlert de ring p h2"
    and d: "released d"
    and pr: "hwf h2" "eng_ptr h2 = (eng_ptr h)(c := None)" "heap h2 = (heap h)(p \<mapsto> d)"
      "alerts_queue h2 = alerts_queue h" "host_uses h2 = length (alerts_queue h)"
    and c: "\<And>x. cinv ((eng_ptr h)(c := None)) ((heap h)(p := x)) (num_engaged_alerts h2) (if_engaged h2) (hs_score h2)"
    using releaseAlert_parts [where tick = tick and now = now, OF assms(1,2)] by metis
  have p: "pinv ((eng_ptr h)(c := None)) H' Q'"
    if "H' = (heap h)(p \<mapsto> d) \<and> Q' = alerts_queue h @ [(p, True)]
      \<or> H' = (heap h)(p := None) \<and> Q' = alerts_queue h \<and> p \<notin> fst ` set (alerts_queue h)" for H' Q'
    by (rule pinv_release [OF hinvE(2) [OF assms(1)] assms(2) that])
  have hp: "heap h2 p = Some d" by (simp add: pr)
  have "hinv (h2\<lparr>alerts_queue := alerts_queue h2 @ [(p, True)], host_uses := host_uses h2 + 1\<rparr>)"
    using c p by (simp add: hinv_def pr)
  moreover have "hinv (delete_alert p h2)" if "p \<notin> fst ` set (alerts_queue h)"
    using c p that by (simp add: hinv_def pr)
  ultimately show ?thesis
    unfolding eq enqueueHostAlert_cases [OF hp] using assms(3) d by (auto simp: pr(2,3))
qed

lemma storeAlert_inv:
  assumes "hinv h" "heap h p = None" "\<not> released a" "ring2 \<or> \<not> ring1"
  shows "\<exists>h'. trig_state (storeAlert de dis now ring1 ring2 p (put p a h)) = Inr h' \<and> hinv h'"
proof (cases "de \<or> dis (ha_alert_id a)")
  case True
  then show ?thesis
    using hinv_put_delete [OF assms(1,2)] by (auto simp: storeAlert_def deref_def trig_state_def)
next
  case False
  note I = hinvE [OF assms(1)]
  note free = hinv_free [OF assms(1,2)]
  let ?b = "HostAlert_release now a"
  define d where "d = (if num_engaged_alerts h = 0 then ?b\<lparr>last_released_for_host := True\<rparr> else ?b)"
  have d: "released d" by (simp add: d_def HostAlert_release_def)
  have c: "cinv (eng_ptr h) ((heap h)(p := x)) (num_engaged_alerts h) (if_engaged h) (hs_score h)" for x
    by (rule cinv_other [OF I(4) free(1)])
  have p: "pinv (eng_ptr h) ((heap h)(p \<mapsto> d)) Q'"
    if "Q' = alerts_queue h @ [(p, False), (p, True)] \<or> Q' = alerts_queue h @ [(p, True)]" for Q'
    by (rule pinv_store [OF I(2) assms(2) that])
  have hp: "((heap h)(p := x))(p := None) = heap h" "(heap h)(p := None) = heap h" for x
    using assms(2) by (simp_all add: fun_upd_idem)
  show ?thesis
    using False assms(3,4) c p d I
    by (cases ring1; cases ring2)
      (simp_all add: storeAlert_def deref_def trig_state_def enqueueHostAlert_def Let_def hinv_def
        d_def [symmetric] hp)
qed

lemma dequeueHostAlert_inv:
  assumes "hinv h"
  shows "\<exists>h'. dequeueHostAlert h = Inr h' \<and> hinv h' \<and> eng_ptr h' = eng_ptr h"
proof (cases "alerts_queue h")
  case Nil
  then show ?thesis using assms by (simp add: dequeueHostAlert_def)
next
  case (Cons e q)
  obtain p r where e: "e = (p, r)" by (cases e)
  note I = hinvE [OF assms]
  have P: "pinv (eng_ptr h) (heap h) ((p, r) # q)" using I(2) Cons e by simp
  obtain a where a: "heap h p = Some a" using pinv_queued [OF P, of p r] by auto
  have "eng_ptr h c \<noteq> Some p" if r for c
  proof
    assume "eng_ptr h c = Some p"
    then show False using that by (elim pinv_engaged [OF P]) simp
  qed
  then have c: "cinv (eng_ptr h) (if r then (heap h)(p := None) else heap h)
      (num_engaged_alerts h) (if_engaged h) (hs_score h)"
    using I(4) by (simp add: cinv_other)
  show ?thesis
    using pinv_dequeue [OF P] c I(1,3) Cons e a
    by (cases r) (simp_all add: dequeueHostAlert_def deref_def Let_def hinv_def)
qed

section \<open>Histories\<close>

text \<open>
  What the packet thread and the notification thread do to the alerts of one host, in any
  order. A new alert comes from \<open>new\<close>, at an address that is not in use; a refresh, a
  change of the expiry fields and a release are of an engaged alert, as in the executor.
  The ring may refuse any element, and the preference may forbid alerts at any time, but
  a released alert is only refused when no entry of it is still queued: what happens
  otherwise is \<open>releaseAlert_dangling\<close> below.
\<close>

inductive host_step :: "host_state \<Rightarrow> c_error + host_state \<Rightarrow> bool" where
  step_trigger: "heap h p = None \<Longrightarrow> \<not> released a \<Longrightarrow> ha_check_id a < NUM_DEFINED_HOST_CHECKS \<Longrightarrow>
    host_step h (trig_state (triggerAlert de dis ring p (put p a h)))"
| step_refresh: "eng_ptr h c = Some p \<Longrightarrow> host_step h (trig_state (triggerAlert de dis ring p h))"
| step_touch: "eng_ptr h c = Some p \<Longrightarrow> heap h p = Some a \<Longrightarrow>
    host_step h (Inr (put p (a\<lparr>expiring := ex, forced_release := fr, timeout_time := t\<rparr>) h))"
| step_release: "eng_ptr h c = Some p \<Longrightarrow> \<not> de \<and> ring \<or> p \<notin> fst ` set (alerts_queue h) \<Longrightarrow>
    host_step h (releaseAlert de tick now ring p h)"
| step_store: "heap h p = None \<Longrightarrow> \<not> released a \<Longrightarrow> ring2 \<or> \<not> ring1 \<Longrightarrow>
    host_step h (trig_state (storeAlert de dis now ring1 ring2 p (put p a h)))"
| step_dequeue: "host_step h (dequeueHostAlert h)"

inductive host_reach :: "c_error + host_state \<Rightarrow> bool" where
  reach_new: "host_reach (Inr HostState_new)"
| reach_step: "host_reach (Inr h) \<Longrightarrow> host_step h r \<Longrightarrow> host_reach r"

lemma host_step_inv:
  assumes "host_step h r" "hinv h"
  shows "\<exists>h'. r = Inr h' \<and> hinv h'"
  using assms
proof cases
  case (step_touch c p a ex fr t)
  obtain b where "heap h p = Some b" "\<not> released b" by (rule hinv_engaged [OF assms(2) step_touch(2)])
  then show ?thesis
    using hinv_touch [OF assms(2) step_touch(2,3)] step_touch by (simp add: same_weights_def)
next
  case (step_release c p de ring tick now)
  then show ?thesis using releaseAlert_inv [OF assms(2)] by blast
next
  case step_dequeue
  then show ?thesis using dequeueHostAlert_inv [OF assms(2)] by blast
qed (use triggerAlert_new_inv triggerAlert_again_inv storeAlert_inv assms(2) in metis)+

lemma host_reach_inv: "host_reach r \<Longrightarrow> \<exists>h. r = Inr h \<and> hinv h"
proof (induction rule: host_reach.induct)
  case reach_new
  then show ?case using hinv_new by blast
next
  case (reach_step h r)
  then show ?case using host_step_inv by auto
qed

lemma hinv_uses: "hinv h \<Longrightarrow> host_uses h = length (alerts_queue h)"
  by (rule hinvE)

lemma dequeueHostAlerts_drains:
  assumes "hinv h"
  shows "\<exists>h'. dequeueHostAlerts 0 n h = Inr (n + length (alerts_queue h), h')
    \<and> hinv h' \<and> alerts_queue h' = [] \<and> eng_ptr h' = eng_ptr h"
  using assms
proof (induction "length (alerts_queue h)" arbitrary: h n)
  case 0
  then show ?case by (simp add: dequeueHostAlerts.simps)
next
  case (Suc k)
  obtain h1 where h1: "dequeueHostAlert h = Inr h1" "hinv h1" "eng_ptr h1 = eng_ptr h"
    using dequeueHostAlert_inv [OF Suc.prems] by blast
  have q: "alerts_queue h1 = tl (alerts_queue h)" by (rule dequeueHostAlert_shrinks [OF h1(1)])
  have k: "k = length (alerts_queue h1)" using Suc.hyps(2) by (simp add: q)
  from Suc.hyps(1) [OF k h1(2), of "n + 1"]
  obtain h' where "dequeueHostAlerts 0 (n + 1) h1 = Inr (n + 1 + k, h')" "hinv h'"
    "alerts_queue h' = []" "eng_ptr h' = eng_ptr h1"
    using k by auto
  then show ?case
    using Suc.hyps(2) h1 by (subst dequeueHostAlerts.simps) auto
qed

lemma dequeue_dangling:
  assumes "released_last (alerts_queue h)" "heap h p = None" "p \<in> fst ` set (alerts_queue h)"
    and "\<And>q r. (q, r) \<in> set (alerts_queue h) \<Longrightarrow> q \<noteq> p \<Longrightarrow> heap h q \<noteq> None"
  shows "dequeueHostAlerts 0 n h = Inl Use_after_free"
  using assms
proof (induction "alerts_queue h" arbitrary: h n)
  case Nil
  then show ?case by simp
next
  case (Cons e Q)
  obtain q r where e: "e = (q, r)" by (cases e)
  show ?case
  proof (cases "q = p")
    case True
    then show ?thesis
      using Cons.hyps(2) e Cons.prems(2)
      by (subst dequeueHostAlerts.simps) (simp add: dequeueHostAlert_def deref_def flip: Cons.hyps(2))
  next
    case False
    then obtain a where a: "heap h q = Some a"
      using Cons.prems(4) [of q r] Cons.hyps(2) e by (metis list.set_intros(1) option.exhaust)
    define h1 where "h1 = (let g = h\<lparr>alerts_queue := Q\<rparr>; k = (if r then delete_alert q g else g)
      in k\<lparr>host_uses := host_uses k - 1\<rparr>)"
    have d: "dequeueHostAlert h = Inr h1"
      by (simp add: dequeueHostAlert_def deref_def a e h1_def Let_def flip: Cons.hyps(2))
    have h1: "alerts_queue h1 = Q" "heap h1 = (if r then (heap h)(q := None) else heap h)"
      by (simp_all add: h1_def Let_def)
    have rl: "released_last ((q, r) # Q)" using Cons.prems(1) Cons.hyps(2) e by simp
    have "dequeueHostAlerts 0 (n + 1) h1 = Inl Use_after_free"
    proof (rule Cons.hyps(1))
      show "Q = alerts_queue h1" "released_last (alerts_queue h1)" using h1 rl by simp_all
      show "heap h1 p = None" using Cons.prems(2) False by (simp add: h1)
      have "p \<in> fst ` set ((q, r) # Q)" using Cons.prems(3) Cons.hyps(2) e by simp
      then show "p \<in> fst ` set (alerts_queue h1)" using False h1 by simp
      fix q' r' assume *: "(q', r') \<in> set (alerts_queue h1)" "q' \<noteq> p"
      then have "heap h q' \<noteq> None" using Cons.prems(4) [of q' r'] Cons.hyps(2) h1 by (metis list.set_intros(2))
      moreover have "r \<longrightarrow> q' \<noteq> q" using rl * h1 by (auto simp: image_iff)
      ultimately show "heap h1 q' \<noteq> None" by (auto simp: h1)
    qed
    then show ?thesis using d Cons.hyps(2) by (subst dequeueHostAlerts.simps) (auto simp flip: Cons.hyps(2))
  qed
qed

lemma esum_empty: "(\<And>c. E c = None) \<Longrightarrow> esum f E H = 0"
  by (simp add: esum_def)

lemma release_checks_all:
  assumes "set cs \<subseteq> {..<NUM_DEFINED_HOST_CHECKS}" "hinv h"
  shows "\<exists>h'. release_checks False tick now (\<lambda>_. True) cs h = Inr h' \<and> hinv h'
    \<and> (\<forall>c. eng_ptr h' c = (if c \<in> set cs then None else eng_ptr h c))"
  using assms
proof (induction cs arbitrary: h)
  case (Cons c cs)
  show ?case
  proof (cases "engaged_at h c")
    case None
    then have "eng_ptr h c = None" by (simp add: eng_ptr_def)
    then show ?thesis using None Cons.IH [of h] Cons.prems by auto
  next
    case (Some p)
    then have "eng_ptr h c = Some p" using Cons.prems(1) by (simp add: eng_ptr_def)
    then obtain h1 where h1: "releaseAlert False tick now True p h = Inr h1" "hinv h1"
      "eng_ptr h1 = (eng_ptr h)(c := None)"
      using releaseAlert_inv [OF Cons.prems(2), of c p False True tick now] by auto
    then show ?thesis using Cons.IH [of h1] Cons.prems(1) by (auto simp: Some)
  qed
qed simp

lemma clear_checks_frees:
  assumes "hwf h" "pinv (eng_ptr h) (heap h) []" "set cs \<subseteq> {..<NUM_DEFINED_HOST_CHECKS}"
  shows "\<exists>h'. clear_checks cs h = Inr h' \<and> pinv (eng_ptr h') (heap h') []
    \<and> (\<forall>c. eng_ptr h' c = (if c \<in> set cs then None else eng_ptr h c))"
  using assms
proof (induction cs arbitrary: h)
  case (Cons c cs)
  show ?case
  proof (cases "engaged_at h c")
    case None
    then have "eng_ptr h c = None" by (simp add: eng_ptr_def)
    then show ?thesis using None Cons.IH [of h] Cons.prems by auto
  next
    case (Some p)
    then have e: "eng_ptr h c = Some p" using Cons.prems(3) by (simp add: eng_ptr_def)
    obtain a where a: "heap h p = Some a" "ha_check_id a = c" by (rule pinv_engaged [OF Cons.prems(2) e])
    define h1 where "h1 = snd (removeEngagedAlert p a h)"
    note R = removeEngagedAlert_proj [where a = a, OF Cons.prems(1) _ h1_def refl]
    have R': "hwf h1" "eng_ptr h1 = (eng_ptr h)(c := None)" "heap h1 = heap h" using R e a(2) by simp_all
    have "pinv ((eng_ptr h)(c := None)) ((heap h)(p := None)) []"
      by (rule pinv_release [OF Cons.prems(2) e]) simp
    then have p1: "pinv (eng_ptr (delete_alert p h1)) (heap (delete_alert p h1)) []"
      by (simp only: delete_proj R')
    have "hwf (delete_alert p h1)" "set cs \<subseteq> {..<NUM_DEFINED_HOST_CHECKS}"
      using R'(1) Cons.prems(3) by simp_all
    from Cons.IH [OF this(1) p1 this(2)] show ?thesis using a(1) by (auto simp: Some deref_def R' h1_def [symmetric])
  qed
qed simp

lemma all_checks: "set [0..<NUM_DEFINED_HOST_CHECKS] \<subseteq> {..<NUM_DEFINED_HOST_CHECKS}"
  by auto

lemma pinv_heap_empty: "pinv E H [] \<Longrightarrow> (\<And>c. E c = None) \<Longrightarrow> H = (\<lambda>_. None)"
  unfolding pinv_def fun_eq_iff by (metis list.set(1) empty_iff option.distinct(1))

section \<open>Properties\<close>

text \<open>
  C7: Along the histories of triggers, refreshes, releases, stores and notifications of a
  host in which no released alert is refused while its trigger is still queued, no alert is
  read after it was deleted: the run never fails, every queued alert is
  live, every engaged alert is live, not released and in the slot of its own check, and
  the host's reference count is the number of its queued entries. The steps \<open>step_release\<close> and
  \<open>step_store\<close> carry this restriction: the ring accepts a release (and alerts are on) unless nothing of
  the alert is queued, and of the two entries of a stored alert it does not take the first and refuse the
  second. Without it the code does read deleted alerts: that is \<open>releaseAlert_dangling\<close>.
\<close>
theorem host_alerts_no_use_after_free:
  assumes "host_reach r"
  shows "\<exists>h. r = Inr h \<and> (\<forall>p rel. (p, rel) \<in> set (alerts_queue h) \<longrightarrow> heap h p \<noteq> None)
    \<and> (\<forall>c p. c < NUM_DEFINED_HOST_CHECKS \<longrightarrow> engaged_at h c = Some p \<longrightarrow>
         (\<exists>a. heap h p = Some a \<and> ha_check_id a = c \<and> \<not> released a))
    \<and> host_uses h = length (alerts_queue h)"
proof -
  obtain h where h: "r = Inr h" "hinv h" using host_reach_inv [OF assms] by blast
  have "heap h p \<noteq> None" if "(p, rel) \<in> set (alerts_queue h)" for p rel
    using pinv_queued [OF hinvE(2) [OF h(2)] that] by auto
  moreover have "\<exists>a. heap h p = Some a \<and> ha_check_id a = c \<and> \<not> released a"
    if "c < NUM_DEFINED_HOST_CHECKS" "engaged_at h c = Some p" for c p
    by (rule hinv_engaged [OF h(2), of c p]) (use that in \<open>auto simp: eng_ptr_def\<close>)
  ultimately show ?thesis using h hinv_uses by blast
qed

text \<open>The concrete inputs of the witnesses: one alert, triggered on a new host.\<close>

definition wit_alert :: host_alert where
  "wit_alert = HostAlert_new 3 7 alert_category_network 50 True 80 1000"

definition wit_engaged :: "c_error + host_state" where
  "wit_engaged = trig_state (triggerAlert False (\<lambda>_. False) True 5 (put 5 wit_alert HostState_new))"

lemma wit_engaged_reach: "host_reach wit_engaged"
  unfolding wit_engaged_def
  by (rule reach_step [OF reach_new step_trigger])
    (simp_all add: HostState_new_def wit_alert_def HostAlert_new_def NUM_DEFINED_HOST_CHECKS_def)

lemma wit_engaged_state:
  obtains h where "wit_engaged = Inr h" "host_reach (Inr h)" "engaged_at h 3 = Some 5"
    "eng_ptr h 3 = Some 5" "alerts_queue h = [(5, False)]"
proof -
  obtain h where h: "wit_engaged = Inr h" "engaged_at h 3 = Some 5" "alerts_queue h = [(5, False)]"
    by (simp add: wit_engaged_def triggerAlert_def deref_def Let_def trig_state_def
        enqueueHostAlert_def addEngagedAlert_def inc_scores_def incNumAlertsEngaged_def put_def
        HostState_new_def wit_alert_def HostAlert_new_def getRowID_def setEngaged_def engaged_at_def
        NUM_DEFINED_HOST_CHECKS_def)
  show ?thesis
    using h wit_engaged_reach by (intro that [of h]) (simp_all add: eng_ptr_def NUM_DEFINED_HOST_CHECKS_def)
qed

theorem host_alerts_no_use_after_free_witness:
  "\<exists>h. wit_engaged = Inr h \<and> host_uses h = length (alerts_queue h)"
  using host_alerts_no_use_after_free [OF wit_engaged_reach] by blast

lemma esum_one_card:
  assumes "pinv E H Q"
  shows "esum (\<lambda>_. 1) E H = card {c. c < NUM_DEFINED_HOST_CHECKS \<and> E c \<noteq> None}"
proof -
  have "(case E c of None \<Rightarrow> 0 | Some p \<Rightarrow> (case H p of None \<Rightarrow> 0 | Some a \<Rightarrow> 1)) =
      (if E c \<noteq> None then 1 else (0::nat))" for c
  proof (cases "E c")
    case (Some p)
    show ?thesis by (rule pinv_engaged [OF assms Some]) (simp add: Some)
  qed simp
  then have "esum (\<lambda>_. 1) E H = (\<Sum>c<NUM_DEFINED_HOST_CHECKS. if E c \<noteq> None then 1 else 0)"
    unfolding esum_def by (intro sum.cong refl) simp
  also have "\<dots> = card ({..<NUM_DEFINED_HOST_CHECKS} \<inter> {c. E c \<noteq> None})"
    by (simp add: sum.If_cases)
  also have "{..<NUM_DEFINED_HOST_CHECKS} \<inter> {c. E c \<noteq> None} = {c. c < NUM_DEFINED_HOST_CHECKS \<and> E c \<noteq> None}"
    by auto
  finally show ?thesis .
qed

text \<open>
  C12: Along the same histories the counters of a host agree with its engaged alerts: the number
  of engaged alerts is the number of occupied slots, each severity counter of the
  interface is the number of engaged alerts of that severity group, and each of the four
  score counters (network or security, as client or as server) is the sum of the shares
  of the engaged alerts. No increment or decrement is lost or wraps. The histories are those of the
  alerts of the host alone: Flow::setAlertsMap and decAllFlowScores add to and take from the same Score
  object for the alerts of its flows, which \<open>decAllFlowScores_restores\<close> shows to cancel, and a ring that refuses a
  release while the alert is queued is excluded as above.
\<close>
theorem host_alerts_counters:
  assumes "host_reach (Inr h)"
  shows "unat (num_engaged_alerts h) = card {c. c < NUM_DEFINED_HOST_CHECKS \<and> engaged_at h c \<noteq> None}
    \<and> (\<forall>g. g \<noteq> alert_level_group_none \<longrightarrow> unat (if_engaged h g) = esum (w_group g) (eng_ptr h) (heap h))
    \<and> (\<forall>cat r. unat (score_value cat r (hs_score h)) = esum (w_score cat r) (eng_ptr h) (heap h))"
proof -
  have h: "hinv h" using host_reach_inv [OF assms] by auto
  note C = hinvE(4) [OF h, unfolded cinv_def]
  have small: "unat (of_nat (esum f E H) :: u32) = esum f E H" if "\<And>a. f a \<le> 1" for f E H
  proof -
    have "esum f E H \<le> NUM_DEFINED_HOST_CHECKS * 1" by (rule esum_bound) (rule that)
    then have "esum f E H < 2 ^ 32" by (simp add: NUM_DEFINED_HOST_CHECKS_def)
    then show ?thesis by (simp add: unat_of_nat take_bit_nat_eq_self)
  qed
  have "{c. c < NUM_DEFINED_HOST_CHECKS \<and> eng_ptr h c \<noteq> None}
      = {c. c < NUM_DEFINED_HOST_CHECKS \<and> engaged_at h c \<noteq> None}"
    by (auto simp: eng_ptr_def)
  then have "unat (num_engaged_alerts h) = card {c. c < NUM_DEFINED_HOST_CHECKS \<and> engaged_at h c \<noteq> None}"
    using C small [of "\<lambda>_. 1" "eng_ptr h" "heap h"] esum_one_card [OF hinvE(2) [OF h]] by simp
  moreover have "unat (if_engaged h g) = esum (w_group g) (eng_ptr h) (heap h)"
    if "g \<noteq> alert_level_group_none" for g
    using C that small [of "w_group g"] by (simp add: w_group_def)
  ultimately show ?thesis using C by blast
qed

theorem host_alerts_counters_witness:
  "\<exists>h. wit_engaged = Inr h
    \<and> unat (num_engaged_alerts h) = card {c. c < NUM_DEFINED_HOST_CHECKS \<and> engaged_at h c \<noteq> None}"
proof (rule wit_engaged_state)
  fix h assume "wit_engaged = Inr h" "host_reach (Inr h)"
  then show ?thesis using host_alerts_counters [of h] by blast
qed

text \<open>
  C32: When the ring refuses the released alert (or alerts were switched off meanwhile)
  while the entry of its trigger is still queued, the release deletes the alert under the
  queue: the notification thread then reads the deleted alert.
\<close>
theorem releaseAlert_dangling:
  assumes "host_reach (Inr h)" "c < NUM_DEFINED_HOST_CHECKS" "engaged_at h c = Some p"
    and "(p, False) \<in> set (alerts_queue h)" and "dontEmit \<or> \<not> ring_ok"
  shows "\<exists>h'. releaseAlert dontEmit tick now ring_ok p h = Inr h'
    \<and> dequeueHostAlerts 0 0 h' = Inl Use_after_free"
proof -
  have h: "hinv h" using host_reach_inv [OF assms(1)] by auto
  have e: "eng_ptr h c = Some p" using assms(2,3) by (simp add: eng_ptr_def)
  obtain h2 d where eq: "releaseAlert dontEmit tick now ring_ok p h = enqueueHostAlert dontEmit ring_ok p h2"
    and d: "released d" and pr: "heap h2 = (heap h)(p \<mapsto> d)" "alerts_queue h2 = alerts_queue h"
    using releaseAlert_parts [where tick = tick and now = now, OF h e] by metis
  have hp: "heap h2 p = Some d" by (simp add: pr)
  have "dequeueHostAlerts 0 0 (delete_alert p h2) = Inl Use_after_free"
  proof (rule dequeue_dangling)
    show "released_last (alerts_queue (delete_alert p h2))" using pinv_last [OF hinvE(2) [OF h]] by (simp add: pr)
    show "heap (delete_alert p h2) p = None" by simp
    show "p \<in> fst ` set (alerts_queue (delete_alert p h2))" using assms(4) by (force simp: pr)
    show "heap (delete_alert p h2) q \<noteq> None"
      if "(q, r) \<in> set (alerts_queue (delete_alert p h2))" "q \<noteq> p" for q r
      using that pinv_queued [OF hinvE(2) [OF h], of q r] by (auto simp: pr)
  qed
  then show ?thesis
    using assms(5) d by (auto simp: eq enqueueHostAlert_cases [OF hp])
qed

theorem releaseAlert_dangling_witness:
  "\<exists>h h'. wit_engaged = Inr h \<and> releaseAlert False 100 1060 False 5 h = Inr h'
    \<and> dequeueHostAlerts 0 0 h' = Inl Use_after_free"
proof (rule wit_engaged_state)
  fix h assume h: "wit_engaged = Inr h" "host_reach (Inr h)" "engaged_at h 3 = Some 5"
    "alerts_queue h = [(5, False)]"
  have "\<exists>h'. releaseAlert False 100 1060 False 5 h = Inr h' \<and> dequeueHostAlerts 0 0 h' = Inl Use_after_free"
    by (rule releaseAlert_dangling [OF h(2) _ h(3)])
      (simp_all add: h(4) NUM_DEFINED_HOST_CHECKS_def)
  then show ?thesis using h(1) by blast
qed

text \<open>
  C17: Leaving memory: a host that releases all its engaged alerts into a ring that accepts
  them ends with no engaged alert and with all score counters at zero; the notification
  loop then delivers every queued entry and stops, no alert is left in memory, and the
  reference count that holds the host back is zero.
\<close>
theorem host_alerts_teardown:
  assumes "host_reach (Inr h)"
  shows "\<exists>h1 h2. releaseAllEngagedAlerts False tick now (\<lambda>_. True) h = Inr h1
    \<and> num_engaged_alerts h1 = 0 \<and> (\<forall>cat r. score_value cat r (hs_score h1) = 0)
    \<and> dequeueHostAlerts 0 0 h1 = Inr (length (alerts_queue h1), h2)
    \<and> heap h2 = (\<lambda>_. None) \<and> host_uses h2 = 0"
proof -
  have h: "hinv h" using host_reach_inv [OF assms] by auto
  obtain h1 where r: "releaseAllEngagedAlerts False tick now (\<lambda>_. True) h = Inr h1" "hinv h1"
    and "\<forall>c. eng_ptr h1 c = (if c \<in> set [0..<NUM_DEFINED_HOST_CHECKS] then None else eng_ptr h c)"
    using release_checks_all [OF all_checks h, of tick now] unfolding releaseAllEngagedAlerts_def by blast
  then have E: "eng_ptr h1 c = None" for c by (simp add: eng_ptr_def)
  obtain h2 where d: "dequeueHostAlerts 0 0 h1 = Inr (length (alerts_queue h1), h2)"
    "hinv h2" "alerts_queue h2 = []" "eng_ptr h2 = eng_ptr h1"
    using dequeueHostAlerts_drains [OF r(2), of 0] by auto
  have c: "num_engaged_alerts h1 = 0 \<and> (\<forall>cat r. score_value cat r (hs_score h1) = 0)"
    using hinvE(4) [OF r(2)] by (simp add: cinv_def esum_empty [OF E] unsigned_eq_0_iff)
  have "pinv (eng_ptr h1) (heap h2) []" using hinvE(2) [OF d(2)] by (simp only: d(3,4))
  then have "heap h2 = (\<lambda>_. None)" by (rule pinv_heap_empty) (rule E)
  moreover have "host_uses h2 = 0" using hinvE(3) [OF d(2)] d(3) by simp
  ultimately show ?thesis using r(1) c d(1) by blast
qed

theorem host_alerts_teardown_witness:
  "\<exists>h h1 h2. wit_engaged = Inr h \<and> releaseAllEngagedAlerts False 100 1060 (\<lambda>_. True) h = Inr h1
    \<and> num_engaged_alerts h1 = 0
    \<and> dequeueHostAlerts 0 0 h1 = Inr (length (alerts_queue h1), h2) \<and> heap h2 = (\<lambda>_. None)"
proof (rule wit_engaged_state)
  fix h assume "wit_engaged = Inr h" "host_reach (Inr h)"
  then show ?thesis using host_alerts_teardown [of h 100 1060] by blast
qed

text \<open>
  The destructor of a host that no queue entry refers to frees every alert that is still
  engaged, and no alert is left in memory.
\<close>
theorem clearEngagedAlerts_frees:
  assumes "host_reach (Inr h)" "host_uses h = 0"
  shows "\<exists>h'. clearEngagedAlerts h = Inr h' \<and> heap h' = (\<lambda>_. None)"
proof -
  have h: "hinv h" using host_reach_inv [OF assms(1)] by auto
  then have Q: "alerts_queue h = []" using assms(2) by (simp add: hinv_uses)
  note P = hinvE(2) [OF h, unfolded Q]
  show ?thesis
  proof (cases "alerts h")
    case None
    then have "eng_ptr h c = None" for c by (simp add: eng_ptr_def engaged_at_def)
    with pinv_heap_empty [OF P] None show ?thesis by (simp add: clearEngagedAlerts_def)
  next
    case (Some i)
    obtain h1 where h1: "clear_checks [0..<NUM_DEFINED_HOST_CHECKS] h = Inr h1"
      "pinv (eng_ptr h1) (heap h1) []"
      "\<forall>c. eng_ptr h1 c = (if c \<in> set [0..<NUM_DEFINED_HOST_CHECKS] then None else eng_ptr h c)"
      using clear_checks_frees [OF hinvE(1) [OF h] P all_checks] by blast
    then have "eng_ptr h1 c = None" for c by (simp add: eng_ptr_def)
    with pinv_heap_empty [OF h1(2)] show ?thesis by (simp add: clearEngagedAlerts_def Some h1)
  qed
qed

end
