(* ===== verification/Host_Checks.thy ===== *)
theory Host_Checks
  imports Host_Alerts
begin

text \<open>
  The periodic checks of a host: src/src/AlertCounter.cpp, HostChecksExecutor.cpp,
  include/HostCheck.h, include/HostChecksStatus.h and the flood and contact checks of
  src/src/host_checks. Virtual methods are fields of the check. The contract of a check
  towards the executor is the locale \<open>host_check_contract\<close>, and the checks modelled here
  are interpretations of it. The risk percentages come from nDPI and are arguments, as is
  the address that the allocator returns.
\<close>

section \<open>AlertCounter\<close>

record alert_counter =
  time_last_hit :: int
  current_hits :: u16
  max_hits_since_reset :: u16
  hits_reset_req :: bool

definition reset_window :: "int \<Rightarrow> alert_counter \<Rightarrow> alert_counter" where
  "reset_window when c = c\<lparr>current_hits := 0, time_last_hit := when\<rparr>"

definition AlertCounter_new :: alert_counter where
  "AlertCounter_new = reset_window 0 \<lparr> time_last_hit = 0, current_hits = 0,
     max_hits_since_reset = 0, hits_reset_req = False \<rparr>"

definition AlertCounter_inc :: "int \<Rightarrow> alert_counter \<Rightarrow> alert_counter" where
  "AlertCounter_inc when c =
     (let c = (if hits_reset_req c
               then reset_window when (c\<lparr>max_hits_since_reset := 0, hits_reset_req := False\<rparr>) else c)
      in if when - time_last_hit c > 1 then
           reset_window when
             (if current_hits c > max_hits_since_reset c
              then c\<lparr>max_hits_since_reset := current_hits c\<rparr> else c)
         else c\<lparr>current_hits := current_hits c + 1\<rparr>)"

definition AlertCounter_hits :: "alert_counter \<Rightarrow> u16" where
  "AlertCounter_hits c =
     (if hits_reset_req c then 0
      else if max_hits_since_reset c > current_hits c then max_hits_since_reset c else current_hits c)"

definition reset_hits :: "alert_counter \<Rightarrow> alert_counter" where
  "reset_hits c = c\<lparr>hits_reset_req := True\<rparr>"

section \<open>The host as the checks see it\<close>

record check_host =
  ch_host :: host_state
  flow_flood_attacker :: alert_counter
  flow_flood_victim :: alert_counter
  icmp_flood_attacker :: alert_counter
  icmp_flood_victim :: alert_counter

definition Host_updateFlowFlood :: "int \<Rightarrow> bool \<Rightarrow> check_host \<Rightarrow> check_host" where
  "Host_updateFlowFlood t as_client s =
     (if as_client then s\<lparr>flow_flood_attacker := AlertCounter_inc t (flow_flood_attacker s)\<rparr>
      else s\<lparr>flow_flood_victim := AlertCounter_inc t (flow_flood_victim s)\<rparr>)"

definition updateICMPAlertsCounter :: "int \<Rightarrow> bool \<Rightarrow> check_host \<Rightarrow> check_host" where
  "updateICMPAlertsCounter t icmp_sent s =
     (if icmp_sent then s\<lparr>icmp_flood_attacker := AlertCounter_inc t (icmp_flood_attacker s)\<rparr>
      else s\<lparr>icmp_flood_victim := AlertCounter_inc t (icmp_flood_victim s)\<rparr>)"

definition reset_flow_flood_hits :: "check_host \<Rightarrow> check_host" where
  "reset_flow_flood_hits s = s\<lparr>flow_flood_victim := reset_hits (flow_flood_victim s),
     flow_flood_attacker := reset_hits (flow_flood_attacker s)\<rparr>"

definition reset_icmp_flood_hits :: "check_host \<Rightarrow> check_host" where
  "reset_icmp_flood_hits s = s\<lparr>icmp_flood_victim := reset_hits (icmp_flood_victim s),
     icmp_flood_attacker := reset_hits (icmp_flood_attacker s)\<rparr>"

record check_env =
  ce_dontEmit :: bool
  ce_disabled :: "u8 \<Rightarrow> bool"
  ce_tick :: u32
  ce_now :: int
  ce_ring :: "host_state \<Rightarrow> bool"
  ce_fresh :: "host_state \<Rightarrow> nat"
  ce_full_risk :: u8
  ce_no_risk :: u8
  ce_fair_risk :: u8

definition lift_host :: "(host_state \<Rightarrow> c_error + host_state) \<Rightarrow> check_host \<Rightarrow> c_error + check_host" where
  "lift_host f s = (case f (ch_host s) of Inl e \<Rightarrow> Inl e | Inr h \<Rightarrow> Inr (s\<lparr>ch_host := h\<rparr>))"

definition trigger_in :: "check_env \<Rightarrow> nat \<Rightarrow> host_state \<Rightarrow> c_error + host_state" where
  "trigger_in env p h = trig_state (triggerAlert (ce_dontEmit env) (ce_disabled env) (ce_ring env h) p h)"

section \<open>Checks\<close>

text \<open>
  allocAlert of each check: check id, alert type and score of the alert class. The checks
  that compare one value with a threshold trigger the engaged alert again, or a new one.
\<close>

definition trigger_or_alloc ::
  "check_env \<Rightarrow> host_alert \<Rightarrow> nat option \<Rightarrow> host_state \<Rightarrow> c_error + host_state" where
  "trigger_or_alloc env new engaged h =
     (case engaged of
        None \<Rightarrow> trigger_in env (ce_fresh env h) (put (ce_fresh env h) new h)
      | Some p \<Rightarrow> trigger_in env p h)"

definition FlowFloodAlert :: "check_env \<Rightarrow> u8 \<Rightarrow> u16 \<Rightarrow> bool \<Rightarrow> host_alert" where
  "FlowFloodAlert env pctg hits attacker =
     (HostAlert_new 3 4 alert_category_security 50 True pctg (ce_now env))
       \<lparr>is_attacker := attacker, is_victim := \<not> attacker, ha_hits := ucast hits\<rparr>"

definition ICMPFloodAlert :: "check_env \<Rightarrow> u8 \<Rightarrow> u16 \<Rightarrow> bool \<Rightarrow> host_alert" where
  "ICMPFloodAlert env pctg hits attacker =
     (HostAlert_new 15 18 alert_category_security 50 True pctg (ce_now env))
       \<lparr>is_attacker := attacker, is_victim := \<not> attacker, ha_hits := ucast hits\<rparr>"

definition triggerFlowHitsAlert ::
  "check_env \<Rightarrow> host_alert \<Rightarrow> bool \<Rightarrow> u16 \<Rightarrow> nat option \<Rightarrow> host_state \<Rightarrow> c_error + host_state" where
  "triggerFlowHitsAlert env new attacker hits engaged h =
     (case engaged of
        None \<Rightarrow> trigger_or_alloc env new None h
      | Some p \<Rightarrow>
          (case deref p h of
             Inl e \<Rightarrow> Inl e
           | Inr a \<Rightarrow>
               trigger_or_alloc env new (Some p)
                 (if is_attacker a = attacker then put p (a\<lparr>ha_hits := ucast hits\<rparr>) h else h)))"

definition flood_update ::
  "check_env \<Rightarrow> (check_env \<Rightarrow> u8 \<Rightarrow> u16 \<Rightarrow> bool \<Rightarrow> host_alert) \<Rightarrow> u64 \<Rightarrow> u16 \<Rightarrow> u16 \<Rightarrow> nat option \<Rightarrow>
   host_state \<Rightarrow> c_error + host_state" where
  "flood_update env allocAlert threshold att vic engaged h =
     (if ucast att > threshold then
        triggerFlowHitsAlert env (allocAlert env (ce_full_risk env) att True) True att engaged h
      else if ucast vic > threshold then
        triggerFlowHitsAlert env (allocAlert env (ce_no_risk env) vic False) False vic engaged h
      else Inr h)"

definition FlowFlood_periodicUpdate ::
  "check_env \<Rightarrow> u64 \<Rightarrow> nat option \<Rightarrow> check_host \<Rightarrow> c_error + check_host" where
  "FlowFlood_periodicUpdate env threshold engaged s =
     map_sum id reset_flow_flood_hits
       (lift_host (flood_update env FlowFloodAlert threshold (AlertCounter_hits (flow_flood_attacker s))
          (AlertCounter_hits (flow_flood_victim s)) engaged) s)"

definition ICMPFlood_periodicUpdate ::
  "check_env \<Rightarrow> u64 \<Rightarrow> nat option \<Rightarrow> check_host \<Rightarrow> c_error + check_host" where
  "ICMPFlood_periodicUpdate env threshold engaged s =
     map_sum id reset_icmp_flood_hits
       (lift_host (flood_update env ICMPFloodAlert threshold (AlertCounter_hits (icmp_flood_attacker s))
          (AlertCounter_hits (icmp_flood_victim s)) engaged) s)"

text \<open>The three server-contact checks: check id, alert id; all have score 10.\<close>

datatype server_contacts = DNSServerContacts | NTPServerContacts | SMTPServerContacts

fun ServerContacts_id :: "server_contacts \<Rightarrow> nat" where
  "ServerContacts_id NTPServerContacts = 4"
| "ServerContacts_id SMTPServerContacts = 5"
| "ServerContacts_id DNSServerContacts = 7"

fun ServerContacts_alert_id :: "server_contacts \<Rightarrow> u8" where
  "ServerContacts_alert_id SMTPServerContacts = 1"
| "ServerContacts_alert_id DNSServerContacts = 2"
| "ServerContacts_alert_id NTPServerContacts = 3"

definition ServerContacts_allocAlert :: "check_env \<Rightarrow> server_contacts \<Rightarrow> u8 \<Rightarrow> host_alert" where
  "ServerContacts_allocAlert env k pctg =
     HostAlert_new (ServerContacts_id k) (ServerContacts_alert_id k) alert_category_security 10 True
       pctg (ce_now env)"

definition ServerContacts_periodicUpdate ::
  "check_env \<Rightarrow> server_contacts \<Rightarrow> u64 \<Rightarrow> u32 \<Rightarrow> bool \<Rightarrow> nat option \<Rightarrow> check_host \<Rightarrow> c_error + check_host" where
  "ServerContacts_periodicUpdate env k threshold contacted is_server engaged s =
     (if ucast contacted > threshold \<and> \<not> is_server
      then lift_host (trigger_or_alloc env (ServerContacts_allocAlert env k (ce_full_risk env)) engaged) s
      else Inr s)"

definition RemoteConnection_periodicUpdate ::
  "check_env \<Rightarrow> u8 \<Rightarrow> nat option \<Rightarrow> check_host \<Rightarrow> c_error + check_host" where
  "RemoteConnection_periodicUpdate env num_remote_access engaged s =
     (if num_remote_access > 0
      then lift_host (trigger_or_alloc env
        (HostAlert_new 11 12 alert_category_network 10 True (ce_fair_risk env) (ce_now env)) engaged) s
      else Inr s)"

section \<open>The executor\<close>

record host_check =
  cb_id :: nat
  periodicity_secs :: u32
  cb_periodicUpdate :: "nat option \<Rightarrow> check_host \<Rightarrow> c_error + check_host"

definition isMinCheck :: "host_check \<Rightarrow> bool" where "isMinCheck cb \<longleftrightarrow> periodicity_secs cb = 60"

definition is5MinCheck :: "host_check \<Rightarrow> bool" where "is5MinCheck cb \<longleftrightarrow> periodicity_secs cb = 300"

definition isTimeToRunMinChecks :: "int \<Rightarrow> host_state \<Rightarrow> bool" where
  "isTimeToRunMinChecks now h \<longleftrightarrow> last_call_min h + 60 \<le> now"

definition isTimeToRun5MinChecks :: "int \<Rightarrow> host_state \<Rightarrow> bool" where
  "isTimeToRun5MinChecks now h \<longleftrightarrow> last_call_5min h + 300 \<le> now"

definition loadHostChecks :: "host_check list \<Rightarrow> nat \<Rightarrow> host_check option" where
  "loadHostChecks cbs = fold (\<lambda>cb m. m(cb_id cb \<mapsto> cb)) cbs (\<lambda>_. None)"

definition CONST_MAX_ALERT_ENGAGE_TIME :: int where "CONST_MAX_ALERT_ENGAGE_TIME = 60 * 60 * 24"

definition release_in :: "check_env \<Rightarrow> nat \<Rightarrow> host_state \<Rightarrow> c_error + host_state" where
  "release_in env p h =
     releaseAlert (ce_dontEmit env) (ce_tick env) (ce_now env) (ce_ring env h) p h"

definition release_disabled ::
  "check_env \<Rightarrow> (nat \<Rightarrow> host_check option) \<Rightarrow> nat \<Rightarrow> host_state \<Rightarrow> c_error + host_state" where
  "release_disabled env arr t h =
     (case engaged_at h t of
        None \<Rightarrow> Inr h
      | Some p \<Rightarrow>
          (case deref p h of
             Inl e \<Rightarrow> Inl e
           | Inr a \<Rightarrow>
               let max_engage_time = ce_now env - engage_time a > CONST_MAX_ALERT_ENGAGE_TIME;
                   disabled = arr t = None \<and> (timeout_time a = 0 \<or> ce_now env > timeout_time a)
                     \<and> (ha_auto_release a \<or> ce_dontEmit env)
               in if max_engage_time \<or> disabled then
                    release_in env p (if \<not> disabled then put p (a\<lparr>forced_release := True\<rparr>) h else h)
                  else Inr h))"

fun release_disabled_all ::
  "check_env \<Rightarrow> (nat \<Rightarrow> host_check option) \<Rightarrow> nat list \<Rightarrow> host_state \<Rightarrow> c_error + host_state" where
  "release_disabled_all env arr [] h = Inr h"
| "release_disabled_all env arr (t # ts) h =
     (case release_disabled env arr t h of
        Inl e \<Rightarrow> Inl e | Inr h1 \<Rightarrow> release_disabled_all env arr ts h1)"

definition releaseAllDisabledAlerts ::
  "check_env \<Rightarrow> host_check list \<Rightarrow> host_state \<Rightarrow> c_error + host_state" where
  "releaseAllDisabledAlerts env cbs h =
     release_disabled_all env (loadHostChecks cbs) [0..<NUM_DEFINED_HOST_CHECKS] h"

text \<open>One round of the loop of execChecks, for a check that is due.\<close>

definition set_expiring :: "nat \<Rightarrow> host_state \<Rightarrow> c_error + host_state" where
  "set_expiring ct h =
     (case engaged_at h ct of
        None \<Rightarrow> Inr h
      | Some p \<Rightarrow>
          (case deref p h of
             Inl e \<Rightarrow> Inl e
           | Inr a \<Rightarrow> Inr (if ha_auto_release a then put p (a\<lparr>expiring := True\<rparr>) h else h)))"

definition release_expired :: "check_env \<Rightarrow> nat \<Rightarrow> host_state \<Rightarrow> c_error + host_state" where
  "release_expired env ct h =
     (case engaged_at h ct of
        None \<Rightarrow> Inr h
      | Some p \<Rightarrow>
          (case deref p h of
             Inl e \<Rightarrow> Inl e
           | Inr a \<Rightarrow>
               if expiring a \<or> ce_disabled env (ha_alert_id a) then release_in env p h else Inr h))"

definition exec_check :: "check_env \<Rightarrow> host_check \<Rightarrow> check_host \<Rightarrow> c_error + check_host" where
  "exec_check env cb s =
     (case lift_host (set_expiring (cb_id cb)) s of
        Inl e \<Rightarrow> Inl e
      | Inr s1 \<Rightarrow>
          (case cb_periodicUpdate cb (engaged_at (ch_host s1) (cb_id cb)) s1 of
             Inl e \<Rightarrow> Inl e
           | Inr s2 \<Rightarrow> lift_host (release_expired env (cb_id cb)) s2))"

fun exec_loop :: "check_env \<Rightarrow> bool \<Rightarrow> bool \<Rightarrow> host_check list \<Rightarrow> check_host \<Rightarrow> c_error + check_host" where
  "exec_loop env run_min run_5min [] s = Inr s"
| "exec_loop env run_min run_5min (cb # cbs) s =
     (if run_min \<and> isMinCheck cb \<or> run_5min \<and> is5MinCheck cb then
        (case exec_check env cb s of
           Inl e \<Rightarrow> Inl e | Inr s1 \<Rightarrow> exec_loop env run_min run_5min cbs s1)
      else exec_loop env run_min run_5min cbs s)"

definition execChecks :: "check_env \<Rightarrow> host_check list \<Rightarrow> check_host \<Rightarrow> c_error + check_host" where
  "execChecks env cbs s =
     (case lift_host (releaseAllDisabledAlerts env cbs) s of
        Inl e \<Rightarrow> Inl e
      | Inr s1 \<Rightarrow>
          let now = ce_now env;
              run_min_cbs = isTimeToRunMinChecks now (ch_host s1);
              run_5min_cbs = isTimeToRun5MinChecks now (ch_host s1)
          in case exec_loop env run_min_cbs run_5min_cbs cbs s1 of
               Inl e \<Rightarrow> Inl e
             | Inr s2 \<Rightarrow>
                 let h = ch_host s2;
                     h = (if run_min_cbs then h\<lparr>last_call_min := now\<rparr> else h);
                     h = (if run_5min_cbs then h\<lparr>last_call_5min := now\<rparr> else h)
                 in Inr (s2\<lparr>ch_host := h\<rparr>))"

section \<open>The contract of a check\<close>

text \<open>
  A check may only change the slot of its own alert and the alert in it. Then a round of
  the executor leaves the slot of every check that was due settled: empty, or with an
  alert that the check triggered again and that is not disabled.
\<close>

definition check_frame :: "nat \<Rightarrow> host_state \<Rightarrow> host_state \<Rightarrow> bool" where
  "check_frame cid h h' \<longleftrightarrow>
     (\<forall>c. c \<noteq> cid \<longrightarrow> eng_ptr h' c = eng_ptr h c \<and> (\<forall>p. eng_ptr h c = Some p \<longrightarrow> heap h' p = heap h p))"

definition settled :: "check_env \<Rightarrow> nat \<Rightarrow> host_state \<Rightarrow> bool" where
  "settled env c h \<longleftrightarrow> (\<forall>p a. eng_ptr h c = Some p \<longrightarrow> heap h p = Some a \<longrightarrow>
     \<not> expiring a \<and> \<not> ce_disabled env (ha_alert_id a))"

definition no_auto_alert :: "nat \<Rightarrow> host_state \<Rightarrow> bool" where
  "no_auto_alert c h \<longleftrightarrow> (\<forall>p a. eng_ptr h c = Some p \<longrightarrow> heap h p = Some a \<longrightarrow> \<not> ha_auto_release a)"

text \<open>
  A condition \<open>Q\<close> on the counters of a host under which a check triggers nothing, and the checks
  that do not end it.
\<close>

definition quiet_when :: "host_check \<Rightarrow> (check_host \<Rightarrow> bool) \<Rightarrow> bool" where
  "quiet_when cb Q \<longleftrightarrow> (\<forall>s h. Q (s\<lparr>ch_host := h\<rparr>) = Q s)
     \<and> (\<forall>e s. Q s \<longrightarrow> (\<exists>s'. cb_periodicUpdate cb e s = Inr s' \<and> ch_host s' = ch_host s))"

definition keeps_quiet :: "host_check \<Rightarrow> (check_host \<Rightarrow> bool) \<Rightarrow> bool" where
  "keeps_quiet cb Q \<longleftrightarrow> (\<forall>e s s'. cb_periodicUpdate cb e s = Inr s' \<longrightarrow> Q s \<longrightarrow> Q s')"

definition accepting :: "check_env \<Rightarrow> bool" where
  "accepting env \<longleftrightarrow> \<not> ce_dontEmit env \<and> ce_ring env = (\<lambda>_. True)"

lemma check_frame_refl [simp]: "check_frame c h h"
  by (simp add: check_frame_def)

lemma check_frame_trans: "check_frame c h1 h2 \<Longrightarrow> check_frame c h2 h3 \<Longrightarrow> check_frame c h1 h3"
  by (simp add: check_frame_def)

lemma settled_frame: "settled env c h \<Longrightarrow> check_frame d h h' \<Longrightarrow> c \<noteq> d \<Longrightarrow> settled env c h'"
  by (simp add: settled_def check_frame_def)

lemma no_auto_alert_frame: "no_auto_alert c h \<Longrightarrow> check_frame d h h' \<Longrightarrow> c \<noteq> d \<Longrightarrow> no_auto_alert c h'"
  by (simp add: no_auto_alert_def check_frame_def)

lemma hinv_inj: "hinv h \<Longrightarrow> eng_ptr h c = Some p \<Longrightarrow> eng_ptr h d = Some p \<Longrightarrow> c = d"
  by (rule pinv_inj [OF hinvE(2)])

lemma frame_of_heap:
  assumes "hinv h" "\<And>d. d \<noteq> c \<Longrightarrow> eng_ptr h d \<noteq> Some p"
    and "\<And>d. d \<noteq> c \<Longrightarrow> eng_ptr h' d = eng_ptr h d" and "\<And>q. q \<noteq> p \<Longrightarrow> heap h' q = heap h q"
  shows "check_frame c h h'"
  using assms unfolding check_frame_def by (metis (no_types))

lemma trigger_effect_frame:
  assumes "hinv h" "trigger_effect supp p a h h'"
    and "heap h p = None \<or> eng_ptr h (ha_check_id a) = Some p"
  shows "check_frame (ha_check_id a) h h'"
proof (rule frame_of_heap [OF assms(1), where p = p])
  show "eng_ptr h d \<noteq> Some p" if "d \<noteq> ha_check_id a" for d
    using assms(3) hinv_free(1) [OF assms(1)] hinv_inj [OF assms(1)] that by blast
qed (use assms(2) in \<open>simp_all add: trigger_effect_def\<close>)

lemma eng_ptr_iff: "c < NUM_DEFINED_HOST_CHECKS \<Longrightarrow> engaged_at h c = eng_ptr h c"
  by (simp add: eng_ptr_def)

lemma set_expiring_inv:
  assumes "hinv h" "c < NUM_DEFINED_HOST_CHECKS"
  shows "\<exists>h'. set_expiring c h = Inr h' \<and> hinv h' \<and> check_frame c h h' \<and> eng_ptr h' = eng_ptr h
    \<and> (\<forall>p a. eng_ptr h c = Some p \<longrightarrow> heap h p = Some a \<longrightarrow>
         heap h' p = Some (a\<lparr>expiring := ha_auto_release a \<or> expiring a\<rparr>))"
proof (cases "eng_ptr h c")
  case None
  then show ?thesis using assms by (simp add: set_expiring_def eng_ptr_iff)
next
  case (Some p)
  then obtain a where a: "heap h p = Some a" "\<not> released a" by (rule hinv_engaged [OF assms(1)])
  have "hinv (put p (a\<lparr>expiring := True\<rparr>) h)"
    by (rule hinv_touch [OF assms(1) Some a(1)]) (simp_all add: same_weights_def a)
  moreover have "check_frame c h (put p b h)" for b
    by (rule frame_of_heap [OF assms(1), where p = p])
      (use hinv_inj [OF assms(1) Some] in auto)
  ultimately show ?thesis using assms Some a by (simp add: set_expiring_def eng_ptr_iff deref_def)
qed

lemma release_in_inv:
  assumes "hinv h" "accepting env" "eng_ptr h c = Some p"
  shows "\<exists>h'. release_in env p h = Inr h' \<and> hinv h' \<and> eng_ptr h' = (eng_ptr h)(c := None) \<and> check_frame c h h'"
proof -
  obtain h' where h': "release_in env p h = Inr h'" "hinv h'" "eng_ptr h' = (eng_ptr h)(c := None)"
    "\<forall>q. q \<noteq> p \<longrightarrow> heap h' q = heap h q"
    using releaseAlert_inv [OF assms(1,3), of "ce_dontEmit env" "ce_ring env h" "ce_tick env" "ce_now env"] assms(2)
    unfolding release_in_def accepting_def by auto
  moreover have "check_frame c h h'"
    by (rule frame_of_heap [OF assms(1), where p = p])
      (use hinv_inj [OF assms(1,3)] h' in auto)
  ultimately show ?thesis by blast
qed

lemma release_expired_inv:
  assumes "hinv h" "accepting env" "c < NUM_DEFINED_HOST_CHECKS"
  shows "\<exists>h'. release_expired env c h = Inr h' \<and> hinv h' \<and> check_frame c h h' \<and> settled env c h'
    \<and> (if settled env c h then h' = h else eng_ptr h' c = None)"
proof (cases "eng_ptr h c")
  case None
  then show ?thesis using assms by (simp add: release_expired_def eng_ptr_iff settled_def)
next
  case (Some p)
  then obtain a where a: "heap h p = Some a" by (rule hinv_engaged [OF assms(1)])
  show ?thesis
  proof (cases "expiring a \<or> ce_disabled env (ha_alert_id a)")
    case True
    then have "\<not> settled env c h" using Some a by (auto simp: settled_def)
    then show ?thesis
      using release_in_inv [OF assms(1,2) Some] True Some a assms(3)
      by (auto simp: release_expired_def eng_ptr_iff deref_def settled_def)
  next
    case False
    then show ?thesis using Some a assms by (simp add: release_expired_def eng_ptr_iff deref_def settled_def)
  qed
qed

locale host_check_contract =
  fixes upd :: "nat option \<Rightarrow> check_host \<Rightarrow> c_error + check_host" and cid :: nat
  assumes valid_id: "cid < NUM_DEFINED_HOST_CHECKS"
    and keeps: "hinv (ch_host s) \<Longrightarrow> \<exists>s'. upd (eng_ptr (ch_host s) cid) s = Inr s' \<and> hinv (ch_host s')
      \<and> check_frame cid (ch_host s) (ch_host s')"
begin

lemma exec_check_settles:
  assumes "accepting env" "hinv (ch_host s)" "cb_id cb = cid" "cb_periodicUpdate cb = upd"
  shows "\<exists>s'. exec_check env cb s = Inr s' \<and> hinv (ch_host s')
    \<and> check_frame cid (ch_host s) (ch_host s') \<and> settled env cid (ch_host s')
    \<and> (\<forall>Q. quiet_when cb Q \<longrightarrow> Q s \<longrightarrow> no_auto_alert cid (ch_host s'))"
proof -
  obtain h1 where h1: "set_expiring cid (ch_host s) = Inr h1" "hinv h1" "check_frame cid (ch_host s) h1" "eng_ptr h1 = eng_ptr (ch_host s)"
    "\<forall>p a. eng_ptr (ch_host s) cid = Some p \<longrightarrow> heap (ch_host s) p = Some a \<longrightarrow>
         heap h1 p = Some (a\<lparr>expiring := ha_auto_release a \<or> expiring a\<rparr>)"
    using set_expiring_inv [OF assms(2) valid_id] by blast
  let ?s = "s\<lparr>ch_host := h1\<rparr>"
  obtain s2 where s2: "upd (eng_ptr h1 cid) ?s = Inr s2" "hinv (ch_host s2)" "check_frame cid h1 (ch_host s2)"
    using keeps [of ?s] h1(2) by auto
  obtain h3 where h3: "release_expired env cid (ch_host s2) = Inr h3" "hinv h3"
    "check_frame cid (ch_host s2) h3" "settled env cid h3"
    "if settled env cid (ch_host s2) then h3 = ch_host s2 else eng_ptr h3 cid = None"
    using release_expired_inv [OF s2(2) assms(1) valid_id] by blast
  have "exec_check env cb s = Inr (s2\<lparr>ch_host := h3\<rparr>)"
    using h1 s2 h3 assms(3,4) valid_id by (simp add: exec_check_def lift_host_def eng_ptr_iff)
  moreover have "check_frame cid (ch_host s) h3"
    using h1(3) s2(3) h3(3) by (blast intro: check_frame_trans)
  moreover have "no_auto_alert cid h3" if "quiet_when cb Q" "Q s" for Q
  proof -
    have "Q ?s" "\<forall>e s. Q s \<longrightarrow> (\<exists>s'. upd e s = Inr s' \<and> ch_host s' = ch_host s)"
      using that assms(4) by (simp_all add: quiet_when_def)
    then obtain t where "upd (eng_ptr h1 cid) ?s = Inr t" "ch_host t = ch_host ?s" by blast
    then have "ch_host s2 = h1" using s2(1) by simp
    moreover have "no_auto_alert cid h1" if "settled env cid h1"
      unfolding no_auto_alert_def
    proof (intro allI impI)
      fix p a assume p: "eng_ptr h1 cid = Some p" "heap h1 p = Some a"
      have e: "eng_ptr (ch_host s) cid = Some p" using p(1) h1(4) by simp
      obtain b where "heap (ch_host s) p = Some b" by (rule hinv_engaged [OF assms(2) e])
      then have a: "a = b\<lparr>expiring := ha_auto_release b \<or> expiring b\<rparr>" using h1(5) e p(2) by simp
      have "\<not> expiring a" using \<open>settled env cid h1\<close> p unfolding settled_def by blast
      then show "\<not> ha_auto_release a" unfolding a by simp
    qed
    ultimately show ?thesis using h3(5) by (auto simp: no_auto_alert_def split: if_splits)
  qed
  ultimately show ?thesis using h3 by auto
qed

end

lemma exec_check_keeps_quiet:
  assumes "keeps_quiet cb Q" "\<And>s h. Q (s\<lparr>ch_host := h\<rparr>) = Q s" "exec_check env cb s = Inr s'" "Q s"
  shows "Q s'"
  using assms by (auto simp: exec_check_def lift_host_def keeps_quiet_def split: sum.splits)

definition due :: "bool \<Rightarrow> bool \<Rightarrow> host_check \<Rightarrow> bool" where
  "due rm r5 cb \<longleftrightarrow> rm \<and> isMinCheck cb \<or> r5 \<and> is5MinCheck cb"

lemma exec_loop_settles:
  assumes "accepting env" "hinv (ch_host s)" "distinct (map cb_id cbs)"
    and "\<And>cb. cb \<in> set cbs \<Longrightarrow> host_check_contract (cb_periodicUpdate cb) (cb_id cb)"
  shows "\<exists>s'. exec_loop env rm r5 cbs s = Inr s' \<and> hinv (ch_host s')
    \<and> (\<forall>cb \<in> set cbs. due rm r5 cb \<longrightarrow> settled env (cb_id cb) (ch_host s'))
    \<and> (\<forall>cb \<in> set cbs. \<forall>Q. due rm r5 cb \<longrightarrow> quiet_when cb Q \<longrightarrow> (\<forall>d \<in> set cbs. d \<noteq> cb \<longrightarrow> keeps_quiet d Q) \<longrightarrow> Q s \<longrightarrow>
         no_auto_alert (cb_id cb) (ch_host s'))
    \<and> (\<forall>c. c \<notin> cb_id ` set cbs \<longrightarrow> (settled env c (ch_host s) \<longrightarrow> settled env c (ch_host s'))
         \<and> (no_auto_alert c (ch_host s) \<longrightarrow> no_auto_alert c (ch_host s')))"
  using assms(2-)
proof (induction cbs arbitrary: s)
  case (Cons cb cbs)
  have fresh: "cb_id cb \<notin> cb_id ` set cbs" "cb \<notin> set cbs" using Cons.prems(2) by auto
  have rest: "distinct (map cb_id cbs)" "\<And>d. d \<in> set cbs \<Longrightarrow> host_check_contract (cb_periodicUpdate d) (cb_id d)"
    using Cons.prems(2,3) by simp_all
  obtain s1 where s1: "exec_loop env rm r5 (cb # cbs) s = exec_loop env rm r5 cbs s1" "hinv (ch_host s1)"
    "check_frame (cb_id cb) (ch_host s) (ch_host s1)" "due rm r5 cb \<Longrightarrow> settled env (cb_id cb) (ch_host s1)"
    "\<And>Q. due rm r5 cb \<Longrightarrow> quiet_when cb Q \<Longrightarrow> Q s \<Longrightarrow> no_auto_alert (cb_id cb) (ch_host s1)"
    "\<And>Q. keeps_quiet cb Q \<Longrightarrow> (\<And>s h. Q (s\<lparr>ch_host := h\<rparr>) = Q s) \<Longrightarrow> Q s \<Longrightarrow> Q s1"
  proof (cases "due rm r5 cb")
    case True
    have c: "host_check_contract (cb_periodicUpdate cb) (cb_id cb)" using Cons.prems(3) by simp
    from host_check_contract.exec_check_settles [OF c assms(1) Cons.prems(1) refl refl]
    obtain s1 where "exec_check env cb s = Inr s1" "hinv (ch_host s1)"
      "check_frame (cb_id cb) (ch_host s) (ch_host s1)" "settled env (cb_id cb) (ch_host s1)"
      "\<forall>Q. quiet_when cb Q \<longrightarrow> Q s \<longrightarrow> no_auto_alert (cb_id cb) (ch_host s1)" by blast
    then show ?thesis
      using True by (intro that [of s1]) (auto simp: due_def dest: exec_check_keeps_quiet)
  next
    case False
    then show ?thesis using Cons.prems(1) by (intro that [of s]) (auto simp: due_def)
  qed
  obtain s' where s': "exec_loop env rm r5 cbs s1 = Inr s'" "hinv (ch_host s')"
    "\<forall>cb \<in> set cbs. due rm r5 cb \<longrightarrow> settled env (cb_id cb) (ch_host s')"
    "\<forall>cb \<in> set cbs. \<forall>Q. due rm r5 cb \<longrightarrow> quiet_when cb Q \<longrightarrow> (\<forall>d \<in> set cbs. d \<noteq> cb \<longrightarrow> keeps_quiet d Q) \<longrightarrow> Q s1 \<longrightarrow>
         no_auto_alert (cb_id cb) (ch_host s')"
    "\<forall>c. c \<notin> cb_id ` set cbs \<longrightarrow> (settled env c (ch_host s1) \<longrightarrow> settled env c (ch_host s'))
         \<and> (no_auto_alert c (ch_host s1) \<longrightarrow> no_auto_alert c (ch_host s'))"
    using Cons.IH [OF s1(2) rest] by blast
  have "no_auto_alert (cb_id d) (ch_host s')"
    if "d \<in> set (cb # cbs)" "due rm r5 d" "quiet_when d Q" "\<forall>e \<in> set (cb # cbs). e \<noteq> d \<longrightarrow> keeps_quiet e Q" "Q s" for d Q
  proof (cases "d = cb")
    case True
    then show ?thesis using s1(5) that s'(5) fresh by blast
  next
    case False
    then have "Q s1" using s1(6) that by (auto simp: quiet_when_def)
    then show ?thesis using s'(4) that False by auto
  qed
  moreover have "settled env (cb_id d) (ch_host s')" if "d \<in> set (cb # cbs)" "due rm r5 d" for d
    using that s1(4) s'(3,5) fresh by (cases "d = cb") auto
  moreover have "(settled env c (ch_host s) \<longrightarrow> settled env c (ch_host s'))
      \<and> (no_auto_alert c (ch_host s) \<longrightarrow> no_auto_alert c (ch_host s'))" if "c \<notin> cb_id ` set (cb # cbs)" for c
    using that s'(5) settled_frame [OF _ s1(3)] no_auto_alert_frame [OF _ s1(3)] by auto
  ultimately show ?case using s1(1) s'(1,2) by auto
qed simp

lemma release_disabled_inv:
  assumes "hinv h" "accepting env" "t < NUM_DEFINED_HOST_CHECKS"
  shows "\<exists>h'. release_disabled env arr t h = Inr h' \<and> hinv h'"
proof (cases "eng_ptr h t")
  case None
  then show ?thesis using assms by (simp add: release_disabled_def eng_ptr_iff)
next
  case (Some p)
  then obtain a where a: "heap h p = Some a" "\<not> released a" by (rule hinv_engaged [OF assms(1)])
  have h2: "hinv (put p (a\<lparr>forced_release := True\<rparr>) h)"
    by (rule hinv_touch [OF assms(1) Some a(1)]) (simp_all add: same_weights_def a)
  have "\<exists>h'. release_in env p (if b then put p (a\<lparr>forced_release := True\<rparr>) h else h) = Inr h' \<and> hinv h'" for b
    using release_in_inv [OF assms(1,2) Some] release_in_inv [OF h2 assms(2), of t p] Some by (cases b) auto
  then show ?thesis
    using assms Some a by (simp add: release_disabled_def eng_ptr_iff deref_def Let_def)
qed

lemma release_disabled_all_inv:
  assumes "hinv h" "accepting env" "set ts \<subseteq> {..<NUM_DEFINED_HOST_CHECKS}"
  shows "\<exists>h'. release_disabled_all env arr ts h = Inr h' \<and> hinv h'"
  using assms(1,3)
proof (induction ts arbitrary: h)
  case (Cons t ts)
  then obtain h1 where "release_disabled env arr t h = Inr h1" "hinv h1"
    using release_disabled_inv [OF _ assms(2), of h t arr] by auto
  then show ?case using Cons.IH [of h1] Cons.prems(2) by simp
qed simp

lemma eng_ptr_last_call [simp]:
  "eng_ptr (h\<lparr>last_call_min := t\<rparr>) = eng_ptr h" "eng_ptr (h\<lparr>last_call_5min := t\<rparr>) = eng_ptr h"
  by (simp_all add: eng_ptr_def engaged_at_def fun_eq_iff)

lemma hinv_last_call [simp]:
  "hinv (h\<lparr>last_call_min := t\<rparr>) = hinv h" "hinv (h\<lparr>last_call_5min := t\<rparr>) = hinv h"
  "settled env c (h\<lparr>last_call_min := t\<rparr>) = settled env c h"
  "settled env c (h\<lparr>last_call_5min := t\<rparr>) = settled env c h"
  "no_auto_alert c (h\<lparr>last_call_min := t\<rparr>) = no_auto_alert c h"
  "no_auto_alert c (h\<lparr>last_call_5min := t\<rparr>) = no_auto_alert c h"
  by (simp_all add: hinv_def settled_def hwf_def no_auto_alert_def)

section \<open>The checks keep the contract\<close>

text \<open>What the checks rely on of the allocator: a new object is not at a live address.\<close>

definition allocator :: "(host_state \<Rightarrow> nat) \<Rightarrow> bool" where
  "allocator fresh \<longleftrightarrow> (\<forall>h. hinv h \<longrightarrow> heap h (fresh h) = None)"

text \<open>An allocator: one past the largest address that is engaged or queued.\<close>

definition next_addr :: "host_state \<Rightarrow> nat" where
  "next_addr h = Suc (Max (set (0 # map fst (alerts_queue h)
     @ (case alerts h of None \<Rightarrow> [] | Some i \<Rightarrow> map (\<lambda>x. case x of None \<Rightarrow> 0 | Some p \<Rightarrow> p) (engaged_alerts i)))))"

lemma allocator_next_addr: "allocator next_addr"
  unfolding allocator_def
proof (intro allI impI)
  fix h assume h: "hinv h"
  let ?S = "set (0 # map fst (alerts_queue h)
     @ (case alerts h of None \<Rightarrow> [] | Some i \<Rightarrow> map (\<lambda>x. case x of None \<Rightarrow> 0 | Some p \<Rightarrow> p) (engaged_alerts i)))"
  have "p \<in> ?S" if p: "heap h p = Some a" for p a
    using pinv_live [OF hinvE(2) [OF h] p]
  proof
    assume "\<exists>c. eng_ptr h c = Some p"
    then obtain c i where "c < NUM_DEFINED_HOST_CHECKS" "alerts h = Some i" "engaged_alerts i ! c = Some p"
      by (auto simp: eng_ptr_def engaged_at_def split: if_splits option.splits)
    moreover have "length (engaged_alerts i) = NUM_DEFINED_HOST_CHECKS"
      using hinvE(1) [OF h] \<open>alerts h = Some i\<close> by (simp add: hwf_def)
    ultimately have "Some p \<in> set (engaged_alerts i)" by (metis nth_mem)
    then show ?thesis using \<open>alerts h = Some i\<close> by (force simp: image_iff)
  next
    assume "(p, True) \<in> set (alerts_queue h)"
    then show ?thesis by (force simp: image_iff)
  qed
  then have "p \<le> Max ?S" if "heap h p = Some a" for p a using that by (intro Max_ge finite_set) blast
  then show "heap h (next_addr h) = None"
    unfolding next_addr_def by (metis Suc_n_not_le_n not_Some_eq)
qed

text \<open>The alert engaged for a check, if any, has the alert type of the check.\<close>

definition slot_alert :: "host_state \<Rightarrow> nat \<Rightarrow> u8 \<Rightarrow> bool" where
  "slot_alert h c aid \<longleftrightarrow>
     (\<forall>p a. eng_ptr h c = Some p \<longrightarrow> heap h p = Some a \<longrightarrow> ha_alert_id a = aid)"

lemma trigger_or_alloc_spec:
  assumes "hinv h" "allocator (ce_fresh env)" "\<not> released new" "ha_check_id new = c" "c < NUM_DEFINED_HOST_CHECKS"
    and "quiet \<longrightarrow> slot_alert h c (ha_alert_id new)"
  shows "\<exists>h'. trigger_or_alloc env new (eng_ptr h c) h = Inr h' \<and> hinv h' \<and> check_frame c h h'
    \<and> (quiet \<and> \<not> ce_dontEmit env \<and> \<not> ce_disabled env (ha_alert_id new) \<longrightarrow>
         eng_ptr h' c \<noteq> None \<and> settled env c h')"
proof (cases "eng_ptr h c")
  case None
  let ?p = "ce_fresh env h"
  have p: "heap h ?p = None" using assms(1,2) by (simp add: allocator_def)
  obtain h' where h': "trigger_in env ?p (put ?p new h) = Inr h'" "hinv h'"
    "trigger_effect (ce_dontEmit env \<or> ce_disabled env (ha_alert_id new)) ?p new h h'"
    using triggerAlert_new_spec [OF assms(1) p assms(3)] assms(4,5) unfolding trigger_in_def by blast
  have "check_frame c h h'" using trigger_effect_frame [OF assms(1) h'(3)] p assms(4) by simp
  then show ?thesis
    using h' None assms(4) by (auto simp: trigger_or_alloc_def trigger_effect_def settled_def)
next
  case (Some p)
  then obtain a where a: "heap h p = Some a" "ha_check_id a = c" by (rule hinv_engaged [OF assms(1)])
  obtain h' where h': "trigger_in env p h = Inr h'" "hinv h'"
    "trigger_effect (ce_dontEmit env \<or> ce_disabled env (ha_alert_id a)) p a h h'"
    using triggerAlert_again_spec [OF assms(1) Some a(1)] unfolding trigger_in_def by blast
  have "check_frame c h h'" using trigger_effect_frame [OF assms(1) h'(3)] Some a(2) by simp
  then show ?thesis
    using h' Some a assms(6) by (auto simp: trigger_or_alloc_def trigger_effect_def settled_def slot_alert_def)
qed

lemma flood_update_spec:
  assumes "hinv h" "allocator (ce_fresh env)" "c < NUM_DEFINED_HOST_CHECKS"
    and alloc: "\<And>g n b. \<not> released (allocAlert env g n b) \<and> ha_check_id (allocAlert env g n b) = c
      \<and> ha_alert_id (allocAlert env g n b) = aid"
    and q: "quiet \<longrightarrow> slot_alert h c aid"
  shows "\<exists>h'. flood_update env allocAlert thr att vic (eng_ptr h c) h = Inr h' \<and> hinv h' \<and> check_frame c h h'
    \<and> (if ucast att > thr \<or> ucast vic > thr
       then quiet \<and> \<not> ce_dontEmit env \<and> \<not> ce_disabled env aid \<longrightarrow> eng_ptr h' c \<noteq> None \<and> settled env c h'
       else h' = h)"
proof -
  have "\<exists>h'. triggerFlowHitsAlert env (allocAlert env g n b) b n (eng_ptr h c) h = Inr h' \<and> hinv h' \<and> check_frame c h h'
    \<and> (quiet \<and> \<not> ce_dontEmit env \<and> \<not> ce_disabled env aid \<longrightarrow> eng_ptr h' c \<noteq> None \<and> settled env c h')" for g n b
  proof (cases "eng_ptr h c")
    case None
    then show ?thesis
      using trigger_or_alloc_spec [OF assms(1,2) _ _ assms(3), of "allocAlert env g n b" quiet] alloc [of g n b] q
      by (auto simp: triggerFlowHitsAlert_def)
  next
    case (Some p)
    then obtain a where a: "heap h p = Some a" "\<not> released a" "ha_check_id a = c"
      by (rule hinv_engaged [OF assms(1)])
    define h1 where "h1 = (if is_attacker a = b then put p (a\<lparr>ha_hits := ucast n\<rparr>) h else h)"
    have "hinv (put p (a\<lparr>ha_hits := ucast n\<rparr>) h)"
      by (rule hinv_touch [OF assms(1) Some a(1)]) (simp_all add: same_weights_def a)
    then have h1: "hinv h1" "eng_ptr h1 = eng_ptr h" using assms(1) by (simp_all add: h1_def)
    have f1: "check_frame c h h1"
      by (rule frame_of_heap [OF assms(1), where p = p])
        (use hinv_inj [OF assms(1) Some] in \<open>auto simp: h1_def\<close>)
    have q1: "quiet \<longrightarrow> slot_alert h1 c (ha_alert_id (allocAlert env g n b))"
      using h1(2) Some a q alloc [of g n b] by (auto simp: h1_def slot_alert_def)
    obtain h' where "trigger_or_alloc env (allocAlert env g n b) (eng_ptr h1 c) h1 = Inr h'" "hinv h'"
      "check_frame c h1 h'"
      "quiet \<and> \<not> ce_dontEmit env \<and> \<not> ce_disabled env aid \<longrightarrow> eng_ptr h' c \<noteq> None \<and> settled env c h'"
      using trigger_or_alloc_spec [OF h1(1) assms(2) _ _ assms(3), of "allocAlert env g n b" quiet] alloc [of g n b] q1
      by auto
    then show ?thesis
      using Some a check_frame_trans [OF f1]
      by (auto simp: triggerFlowHitsAlert_def deref_def h1(2) h1_def [symmetric])
  qed
  note t = this
  show ?thesis
    using t [of "ce_full_risk env" att True] t [of "ce_no_risk env" vic False] assms(1)
    by (auto simp: flood_update_def)
qed

lemma FlowFlood_spec:
  assumes "hinv (ch_host s)" "allocator (ce_fresh env)"
    and "quiet \<longrightarrow> slot_alert (ch_host s) 3 4"
  shows "\<exists>s'. FlowFlood_periodicUpdate env thr (eng_ptr (ch_host s) 3) s = Inr s' \<and> hinv (ch_host s')
    \<and> check_frame 3 (ch_host s) (ch_host s')
    \<and> (if ucast (AlertCounter_hits (flow_flood_attacker s)) > thr \<or> ucast (AlertCounter_hits (flow_flood_victim s)) > thr
       then quiet \<and> \<not> ce_dontEmit env \<and> \<not> ce_disabled env 4 \<longrightarrow>
         eng_ptr (ch_host s') 3 \<noteq> None \<and> settled env 3 (ch_host s')
       else ch_host s' = ch_host s)"
proof -
  have k: "3 < NUM_DEFINED_HOST_CHECKS" by (simp add: NUM_DEFINED_HOST_CHECKS_def)
  have new: "\<not> released (FlowFloodAlert env g n b) \<and> ha_check_id (FlowFloodAlert env g n b) = 3
      \<and> ha_alert_id (FlowFloodAlert env g n b) = 4" for g n b
    by (simp add: FlowFloodAlert_def HostAlert_new_def)
  let ?att = "AlertCounter_hits (flow_flood_attacker s)" and ?vic = "AlertCounter_hits (flow_flood_victim s)"
  obtain h' where h': "flood_update env FlowFloodAlert thr ?att ?vic (eng_ptr (ch_host s) 3) (ch_host s) = Inr h'"
    "hinv h'" "check_frame 3 (ch_host s) h'"
    "if ucast ?att > thr \<or> ucast ?vic > thr
     then quiet \<and> \<not> ce_dontEmit env \<and> \<not> ce_disabled env 4 \<longrightarrow> eng_ptr h' 3 \<noteq> None \<and> settled env 3 h'
     else h' = ch_host s"
    using flood_update_spec [where allocAlert = FlowFloodAlert and env = env and quiet = quiet, OF assms(1,2) k new assms(3)] by blast
  have "FlowFlood_periodicUpdate env thr (eng_ptr (ch_host s) 3) s = Inr (reset_flow_flood_hits (s\<lparr>ch_host := h'\<rparr>))"
    by (simp add: FlowFlood_periodicUpdate_def lift_host_def h'(1))
  moreover have "ch_host (reset_flow_flood_hits (s\<lparr>ch_host := h'\<rparr>)) = h'" by (simp add: reset_flow_flood_hits_def)
  ultimately show ?thesis using h'(2-4) by auto
qed

lemma FlowFlood_contract:
  assumes "allocator (ce_fresh env)"
  shows "host_check_contract (FlowFlood_periodicUpdate env thr) 3"
proof
  show "3 < NUM_DEFINED_HOST_CHECKS" by (simp add: NUM_DEFINED_HOST_CHECKS_def)
  fix s :: check_host assume "hinv (ch_host s)"
  then show "\<exists>s'. FlowFlood_periodicUpdate env thr (eng_ptr (ch_host s) 3) s = Inr s' \<and> hinv (ch_host s')
      \<and> check_frame 3 (ch_host s) (ch_host s')"
    using FlowFlood_spec [OF _ assms, of s False thr] by auto
qed

lemma ICMPFlood_spec:
  assumes "hinv (ch_host s)" "allocator (ce_fresh env)"
    and "quiet \<longrightarrow> slot_alert (ch_host s) 15 18"
  shows "\<exists>s'. ICMPFlood_periodicUpdate env thr (eng_ptr (ch_host s) 15) s = Inr s' \<and> hinv (ch_host s')
    \<and> check_frame 15 (ch_host s) (ch_host s')
    \<and> (if ucast (AlertCounter_hits (icmp_flood_attacker s)) > thr \<or> ucast (AlertCounter_hits (icmp_flood_victim s)) > thr
       then quiet \<and> \<not> ce_dontEmit env \<and> \<not> ce_disabled env 18 \<longrightarrow>
         eng_ptr (ch_host s') 15 \<noteq> None \<and> settled env 15 (ch_host s')
       else ch_host s' = ch_host s)"
proof -
  have k: "15 < NUM_DEFINED_HOST_CHECKS" by (simp add: NUM_DEFINED_HOST_CHECKS_def)
  have new: "\<not> released (ICMPFloodAlert env g n b) \<and> ha_check_id (ICMPFloodAlert env g n b) = 15
      \<and> ha_alert_id (ICMPFloodAlert env g n b) = 18" for g n b
    by (simp add: ICMPFloodAlert_def HostAlert_new_def)
  let ?att = "AlertCounter_hits (icmp_flood_attacker s)" and ?vic = "AlertCounter_hits (icmp_flood_victim s)"
  obtain h' where h': "flood_update env ICMPFloodAlert thr ?att ?vic (eng_ptr (ch_host s) 15) (ch_host s) = Inr h'"
    "hinv h'" "check_frame 15 (ch_host s) h'"
    "if ucast ?att > thr \<or> ucast ?vic > thr
     then quiet \<and> \<not> ce_dontEmit env \<and> \<not> ce_disabled env 18 \<longrightarrow> eng_ptr h' 15 \<noteq> None \<and> settled env 15 h'
     else h' = ch_host s"
    using flood_update_spec [where allocAlert = ICMPFloodAlert and env = env and quiet = quiet, OF assms(1,2) k new assms(3)] by blast
  have "ICMPFlood_periodicUpdate env thr (eng_ptr (ch_host s) 15) s = Inr (reset_icmp_flood_hits (s\<lparr>ch_host := h'\<rparr>))"
    by (simp add: ICMPFlood_periodicUpdate_def lift_host_def h'(1))
  moreover have "ch_host (reset_icmp_flood_hits (s\<lparr>ch_host := h'\<rparr>)) = h'" by (simp add: reset_icmp_flood_hits_def)
  ultimately show ?thesis using h'(2-4) by auto
qed

lemma ICMPFlood_contract:
  assumes "allocator (ce_fresh env)"
  shows "host_check_contract (ICMPFlood_periodicUpdate env thr) 15"
proof
  show "15 < NUM_DEFINED_HOST_CHECKS" by (simp add: NUM_DEFINED_HOST_CHECKS_def)
  fix s :: check_host assume "hinv (ch_host s)"
  then show "\<exists>s'. ICMPFlood_periodicUpdate env thr (eng_ptr (ch_host s) 15) s = Inr s' \<and> hinv (ch_host s')
      \<and> check_frame 15 (ch_host s) (ch_host s')"
    using ICMPFlood_spec [OF _ assms, of s False thr] by auto
qed

lemma ServerContacts_contract:
  assumes "allocator (ce_fresh env)"
  shows "host_check_contract (ServerContacts_periodicUpdate env k thr n srv) (ServerContacts_id k)"
proof
  show k: "ServerContacts_id k < NUM_DEFINED_HOST_CHECKS"
    by (cases k) (simp_all add: NUM_DEFINED_HOST_CHECKS_def)
  fix s :: check_host assume "hinv (ch_host s)"
  then show "\<exists>s'. ServerContacts_periodicUpdate env k thr n srv (eng_ptr (ch_host s) (ServerContacts_id k)) s = Inr s'
      \<and> hinv (ch_host s') \<and> check_frame (ServerContacts_id k) (ch_host s) (ch_host s')"
    using trigger_or_alloc_spec [OF _ assms _ _ k, of "ch_host s" "ServerContacts_allocAlert env k (ce_full_risk env)" False]
    by (auto simp: ServerContacts_periodicUpdate_def lift_host_def ServerContacts_allocAlert_def HostAlert_new_def)
qed

lemma RemoteConnection_contract:
  assumes "allocator (ce_fresh env)"
  shows "host_check_contract (RemoteConnection_periodicUpdate env n) 11"
proof
  show k: "11 < NUM_DEFINED_HOST_CHECKS" by (simp add: NUM_DEFINED_HOST_CHECKS_def)
  fix s :: check_host assume "hinv (ch_host s)"
  then show "\<exists>s'. RemoteConnection_periodicUpdate env n (eng_ptr (ch_host s) 11) s = Inr s'
      \<and> hinv (ch_host s') \<and> check_frame 11 (ch_host s) (ch_host s')"
    using trigger_or_alloc_spec [OF _ assms _ _ k, of "ch_host s"
      "HostAlert_new 11 12 alert_category_network 10 True (ce_fair_risk env) (ce_now env)" False]
    by (auto simp: RemoteConnection_periodicUpdate_def lift_host_def HostAlert_new_def)
qed

text \<open>The checks with the allocator above.\<close>

interpretation flow_flood: host_check_contract "FlowFlood_periodicUpdate (env\<lparr>ce_fresh := next_addr\<rparr>) thr" 3 for env thr
  by (rule FlowFlood_contract) (simp add: allocator_next_addr)

interpretation icmp_flood: host_check_contract "ICMPFlood_periodicUpdate (env\<lparr>ce_fresh := next_addr\<rparr>) thr" 15 for env thr
  by (rule ICMPFlood_contract) (simp add: allocator_next_addr)

interpretation server_contacts: host_check_contract
  "ServerContacts_periodicUpdate (env\<lparr>ce_fresh := next_addr\<rparr>) k thr n srv" "ServerContacts_id k" for env k thr n srv
  by (rule ServerContacts_contract) (simp add: allocator_next_addr)

interpretation remote_connection: host_check_contract
  "RemoteConnection_periodicUpdate (env\<lparr>ce_fresh := next_addr\<rparr>) n" 11 for env n
  by (rule RemoteConnection_contract) (simp add: allocator_next_addr)

section \<open>Properties\<close>

text \<open>The modelled checks are quiet below their thresholds and leave the counters of the others alone.\<close>

definition no_flow_flood :: "u64 \<Rightarrow> check_host \<Rightarrow> bool" where
  "no_flow_flood thr s \<longleftrightarrow> ucast (AlertCounter_hits (flow_flood_attacker s)) \<le> thr \<and> ucast (AlertCounter_hits (flow_flood_victim s)) \<le> thr"

definition no_icmp_flood :: "u64 \<Rightarrow> check_host \<Rightarrow> bool" where
  "no_icmp_flood thr s \<longleftrightarrow> ucast (AlertCounter_hits (icmp_flood_attacker s)) \<le> thr \<and> ucast (AlertCounter_hits (icmp_flood_victim s)) \<le> thr"

lemma flood_quiet:
  "cb_periodicUpdate cb = FlowFlood_periodicUpdate env thr \<Longrightarrow> quiet_when cb (no_flow_flood thr)"
  "cb_periodicUpdate cb = ICMPFlood_periodicUpdate env thr \<Longrightarrow> quiet_when cb (no_icmp_flood thr)"
  by (auto simp: quiet_when_def no_flow_flood_def no_icmp_flood_def FlowFlood_periodicUpdate_def ICMPFlood_periodicUpdate_def
      lift_host_def flood_update_def reset_flow_flood_hits_def reset_icmp_flood_hits_def not_less [symmetric])

lemma flood_keeps_quiet:
  "cb_periodicUpdate cb = FlowFlood_periodicUpdate env thr \<Longrightarrow> keeps_quiet cb (no_icmp_flood thr')"
  "cb_periodicUpdate cb = ICMPFlood_periodicUpdate env thr \<Longrightarrow> keeps_quiet cb (no_flow_flood thr')"
  by (auto simp: keeps_quiet_def no_flow_flood_def no_icmp_flood_def FlowFlood_periodicUpdate_def ICMPFlood_periodicUpdate_def
      lift_host_def reset_flow_flood_hits_def reset_icmp_flood_hits_def split: sum.splits)

text \<open>
  C16: A round of the executor with a ring that accepts alerts does not fail. After it, the alert in
  the slot of a check whose period has come is neither expiring nor of a disabled type; and when the
  check was quiet, that is, the counters it looks at were under its condition \<open>Q\<close> when the round
  began, no alert with auto-release is left in its slot. Alerts without auto-release stay. A check here
  is anything that only changes the slot of its own alert; identifiers are distinct; the other checks
  of the round do not end the quiet of this one.
\<close>
theorem execChecks_settles:
  assumes "host_reach (Inr (ch_host s))" "accepting env" "distinct (map cb_id cbs)"
    and "\<forall>cb \<in> set cbs. host_check_contract (cb_periodicUpdate cb) (cb_id cb)"
    and "\<forall>cb \<in> set cbs. quiet_when cb (Q cb) \<and> (\<forall>d \<in> set cbs. d \<noteq> cb \<longrightarrow> keeps_quiet d (Q cb))"
  shows "\<exists>s1 s'. lift_host (releaseAllDisabledAlerts env cbs) s = Inr s1 \<and> execChecks env cbs s = Inr s'
    \<and> (\<forall>cb \<in> set cbs. due (isTimeToRunMinChecks (ce_now env) (ch_host s1)) (isTimeToRun5MinChecks (ce_now env) (ch_host s1)) cb \<longrightarrow>
         settled env (cb_id cb) (ch_host s') \<and> (Q cb s \<longrightarrow> no_auto_alert (cb_id cb) (ch_host s')))"
proof -
  have h: "hinv (ch_host s)" using host_reach_inv [OF assms(1)] by auto
  obtain h1 where h1: "releaseAllDisabledAlerts env cbs (ch_host s) = Inr h1" "hinv h1"
    using release_disabled_all_inv [OF h assms(2) all_checks] unfolding releaseAllDisabledAlerts_def by blast
  let ?s1 = "s\<lparr>ch_host := h1\<rparr>"
  have s1: "lift_host (releaseAllDisabledAlerts env cbs) s = Inr ?s1" "hinv (ch_host ?s1)"
    using h1 by (simp_all add: lift_host_def)
  let ?rm = "isTimeToRunMinChecks (ce_now env) h1" and ?r5 = "isTimeToRun5MinChecks (ce_now env) h1"
  have q: "Q cb ?s1 = Q cb s" if "cb \<in> set cbs" for cb using assms(5) that by (auto simp: quiet_when_def)
  have contract: "host_check_contract (cb_periodicUpdate cb) (cb_id cb)" if "cb \<in> set cbs" for cb
    using assms(4) that by blast
  have quiet: "quiet_when cb (Q cb)" "\<forall>d \<in> set cbs. d \<noteq> cb \<longrightarrow> keeps_quiet d (Q cb)" if "cb \<in> set cbs" for cb
    using assms(5) that by blast+
  obtain s2 where s2: "exec_loop env ?rm ?r5 cbs ?s1 = Inr s2"
    "\<forall>cb \<in> set cbs. due ?rm ?r5 cb \<longrightarrow> settled env (cb_id cb) (ch_host s2)"
    "\<forall>cb \<in> set cbs. due ?rm ?r5 cb \<longrightarrow> Q cb s \<longrightarrow> no_auto_alert (cb_id cb) (ch_host s2)"
  proof -
    obtain s2 where l: "exec_loop env ?rm ?r5 cbs ?s1 = Inr s2"
      "\<forall>cb \<in> set cbs. due ?rm ?r5 cb \<longrightarrow> settled env (cb_id cb) (ch_host s2)"
      "\<forall>cb \<in> set cbs. \<forall>Q. due ?rm ?r5 cb \<longrightarrow> quiet_when cb Q \<longrightarrow> (\<forall>d \<in> set cbs. d \<noteq> cb \<longrightarrow> keeps_quiet d Q) \<longrightarrow> Q ?s1 \<longrightarrow>
         no_auto_alert (cb_id cb) (ch_host s2)"
      using exec_loop_settles [OF assms(2) s1(2) assms(3) contract, of ?rm ?r5] by blast
    have "no_auto_alert (cb_id cb) (ch_host s2)" if "cb \<in> set cbs" "due ?rm ?r5 cb" "Q cb s" for cb
      using l(3) [rule_format, OF that(1,2) quiet(1) [OF that(1)]] quiet(2) [OF that(1)] q [OF that(1)] that(3) by blast
    then show thesis by (intro that [OF l(1,2)]) blast
  qed
  obtain h3 where e: "execChecks env cbs s = Inr (s2\<lparr>ch_host := h3\<rparr>)"
    and h3: "\<And>c. settled env c h3 = settled env c (ch_host s2)" "\<And>c. no_auto_alert c h3 = no_auto_alert c (ch_host s2)"
    by (rule that [of "let h = ch_host s2;
                     h = (if ?rm then h\<lparr>last_call_min := ce_now env\<rparr> else h)
                 in (if ?r5 then h\<lparr>last_call_5min := ce_now env\<rparr> else h)"])
      (simp_all add: execChecks_def s1 s2 Let_def)
  show ?thesis
  proof (intro exI conjI)
    show "lift_host (releaseAllDisabledAlerts env cbs) s = Inr ?s1" by (rule s1)
    show "execChecks env cbs s = Inr (s2\<lparr>ch_host := h3\<rparr>)" by (rule e)
  qed (use s2(2,3) h3 in simp)
qed

text \<open>The concrete inputs of the witnesses.\<close>

definition wit_env :: check_env where
  "wit_env = \<lparr> ce_dontEmit = False, ce_disabled = (\<lambda>_. False), ce_tick = 100, ce_now = 1000,
     ce_ring = (\<lambda>_. True), ce_fresh = next_addr, ce_full_risk = 100, ce_no_risk = 0, ce_fair_risk = 50 \<rparr>"

definition wit_check :: host_check where
  "wit_check = \<lparr> cb_id = 3, periodicity_secs = 60, cb_periodicUpdate = FlowFlood_periodicUpdate wit_env 100 \<rparr>"

definition wit_host :: check_host where
  "wit_host = \<lparr> ch_host = HostState_new, flow_flood_attacker = AlertCounter_new\<lparr>current_hits := 500\<rparr>,
     flow_flood_victim = AlertCounter_new, icmp_flood_attacker = AlertCounter_new,
     icmp_flood_victim = AlertCounter_new \<rparr>"

lemma wit_simps:
  "accepting wit_env" "allocator (ce_fresh wit_env)" "host_reach (Inr (ch_host wit_host))"
  "host_check_contract (cb_periodicUpdate wit_check) (cb_id wit_check)"
  using allocator_next_addr reach_new FlowFlood_contract [of wit_env 100]
  by (simp_all add: wit_env_def accepting_def wit_host_def wit_check_def)

definition wit_icmp_check :: host_check where
  "wit_icmp_check = \<lparr> cb_id = 15, periodicity_secs = 60, cb_periodicUpdate = ICMPFlood_periodicUpdate wit_env 100 \<rparr>"

lemma release_disabled_none: "\<forall>t. engaged_at h t = None \<Longrightarrow> release_disabled_all env arr ts h = Inr h"
  by (induction ts) (simp_all add: release_disabled_def)

lemma wit_host_due:
  "lift_host (releaseAllDisabledAlerts wit_env cbs) wit_host = Inr wit_host" "isTimeToRunMinChecks 1000 (ch_host wit_host)"
  by (simp_all add: releaseAllDisabledAlerts_def release_disabled_none lift_host_def wit_host_def HostState_new_def
      engaged_at_def isTimeToRunMinChecks_def)

theorem execChecks_settles_witness:
  "\<exists>s'. execChecks wit_env [wit_check, wit_icmp_check] wit_host = Inr s'
     \<and> settled wit_env 3 (ch_host s') \<and> no_auto_alert 15 (ch_host s')"
proof -
  let ?Q = "\<lambda>cb. if cb_id cb = 3 then no_flow_flood 100 else no_icmp_flood 100"
  have c: "host_check_contract (cb_periodicUpdate wit_icmp_check) (cb_id wit_icmp_check)"
    using ICMPFlood_contract [of wit_env 100] wit_simps(2) by (simp add: wit_icmp_check_def)
  have ids: "cb_id wit_check = 3" "cb_id wit_icmp_check = 15" "wit_check \<noteq> wit_icmp_check"
    "isMinCheck wit_check" "isMinCheck wit_icmp_check"
    by (simp_all add: wit_check_def wit_icmp_check_def isMinCheck_def)
  have q: "quiet_when wit_check (no_flow_flood 100)" "keeps_quiet wit_icmp_check (no_flow_flood 100)"
    "quiet_when wit_icmp_check (no_icmp_flood 100)" "keeps_quiet wit_check (no_icmp_flood 100)"
    using flood_quiet flood_keeps_quiet by (auto simp: wit_check_def wit_icmp_check_def)
  have n: "no_icmp_flood 100 wit_host" "ce_now wit_env = 1000"
    by (simp_all add: no_icmp_flood_def wit_host_def AlertCounter_hits_def AlertCounter_new_def reset_window_def wit_env_def)
  show ?thesis
    using execChecks_settles [OF wit_simps(3,1), of "[wit_check, wit_icmp_check]" ?Q] wit_simps(4) c q n ids wit_host_due
    by (auto simp: due_def)
qed

text \<open>
  C18: The flow-flood check: after it ran, the host has an engaged flow-flood alert if and
  only if the flows it opened or received since the last run exceed the threshold. A
  flood engages the alert, a quiet period releases it, and both counters start anew.
\<close>
theorem FlowFlood_engaged_iff:
  assumes "host_reach (Inr (ch_host s))" "accepting env" "allocator (ce_fresh env)"
    and "\<not> ce_disabled env 4" "cb_id cb = 3" "cb_periodicUpdate cb = FlowFlood_periodicUpdate env thr"
    and "\<forall>p a. engaged_at (ch_host s) 3 = Some p \<longrightarrow> heap (ch_host s) p = Some a \<longrightarrow>
      ha_alert_id a = 4 \<and> ha_auto_release a"
  shows "\<exists>s'. exec_check env cb s = Inr s'
    \<and> (engaged_at (ch_host s') 3 \<noteq> None \<longleftrightarrow>
         ucast (AlertCounter_hits (flow_flood_attacker s)) > thr
         \<or> ucast (AlertCounter_hits (flow_flood_victim s)) > thr)
    \<and> AlertCounter_hits (flow_flood_attacker s') = 0 \<and> AlertCounter_hits (flow_flood_victim s') = 0"
proof -
  have k: "3 < NUM_DEFINED_HOST_CHECKS" by (simp add: NUM_DEFINED_HOST_CHECKS_def)
  have h: "hinv (ch_host s)" using host_reach_inv [OF assms(1)] by auto
  obtain h1 where h1: "set_expiring 3 (ch_host s) = Inr h1" "hinv h1" "eng_ptr h1 = eng_ptr (ch_host s)"
    "\<forall>p a. eng_ptr (ch_host s) 3 = Some p \<longrightarrow> heap (ch_host s) p = Some a \<longrightarrow>
         heap h1 p = Some (a\<lparr>expiring := ha_auto_release a \<or> expiring a\<rparr>)"
    using set_expiring_inv [OF h k] by blast
  have slot: "\<exists>a. heap h1 p = Some a \<and> expiring a \<and> ha_alert_id a = 4" if "eng_ptr h1 3 = Some p" for p
  proof -
    have e: "eng_ptr (ch_host s) 3 = Some p" using that h1(3) by simp
    then obtain a where "heap (ch_host s) p = Some a" by (rule hinv_engaged [OF h])
    then show ?thesis using e h1(4) assms(7) k by (simp add: eng_ptr_iff)
  qed
  let ?s = "s\<lparr>ch_host := h1\<rparr>"
  let ?loud = "ucast (AlertCounter_hits (flow_flood_attacker s)) > thr
         \<or> ucast (AlertCounter_hits (flow_flood_victim s)) > thr"
  have sa: "slot_alert h1 3 4" unfolding slot_alert_def using slot by fastforce
  obtain s2 where s2: "FlowFlood_periodicUpdate env thr (eng_ptr h1 3) ?s = Inr s2" "hinv (ch_host s2)"
    "if ?loud then eng_ptr (ch_host s2) 3 \<noteq> None \<and> settled env 3 (ch_host s2) else ch_host s2 = h1"
    using FlowFlood_spec [of ?s env True thr] h1(2) assms(2-4) sa by (auto simp: accepting_def)
  obtain h3 where h3: "release_expired env 3 (ch_host s2) = Inr h3"
    "if settled env 3 (ch_host s2) then h3 = ch_host s2 else eng_ptr h3 3 = None"
    using release_expired_inv [OF s2(2) assms(2) k] by blast
  have e: "exec_check env cb s = Inr (s2\<lparr>ch_host := h3\<rparr>)"
    using h1 s2 h3 assms(5,6) k by (simp add: exec_check_def lift_host_def eng_ptr_iff)
  have "eng_ptr h3 3 \<noteq> None \<longleftrightarrow> ?loud"
  proof (cases ?loud)
    case True
    then show ?thesis using s2(3) h3(2) by simp
  next
    case False
    then have "ch_host s2 = h1" using s2(3) by simp
    then show ?thesis using False h3(2) slot by (cases "eng_ptr h1 3") (auto simp: settled_def)
  qed
  moreover have "AlertCounter_hits (flow_flood_attacker s2) = 0" "AlertCounter_hits (flow_flood_victim s2) = 0"
    using s2(1) by (auto simp: FlowFlood_periodicUpdate_def lift_host_def reset_flow_flood_hits_def
        AlertCounter_hits_def reset_hits_def split: sum.splits)
  ultimately show ?thesis using e k by (simp add: eng_ptr_iff)
qed

theorem FlowFlood_engaged_iff_witness:
  "\<exists>s'. exec_check wit_env wit_check wit_host = Inr s' \<and> engaged_at (ch_host s') 3 \<noteq> None"
proof -
  have "\<not> ce_disabled wit_env 4" "cb_id wit_check = 3"
    "cb_periodicUpdate wit_check = FlowFlood_periodicUpdate wit_env 100"
    by (simp_all add: wit_env_def wit_check_def)
  moreover have "engaged_at (ch_host wit_host) 3 = None"
    by (simp add: wit_host_def HostState_new_def engaged_at_def)
  moreover have "ucast (AlertCounter_hits (flow_flood_attacker wit_host)) > (100::u64)"
    by (simp add: wit_host_def AlertCounter_hits_def AlertCounter_new_def reset_window_def)
  ultimately show ?thesis
    using FlowFlood_engaged_iff [OF wit_simps(3,1,2), of wit_check 100] by auto
qed

text \<open>
  The hit counter of the floods is 16 bits wide: of a burst of hits within one second,
  it reports the number after the first one modulo 65536. A burst of 65537 hits is
  reported as none.
\<close>
theorem AlertCounter_burst:
  assumes "1 < t"
  shows "unat (AlertCounter_hits ((AlertCounter_inc t ^^ Suc n) AlertCounter_new)) = n mod 2 ^ 16"
proof -
  have "(AlertCounter_inc t ^^ Suc n) AlertCounter_new =
      \<lparr> time_last_hit = t, current_hits = of_nat n, max_hits_since_reset = 0, hits_reset_req = False \<rparr>"
  proof (induction n)
    case 0
    then show ?case
      using assms by (simp add: AlertCounter_inc_def AlertCounter_new_def reset_window_def)
  next
    case (Suc n)
    then show ?case by (simp add: AlertCounter_inc_def Let_def)
  qed
  then show ?thesis
    by (simp add: AlertCounter_hits_def unat_of_nat take_bit_eq_mod word_gt_0)
qed

theorem AlertCounter_burst_witness:
  "unat (AlertCounter_hits ((AlertCounter_inc 1000 ^^ Suc 65536) AlertCounter_new)) = 0"
  using AlertCounter_burst [of 1000 65536] by simp

end
