(* ===== verification/Flow_Traffic_Stats.thy ===== *)
theory Flow_Traffic_Stats
  imports Scores
begin

text \<open>
  The counters of a flow and their deltas: src/src/PartializableFlowTrafficStats.cpp,
  the delta bookkeeping of src/src/Flow.cpp (get_partial_traffic_stats,
  update_partial_traffic_stats_db_dump) and two consumers of the deltas,
  DnsStats::incStats and HTTPstats::incStats. The byte analysis of FlowTrafficStats is
  nDPI's. The detected protocol is represented by the branch of the switch that
  \<open>ndpi_get_lower_proto\<close> selects. The union of the HTTP and DNS counters is the list of
  its bytes, so that both views alias as they do in memory.
\<close>

section \<open>The counters\<close>

record flow_tcp_packet_stats =
  pktRetr :: u32
  pktOOO :: u32
  pktLost :: u32
  pktKeepAlive :: u32

datatype lower_proto = NDPI_PROTOCOL_HTTP | NDPI_PROTOCOL_DNS | NDPI_PROTOCOL_other

record partial_stats =
  lower_proto :: lower_proto
  cli2srv_packets :: u32
  srv2cli_packets :: u32
  cli2srv_bytes :: u64
  srv2cli_bytes :: u64
  cli2srv_goodput_bytes :: u64
  srv2cli_goodput_bytes :: u64
  cli2srv_tcp_stats :: flow_tcp_packet_stats
  srv2cli_tcp_stats :: flow_tcp_packet_stats
  cli_host_score :: "u16 list"
  srv_host_score :: "u16 list"
  is_flow_alerted :: bool
  protos :: "u8 list"

text \<open>Offsets of the counters in the union.\<close>

definition http_fields :: "nat list" where "http_fields = [0..<10]"
definition num_head :: nat where "num_head = 2"
definition dns_fields :: "nat list" where "dns_fields = [0..<12]"
definition num_replies_ok :: nat where "num_replies_ok = 10"
definition num_replies_error :: nat where "num_replies_error = 11"

definition tcp_stats_new :: flow_tcp_packet_stats where
  "tcp_stats_new = \<lparr> pktRetr = 0, pktOOO = 0, pktLost = 0, pktKeepAlive = 0 \<rparr>"

definition PartializableFlowTrafficStats_new :: partial_stats where
  "PartializableFlowTrafficStats_new =
     \<lparr> lower_proto = NDPI_PROTOCOL_other, cli2srv_packets = 0, srv2cli_packets = 0,
       cli2srv_bytes = 0, srv2cli_bytes = 0, cli2srv_goodput_bytes = 0, srv2cli_goodput_bytes = 0,
       cli2srv_tcp_stats = tcp_stats_new, srv2cli_tcp_stats = tcp_stats_new,
       cli_host_score = replicate MAX_NUM_SCORE_CATEGORIES 0,
       srv_host_score = replicate MAX_NUM_SCORE_CATEGORIES 0, is_flow_alerted = False,
       protos = replicate 12 0 \<rparr>"

section \<open>Differences\<close>

definition NON_NEGATIVE_DIFF :: "'a::len word \<Rightarrow> 'a word \<Rightarrow> 'a word" where
  "NON_NEGATIVE_DIFF a b = (if b > a then 0 else a - b)"

definition tcp_diff :: "flow_tcp_packet_stats \<Rightarrow> flow_tcp_packet_stats \<Rightarrow> flow_tcp_packet_stats" where
  "tcp_diff a b = \<lparr> pktRetr = NON_NEGATIVE_DIFF (pktRetr a) (pktRetr b),
     pktOOO = NON_NEGATIVE_DIFF (pktOOO a) (pktOOO b),
     pktLost = NON_NEGATIVE_DIFF (pktLost a) (pktLost b),
     pktKeepAlive = NON_NEGATIVE_DIFF (pktKeepAlive a) (pktKeepAlive b) \<rparr>"

text \<open>The HTTP case does not list \<open>num_head\<close>.\<close>

definition proto_diff :: "lower_proto \<Rightarrow> u8 list \<Rightarrow> u8 list \<Rightarrow> u8 list" where
  "proto_diff p a b =
     (let fields = (case p of
          NDPI_PROTOCOL_HTTP \<Rightarrow> [0, 1, 3, 4, 5, 6, 7, 8, 9]
        | NDPI_PROTOCOL_DNS \<Rightarrow> dns_fields
        | NDPI_PROTOCOL_other \<Rightarrow> [])
      in map (\<lambda>i. if i \<in> set fields then NON_NEGATIVE_DIFF (a ! i) (b ! i) else a ! i) [0..<length a])"

definition operator_minus :: "partial_stats \<Rightarrow> partial_stats \<Rightarrow> partial_stats" where
  "operator_minus cur fts = cur
     \<lparr> cli2srv_bytes := NON_NEGATIVE_DIFF (cli2srv_bytes cur) (cli2srv_bytes fts),
       srv2cli_bytes := NON_NEGATIVE_DIFF (srv2cli_bytes cur) (srv2cli_bytes fts),
       cli2srv_packets := NON_NEGATIVE_DIFF (cli2srv_packets cur) (cli2srv_packets fts),
       cli2srv_goodput_bytes := NON_NEGATIVE_DIFF (cli2srv_goodput_bytes cur) (cli2srv_goodput_bytes fts),
       srv2cli_packets := NON_NEGATIVE_DIFF (srv2cli_packets cur) (srv2cli_packets fts),
       srv2cli_goodput_bytes := NON_NEGATIVE_DIFF (srv2cli_goodput_bytes cur) (srv2cli_goodput_bytes fts),
       cli2srv_tcp_stats := tcp_diff (cli2srv_tcp_stats cur) (cli2srv_tcp_stats fts),
       srv2cli_tcp_stats := tcp_diff (srv2cli_tcp_stats cur) (srv2cli_tcp_stats fts),
       cli_host_score := map2 NON_NEGATIVE_DIFF (cli_host_score cur) (cli_host_score fts),
       srv_host_score := map2 NON_NEGATIVE_DIFF (srv_host_score cur) (srv_host_score fts),
       is_flow_alerted := (is_flow_alerted cur \<and> \<not> is_flow_alerted fts),
       protos := proto_diff (lower_proto cur) (protos cur) (protos fts) \<rparr>"

section \<open>Updates\<close>

definition setDetectedProtocol :: "lower_proto \<Rightarrow> partial_stats \<Rightarrow> partial_stats" where
  "setDetectedProtocol p s = s\<lparr>lower_proto := p\<rparr>"

definition tcp_add :: "u32 \<Rightarrow> u32 \<Rightarrow> u32 \<Rightarrow> u32 \<Rightarrow> flow_tcp_packet_stats \<Rightarrow> flow_tcp_packet_stats" where
  "tcp_add retr ooo lost keepalive t =
     \<lparr> pktRetr = pktRetr t + retr, pktOOO = pktOOO t + ooo, pktLost = pktLost t + lost,
       pktKeepAlive = pktKeepAlive t + keepalive \<rparr>"

definition incTcpStats :: "bool \<Rightarrow> u32 \<Rightarrow> u32 \<Rightarrow> u32 \<Rightarrow> u32 \<Rightarrow> partial_stats \<Rightarrow> partial_stats" where
  "incTcpStats cli2srv_direction retr ooo lost keepalive s =
     (if cli2srv_direction
      then s\<lparr>cli2srv_tcp_stats := tcp_add retr ooo lost keepalive (cli2srv_tcp_stats s)\<rparr>
      else s\<lparr>srv2cli_tcp_stats := tcp_add retr ooo lost keepalive (srv2cli_tcp_stats s)\<rparr>)"

definition SCORE_MAX_VALUE :: u16 where "SCORE_MAX_VALUE = 250"

definition score_add :: "u16 \<Rightarrow> score_category \<Rightarrow> u16 list \<Rightarrow> u16 list" where
  "score_add v cat l = l[score_cat cat := l ! score_cat cat + min v SCORE_MAX_VALUE]"

definition incScore :: "u16 \<Rightarrow> score_category \<Rightarrow> bool \<Rightarrow> partial_stats \<Rightarrow> partial_stats" where
  "incScore v cat as_client s =
     (if as_client then s\<lparr>cli_host_score := score_add v cat (cli_host_score s)\<rparr>
      else s\<lparr>srv_host_score := score_add v cat (srv_host_score s)\<rparr>)"

definition setFlowAlerted :: "partial_stats \<Rightarrow> partial_stats" where
  "setFlowAlerted s = s\<lparr>is_flow_alerted := True\<rparr>"

definition incStats :: "bool \<Rightarrow> u32 \<Rightarrow> u64 \<Rightarrow> u64 \<Rightarrow> partial_stats \<Rightarrow> partial_stats" where
  "incStats cli2srv_direction num_pkts pkts_bytes payloads_bytes s =
     (if cli2srv_direction
      then s\<lparr>cli2srv_packets := cli2srv_packets s + num_pkts, cli2srv_bytes := cli2srv_bytes s + pkts_bytes,
             cli2srv_goodput_bytes := cli2srv_goodput_bytes s + payloads_bytes\<rparr>
      else s\<lparr>srv2cli_packets := srv2cli_packets s + num_pkts, srv2cli_bytes := srv2cli_bytes s + pkts_bytes,
             srv2cli_goodput_bytes := srv2cli_goodput_bytes s + payloads_bytes\<rparr>)"

definition setStats :: "bool \<Rightarrow> u32 \<Rightarrow> u64 \<Rightarrow> u64 \<Rightarrow> partial_stats \<Rightarrow> partial_stats" where
  "setStats cli2srv_direction num_pkts pkts_bytes payloads_bytes s =
     (if cli2srv_direction
      then s\<lparr>cli2srv_packets := num_pkts, cli2srv_bytes := pkts_bytes, cli2srv_goodput_bytes := payloads_bytes\<rparr>
      else s\<lparr>srv2cli_packets := num_pkts, srv2cli_bytes := pkts_bytes, srv2cli_goodput_bytes := payloads_bytes\<rparr>)"

definition inc_proto :: "nat \<Rightarrow> partial_stats \<Rightarrow> partial_stats" where
  "inc_proto i s = s\<lparr>protos := (protos s)[i := protos s ! i + 1]\<rparr>"

datatype http_counter =
    HTTPReqGET | HTTPReqPOST | HTTPReqHEAD | HTTPReqPUT | HTTPReqOther
  | HTTPResp1xx | HTTPResp2xx | HTTPResp3xx | HTTPResp4xx | HTTPResp5xx

fun http_field :: "http_counter \<Rightarrow> nat" where
  "http_field HTTPReqGET = 0" | "http_field HTTPReqPOST = 1" | "http_field HTTPReqHEAD = num_head"
| "http_field HTTPReqPUT = 3" | "http_field HTTPReqOther = 4" | "http_field HTTPResp1xx = 5"
| "http_field HTTPResp2xx = 6" | "http_field HTTPResp3xx = 7" | "http_field HTTPResp4xx = 8"
| "http_field HTTPResp5xx = 9"

definition incHTTP :: "http_counter \<Rightarrow> partial_stats \<Rightarrow> partial_stats" where
  "incHTTP k = inc_proto (http_field k)"

definition dns_query_field :: "u16 \<Rightarrow> nat option" where
  "dns_query_field query_type =
     (if query_type = 0 then None
      else if query_type = 1 then Some 0
      else if query_type = 2 then Some 1
      else if query_type = 5 then Some 2
      else if query_type = 6 then Some 3
      else if query_type = 12 then Some 4
      else if query_type = 15 then Some 5
      else if query_type = 16 then Some 6
      else if query_type = 28 then Some 7
      else if query_type = 255 then Some 8
      else Some 9)"

definition incDNSQuery :: "u16 \<Rightarrow> partial_stats \<Rightarrow> partial_stats" where
  "incDNSQuery query_type s =
     (case dns_query_field query_type of None \<Rightarrow> s | Some i \<Rightarrow> inc_proto i s)"

definition incDNSResp :: "u16 \<Rightarrow> partial_stats \<Rightarrow> partial_stats" where
  "incDNSResp resp_code s =
     inc_proto (if resp_code = 0 then num_replies_ok else num_replies_error) s"

text \<open>The sums are \<open>int\<close> and are cut to 16 bits when returned.\<close>

definition get_num_http_requests :: "partial_stats \<Rightarrow> u16" where
  "get_num_http_requests s = (\<Sum>i<5. ucast (protos s ! i))"

definition get_num_dns_queries :: "partial_stats \<Rightarrow> u16" where
  "get_num_dns_queries s = (\<Sum>i<10. ucast (protos s ! i))"

definition stats_swap :: "partial_stats \<Rightarrow> partial_stats" where
  "stats_swap s = s
     \<lparr> cli2srv_packets := srv2cli_packets s, srv2cli_packets := cli2srv_packets s,
       cli2srv_bytes := srv2cli_bytes s, srv2cli_bytes := cli2srv_bytes s,
       cli2srv_goodput_bytes := srv2cli_goodput_bytes s, srv2cli_goodput_bytes := cli2srv_goodput_bytes s,
       cli2srv_tcp_stats := srv2cli_tcp_stats s, srv2cli_tcp_stats := cli2srv_tcp_stats s,
       cli_host_score := srv_host_score s, srv_host_score := cli_host_score s \<rparr>"

section \<open>Deltas\<close>

text \<open>Returns the delta and the new snapshot.\<close>

definition get_partial :: "partial_stats \<Rightarrow> partial_stats \<Rightarrow> partial_stats \<times> partial_stats" where
  "get_partial s dst = (operator_minus s dst, s)"

text \<open>
  The snapshot is allocated at the first call, whose result is then marked as first.
\<close>

definition get_partial_traffic_stats ::
  "partial_stats \<Rightarrow> partial_stats option \<Rightarrow> bool \<times> partial_stats \<times> partial_stats option" where
  "get_partial_traffic_stats s base =
     (let (first_partial, b) = (case base of None \<Rightarrow> (True, PartializableFlowTrafficStats_new) | Some b \<Rightarrow> (False, b));
          (partial, b1) = get_partial s b
      in (first_partial, partial, Some b1))"

record db_dump =
  dump_base :: "partial_stats option"
  dump_delta :: partial_stats
  dump_first_seen :: int
  dump_last_seen :: int

definition update_partial_traffic_stats_db_dump :: "partial_stats \<Rightarrow> int \<Rightarrow> int \<Rightarrow> db_dump \<Rightarrow> db_dump" where
  "update_partial_traffic_stats_db_dump s flow_first flow_last d =
     (let (first_partial, partial, b) = get_partial_traffic_stats s (dump_base d)
      in d\<lparr>dump_base := b, dump_delta := partial,
           dump_first_seen := (if first_partial then flow_first else dump_last_seen d),
           dump_last_seen := flow_last\<rparr>)"

section \<open>Consumers\<close>

record dns_stats =
  num_queries :: u32
  dns_replies_ok :: u32
  dns_replies_error :: u32
  breakdown :: "u32 list"

definition dns_stats_new :: dns_stats where
  "dns_stats_new = \<lparr> num_queries = 0, dns_replies_ok = 0, dns_replies_error = 0, breakdown = replicate 10 0 \<rparr>"

record DnsStats =
  sent_stats :: dns_stats
  rcvd_stats :: dns_stats

definition DnsStats_new :: DnsStats where
  "DnsStats_new = \<lparr> sent_stats = dns_stats_new, rcvd_stats = dns_stats_new \<rparr>"

definition dns_inc_queries :: "u8 list \<Rightarrow> dns_stats \<Rightarrow> dns_stats" where
  "dns_inc_queries fts q =
     (let tot_qry = (\<Sum>i<10. ucast (fts ! i) :: u16)
      in q\<lparr>breakdown := map (\<lambda>i. breakdown q ! i + ucast (fts ! i)) [0..<10],
           num_queries := num_queries q + ucast tot_qry\<rparr>)"

definition dns_inc_replies :: "u8 list \<Rightarrow> dns_stats \<Rightarrow> dns_stats" where
  "dns_inc_replies fts r =
     r\<lparr>dns_replies_ok := dns_replies_ok r + ucast (fts ! num_replies_ok),
       dns_replies_error := dns_replies_error r + ucast (fts ! num_replies_error)\<rparr>"

definition DnsStats_incStats :: "bool \<Rightarrow> u8 list \<Rightarrow> DnsStats \<Rightarrow> DnsStats" where
  "DnsStats_incStats as_client fts d =
     (if as_client
      then d\<lparr>sent_stats := dns_inc_queries fts (sent_stats d), rcvd_stats := dns_inc_replies fts (rcvd_stats d)\<rparr>
      else d\<lparr>rcvd_stats := dns_inc_queries fts (rcvd_stats d), sent_stats := dns_inc_replies fts (sent_stats d)\<rparr>)"

text \<open>The query and response counters of a host, each by direction: five 32-bit counters.\<close>

record HTTPstats =
  query_sent :: "u32 list"
  query_rcvd :: "u32 list"
  response_sent :: "u32 list"
  response_rcvd :: "u32 list"

definition HTTPstats_new :: HTTPstats where
  "HTTPstats_new = \<lparr> query_sent = replicate 5 0, query_rcvd = replicate 5 0,
     response_sent = replicate 5 0, response_rcvd = replicate 5 0 \<rparr>"

definition http_inc :: "nat \<Rightarrow> u8 list \<Rightarrow> u32 list \<Rightarrow> u32 list" where
  "http_inc off fts q = map (\<lambda>i. q ! i + ucast (fts ! (off + i))) [0..<5]"

definition HTTPstats_incStats :: "bool \<Rightarrow> u8 list \<Rightarrow> HTTPstats \<Rightarrow> HTTPstats" where
  "HTTPstats_incStats as_client fts h =
     (if as_client
      then h\<lparr>query_sent := http_inc 0 fts (query_sent h), response_rcvd := http_inc 5 fts (response_rcvd h)\<rparr>
      else h\<lparr>query_rcvd := http_inc 0 fts (query_rcvd h), response_sent := http_inc 5 fts (response_sent h)\<rparr>)"

section \<open>Counters by name\<close>

text \<open>\<open>True\<close> stands for the direction from client to server.\<close>

datatype fts_counter =
  Packets bool | Bytes bool | Goodput bool | Retr bool | OOO bool | Lost bool | KeepAlive bool
  | Host_score bool score_category | Proto nat

fun ctr :: "fts_counter \<Rightarrow> partial_stats \<Rightarrow> nat" where
  "ctr (Packets d) s = unat (if d then cli2srv_packets s else srv2cli_packets s)"
| "ctr (Bytes d) s = unat (if d then cli2srv_bytes s else srv2cli_bytes s)"
| "ctr (Goodput d) s = unat (if d then cli2srv_goodput_bytes s else srv2cli_goodput_bytes s)"
| "ctr (Retr d) s = unat (pktRetr (if d then cli2srv_tcp_stats s else srv2cli_tcp_stats s))"
| "ctr (OOO d) s = unat (pktOOO (if d then cli2srv_tcp_stats s else srv2cli_tcp_stats s))"
| "ctr (Lost d) s = unat (pktLost (if d then cli2srv_tcp_stats s else srv2cli_tcp_stats s))"
| "ctr (KeepAlive d) s = unat (pktKeepAlive (if d then cli2srv_tcp_stats s else srv2cli_tcp_stats s))"
| "ctr (Host_score d cat) s = unat ((if d then cli_host_score s else srv_host_score s) ! score_cat cat)"
| "ctr (Proto i) s = (if i < 12 then unat (protos s ! i) else 0)"

text \<open>The counters whose deltas are taken, depending on the detected protocol.\<close>

fun counted :: "lower_proto \<Rightarrow> fts_counter \<Rightarrow> bool" where
  "counted p (Proto i) =
     (case p of NDPI_PROTOCOL_HTTP \<Rightarrow> i \<noteq> num_head \<and> i < 10 | NDPI_PROTOCOL_DNS \<Rightarrow> i < 12
      | NDPI_PROTOCOL_other \<Rightarrow> False)"
| "counted p k = True"

definition fts_wf :: "partial_stats \<Rightarrow> bool" where
  "fts_wf s \<longleftrightarrow> length (cli_host_score s) = MAX_NUM_SCORE_CATEGORIES
     \<and> length (srv_host_score s) = MAX_NUM_SCORE_CATEGORIES \<and> length (protos s) = 12"

lemma unat_NON_NEGATIVE_DIFF: "unat (NON_NEGATIVE_DIFF a b) = unat a - unat b"
  by (auto simp: NON_NEGATIVE_DIFF_def unat_sub word_le_nat_alt word_less_nat_alt)

lemma ctr_minus:
  assumes "fts_wf s" "fts_wf b" "counted (lower_proto s) k"
  shows "ctr k (operator_minus s b) = ctr k s - ctr k b"
proof (cases k)
  case (Proto i)
  then have "i < 12" "lower_proto s = NDPI_PROTOCOL_HTTP \<and> i \<noteq> 2 \<and> i < 10 \<or> lower_proto s = NDPI_PROTOCOL_DNS"
    using assms(3) by (auto simp: num_head_def split: lower_proto.splits)
  moreover have "i \<in> {0, 1, 3, 4, 5, 6, 7, 8, 9}" if "i \<noteq> 2" "i < 10" using that by auto
  ultimately show ?thesis
    using Proto assms(1)
    by (auto simp: operator_minus_def proto_diff_def dns_fields_def unat_NON_NEGATIVE_DIFF fts_wf_def)
next
  case (Host_score d cat)
  then show ?thesis
    using assms(1,2) by (simp add: operator_minus_def unat_NON_NEGATIVE_DIFF fts_wf_def)
qed (simp_all add: operator_minus_def tcp_diff_def unat_NON_NEGATIVE_DIFF)

lemma fts_wf_minus: "fts_wf s \<Longrightarrow> fts_wf b \<Longrightarrow> fts_wf (operator_minus s b)"
  by (simp add: fts_wf_def operator_minus_def proto_diff_def)

text \<open>Swapping the direction of a flow and of its snapshot swaps the delta.\<close>

lemma minus_swap: "operator_minus (stats_swap s) (stats_swap b) = stats_swap (operator_minus s b)"
  by (simp add: operator_minus_def stats_swap_def)

section \<open>Histories\<close>

datatype fts_op =
  Inc_stats bool u32 u64 u64 | Inc_tcp bool u32 u32 u32 u32 | Inc_score u16 score_category bool
  | Inc_http http_counter | Inc_dns_query u16 | Inc_dns_resp u16 | Alerted

fun fts_apply :: "fts_op \<Rightarrow> partial_stats \<Rightarrow> partial_stats" where
  "fts_apply (Inc_stats d n b g) s = incStats d n b g s"
| "fts_apply (Inc_tcp d r oo l ka) s = incTcpStats d r oo l ka s"
| "fts_apply (Inc_score v cat c) s = incScore v cat c s"
| "fts_apply (Inc_http k) s = incHTTP k s"
| "fts_apply (Inc_dns_query t) s = incDNSQuery t s"
| "fts_apply (Inc_dns_resp c) s = incDNSResp c s"
| "fts_apply Alerted s = setFlowAlerted s"

definition all_counters :: "fts_counter list" where
  "all_counters = concat (map (\<lambda>d. [Packets d, Bytes d, Goodput d, Retr d, OOO d, Lost d, KeepAlive d,
       Host_score d score_category_network, Host_score d score_category_security]) [True, False])
     @ map Proto [0..<12]"

lemma all_counters_complete: "counted p k \<Longrightarrow> k \<in> set all_counters"
proof (cases k)
  case (Host_score d cat)
  then show ?thesis by (cases cat; cases d) (simp_all add: all_counters_def)
next
  case (Proto i)
  moreover assume "counted p k"
  ultimately show ?thesis by (auto simp: all_counters_def split: lower_proto.splits)
qed (auto simp: all_counters_def)

text \<open>
  A history is a list of updates and of requests for a delta (\<open>None\<close>); it stops when a
  counter wraps around, which shows as a decrease. The state is the flow's counters, the
  snapshot and the deltas returned so far.
\<close>

type_synonym fts_state = "partial_stats \<times> partial_stats option \<times> partial_stats list"

fun fts_step :: "fts_op option \<Rightarrow> fts_state \<Rightarrow> fts_state option" where
  "fts_step (Some op) (s, base, ps) =
     (let s1 = fts_apply op s
      in if list_all (\<lambda>k. ctr k s \<le> ctr k s1) all_counters then Some (s1, base, ps) else None)"
| "fts_step None (s, base, ps) =
     (let (_, p, b) = get_partial_traffic_stats s base in Some (s, b, ps @ [p]))"

fun fts_run :: "fts_op option list \<Rightarrow> fts_state \<Rightarrow> fts_state option" where
  "fts_run [] st = Some st"
| "fts_run (x # xs) st = (case fts_step x st of None \<Rightarrow> None | Some st1 \<Rightarrow> fts_run xs st1)"

definition snapshot :: "partial_stats option \<Rightarrow> partial_stats" where
  "snapshot base = (case base of None \<Rightarrow> PartializableFlowTrafficStats_new | Some b \<Rightarrow> b)"

definition fts_inv :: "lower_proto \<Rightarrow> fts_state \<Rightarrow> bool" where
  "fts_inv p = (\<lambda>(s, base, ps). fts_wf s \<and> fts_wf (snapshot base) \<and> lower_proto s = p
     \<and> (\<forall>k. counted p k \<longrightarrow> (\<Sum>d\<leftarrow>ps. ctr k d) = ctr k (snapshot base) \<and> ctr k (snapshot base) \<le> ctr k s))"

lemma fts_apply_keeps:
  "fts_wf s \<Longrightarrow> fts_wf (fts_apply op s)" "lower_proto (fts_apply op s) = lower_proto s"
  by (cases op; simp add: fts_wf_def incStats_def incTcpStats_def incScore_def score_add_def incHTTP_def
      inc_proto_def incDNSQuery_def incDNSResp_def setFlowAlerted_def split: option.splits)+

lemma get_partial_traffic_stats_eq:
  "get_partial_traffic_stats s base = (base = None, operator_minus s (snapshot base), Some s)"
  by (simp add: get_partial_traffic_stats_def get_partial_def snapshot_def split: option.splits)

lemma fts_step_inv:
  assumes "fts_inv p st" "fts_step x st = Some st'"
  shows "fts_inv p st'"
proof -
  obtain s base ps where st: "st = (s, base, ps)" by (cases st)
  show ?thesis
  proof (cases x)
    case (Some op)
    have "ctr k s \<le> ctr k (fts_apply op s)" if "counted p k" for k
      using assms(2) all_counters_complete [OF that] Some st
      by (simp add: Let_def list_all_iff split: if_splits)
    then show ?thesis
      using assms Some st fts_apply_keeps by (fastforce simp: fts_inv_def Let_def split: if_splits)
  next
    case None
    have st': "st' = (s, Some s, ps @ [operator_minus s (snapshot base)])"
      using assms(2) None st by (simp add: get_partial_traffic_stats_eq)
    show ?thesis
      using assms(1) unfolding st st' fts_inv_def
      by (auto simp: snapshot_def [of "Some s"] ctr_minus)
  qed
qed

lemma fts_run_inv: "fts_inv p st \<Longrightarrow> fts_run xs st = Some st' \<Longrightarrow> fts_inv p st'"
proof (induction xs arbitrary: st)
  case (Cons x xs)
  then obtain st1 where "fts_step x st = Some st1" "fts_run xs st1 = Some st'"
    by (auto split: option.splits)
  then show ?case using Cons.IH fts_step_inv [OF Cons.prems(1)] by blast
qed simp

lemma fts_inv_new: "fts_inv p (setDetectedProtocol p PartializableFlowTrafficStats_new, None, [])"
proof -
  have z: "ctr k PartializableFlowTrafficStats_new = 0" for k
    by (cases k) (simp_all add: PartializableFlowTrafficStats_new_def tcp_stats_new_def)
  show ?thesis
    by (simp add: fts_inv_def snapshot_def z)
      (simp add: fts_wf_def PartializableFlowTrafficStats_new_def setDetectedProtocol_def)
qed

lemma fts_inv_conserve:
  assumes "fts_inv p (s, base, ps)" "counted p k"
  shows "(\<Sum>d\<leftarrow>ps. ctr k d) + ctr k (operator_minus s (snapshot base)) = ctr k s"
  using assms ctr_minus by (auto simp: fts_inv_def)

section \<open>What the consumers add up\<close>

lemma unat_sum_words:
  fixes f :: "nat \<Rightarrow> 'a::len word"
  assumes "(\<Sum>i<n. unat (f i)) < 2 ^ LENGTH('a)"
  shows "unat (\<Sum>i<n. f i) = (\<Sum>i<n. unat (f i))"
  using assms
proof (induction n)
  case (Suc n)
  then have "unat (\<Sum>i<n. f i) = (\<Sum>i<n. unat (f i))" by simp
  then show ?case using Suc.prems by (simp add: unat_word_ariths)
qed simp

lemma unat_u8_to:
  "unat (ucast (w :: u8) :: u16) = unat w" "unat (ucast (w :: u8) :: u32) = unat w" "unat w \<le> 255"
proof -
  have w: "unat w < 2 ^ 8" using unsigned_less [of w] by simp
  then show "unat (ucast w :: u16) = unat w" "unat (ucast w :: u32) = unat w" "unat w \<le> 255"
    by (simp_all add: unsigned_ucast_eq take_bit_nat_eq_self)
qed

definition dns_total :: "u8 list \<Rightarrow> nat" where
  "dns_total f = (\<Sum>i<10. unat (f ! i))"

lemma dns_total_le: "dns_total f \<le> 2550"
proof -
  have "dns_total f \<le> (\<Sum>i<10::nat. 255)" unfolding dns_total_def by (rule sum_mono) (rule unat_u8_to)
  then show ?thesis by simp
qed

lemma dns_inc_queries_num:
  assumes "unat (num_queries q) + dns_total f < 2 ^ 32"
  shows "unat (num_queries (dns_inc_queries f q)) = unat (num_queries q) + dns_total f"
proof -
  have "unat (\<Sum>i<10. ucast (f ! i) :: u16) = dns_total f"
    using unat_sum_words [of "\<lambda>i. ucast (f ! i) :: u16" 10] dns_total_le [of f]
    by (simp add: unat_u8_to dns_total_def)
  then show ?thesis
    using assms by (simp add: dns_inc_queries_def Let_def unat_word_ariths unat_ucast_u16)
qed

lemma dns_fold_queries:
  "unat (num_queries (sent_stats d)) + (\<Sum>f\<leftarrow>fs. dns_total f) < 2 ^ 32 \<Longrightarrow>
   unat (num_queries (sent_stats (fold (DnsStats_incStats True) fs d))) =
     unat (num_queries (sent_stats d)) + (\<Sum>f\<leftarrow>fs. dns_total f)"
proof (induction fs arbitrary: d)
  case (Cons f fs)
  have "unat (num_queries (sent_stats (DnsStats_incStats True f d))) = unat (num_queries (sent_stats d)) + dns_total f"
    using Cons.prems by (simp add: DnsStats_incStats_def dns_inc_queries_num)
  then show ?case using Cons.IH [of "DnsStats_incStats True f d"] Cons.prems by simp
qed simp

lemma dns_total_exchange:
  assumes "\<And>i. i < 10 \<Longrightarrow> (\<Sum>d\<leftarrow>ds. ctr (Proto i) d) = unat (l ! i)"
  shows "(\<Sum>d\<leftarrow>ds. dns_total (protos d)) = dns_total l"
proof -
  have "(\<Sum>d\<leftarrow>ds. dns_total (protos d)) = (\<Sum>i<10. \<Sum>d\<leftarrow>ds. unat (protos d ! i))"
    by (induction ds) (simp_all add: dns_total_def sum.distrib)
  also have "\<dots> = (\<Sum>i<10. unat (l ! i))"
    by (rule sum.cong) (use assms in auto)
  finally show ?thesis by (simp add: dns_total_def)
qed

section \<open>Properties\<close>

text \<open>
  C8: The deltas of a flow lose nothing and count nothing twice: along any history of
  updates and deltas in which no counter wraps, what the deltas returned so far sum up
  to, plus the delta that would be returned now, is the value of the counter. This holds
  for packets, bytes, goodput, TCP and score counters, the DNS counters of a DNS flow and
  the HTTP counters of an HTTP flow except the HEAD requests.
\<close>
theorem partials_conserve:
  assumes "fts_run xs (setDetectedProtocol p PartializableFlowTrafficStats_new, None, []) = Some (s, base, ps)"
    and "counted p k" and "get_partial_traffic_stats s base = (first_partial, delta, base')"
  shows "(\<Sum>d\<leftarrow>ps. ctr k d) + ctr k delta = ctr k s"
proof -
  have I: "fts_inv p (s, base, ps)" by (rule fts_run_inv [OF fts_inv_new assms(1)])
  have "delta = operator_minus s (snapshot base)" using assms(3) by (simp add: get_partial_traffic_stats_eq)
  then show ?thesis using fts_inv_conserve [OF I assms(2)] by simp
qed

definition wit_history :: "fts_op option list" where
  "wit_history = [Some (Inc_stats True 1 60 0), None, Some (Inc_stats True 2 200 100), Some (Inc_dns_query 1), None]"

theorem partials_conserve_witness:
  "\<exists>s base ps first delta base'.
     fts_run wit_history (setDetectedProtocol NDPI_PROTOCOL_DNS PartializableFlowTrafficStats_new, None, []) =
       Some (s, base, ps) \<and> get_partial_traffic_stats s base = (first, delta, base')
     \<and> (\<Sum>d\<leftarrow>ps. ctr (Packets True) d) + ctr (Packets True) delta = ctr (Packets True) s"
proof -
  have "fts_run wit_history (setDetectedProtocol NDPI_PROTOCOL_DNS PartializableFlowTrafficStats_new, None, []) \<noteq> None"
    by code_simp
  then obtain s base ps where r:
    "fts_run wit_history (setDetectedProtocol NDPI_PROTOCOL_DNS PartializableFlowTrafficStats_new, None, []) =
       Some (s, base, ps)" by auto
  obtain first delta base' where g: "get_partial_traffic_stats s base = (first, delta, base')"
    by (cases "get_partial_traffic_stats s base")
  show ?thesis using r g partials_conserve [OF r _ g, of "Packets True"] by auto
qed

text \<open>
  C24: From flow to host: when every delta of a DNS flow is passed to the statistics of its
  client, the number of queries sent that they show is the number of queries the flow has
  counted, however the periodic updates fall, as long as no counter of the flow wraps. A flow counts each query
  type in 8 bits and \<open>fts_run\<close> is \<open>None\<close> from the first wrap on: beyond 255 queries of a
  type the two differ, which \<open>dns_queries_wrap\<close> shows.
\<close>
theorem dns_queries_conserved:
  assumes "fts_run xs (setDetectedProtocol NDPI_PROTOCOL_DNS PartializableFlowTrafficStats_new, None, []) =
      Some (s, base, ps)"
    and "get_partial_traffic_stats s base = (first_partial, delta, base')"
  shows "unat (num_queries (sent_stats (fold (DnsStats_incStats True) (map protos (ps @ [delta])) DnsStats_new))) =
    unat (get_num_dns_queries s)"
proof -
  have I: "fts_inv NDPI_PROTOCOL_DNS (s, base, ps)" by (rule fts_run_inv [OF fts_inv_new assms(1)])
  have d: "delta = operator_minus s (snapshot base)" using assms(2) by (simp add: get_partial_traffic_stats_eq)
  have "(\<Sum>e\<leftarrow>ps @ [delta]. ctr (Proto i) e) = unat (protos s ! i)" if "i < 10" for i
  proof -
    have "counted NDPI_PROTOCOL_DNS (Proto i)" using that by simp
    from fts_inv_conserve [OF I this] have
      "(\<Sum>e\<leftarrow>ps. ctr (Proto i) e) + ctr (Proto i) delta = ctr (Proto i) s" by (simp only: d)
    then show ?thesis using that by simp
  qed
  then have t: "(\<Sum>e\<leftarrow>ps @ [delta]. dns_total (protos e)) = dns_total (protos s)" by (rule dns_total_exchange)
  have "unat (get_num_dns_queries s) = dns_total (protos s)"
    using unat_sum_words [of "\<lambda>i. ucast (protos s ! i) :: u16" 10] dns_total_le [of "protos s"]
    by (simp add: unat_u8_to dns_total_def get_num_dns_queries_def)
  moreover have "(\<Sum>f\<leftarrow>map protos (ps @ [delta]). dns_total f) = dns_total (protos s)"
    using t by (simp add: comp_def)
  ultimately show ?thesis
    using dns_fold_queries [of DnsStats_new "map protos (ps @ [delta])"] dns_total_le [of "protos s"]
    by (simp add: DnsStats_new_def dns_stats_new_def)
qed

theorem dns_queries_conserved_witness:
  "\<exists>s base ps first delta base'.
     fts_run wit_history (setDetectedProtocol NDPI_PROTOCOL_DNS PartializableFlowTrafficStats_new, None, []) =
       Some (s, base, ps) \<and> get_partial_traffic_stats s base = (first, delta, base')
     \<and> unat (num_queries (sent_stats (fold (DnsStats_incStats True) (map protos (ps @ [delta])) DnsStats_new))) =
         unat (get_num_dns_queries s)"
proof -
  have "fts_run wit_history (setDetectedProtocol NDPI_PROTOCOL_DNS PartializableFlowTrafficStats_new, None, []) \<noteq> None"
    by code_simp
  then obtain s base ps where r:
    "fts_run wit_history (setDetectedProtocol NDPI_PROTOCOL_DNS PartializableFlowTrafficStats_new, None, []) =
       Some (s, base, ps)" by auto
  obtain first delta base' where g: "get_partial_traffic_stats s base = (first, delta, base')"
    by (cases "get_partial_traffic_stats s base")
  show ?thesis using r g dns_queries_conserved [OF r g] by blast
qed

lemma inc_proto_funpow:
  "i < length (protos s) \<Longrightarrow> (inc_proto i ^^ n) s = s\<lparr>protos := (protos s)[i := protos s ! i + of_nat n]\<rparr>"
  by (induction n) (simp_all add: inc_proto_def ac_simps)

text \<open>
  Beyond 255 queries of a type the flow and its client disagree: 250 queries for an address, a
  periodic update, and 50 more queries leave 44 in the flow and 250 at the client.
\<close>
theorem dns_queries_wrap:
  "let s0 = setDetectedProtocol NDPI_PROTOCOL_DNS PartializableFlowTrafficStats_new;
       s1 = (incDNSQuery 1 ^^ 250) s0; (f1, d1, b1) = get_partial_traffic_stats s1 None;
       s2 = (incDNSQuery 1 ^^ 50) s1; (f2, d2, b2) = get_partial_traffic_stats s2 b1
   in get_num_dns_queries s2 = 44
      \<and> num_queries (sent_stats (fold (DnsStats_incStats True) (map protos [d1, d2]) DnsStats_new)) = 250"
proof -
  have q: "incDNSQuery 1 = inc_proto 0" by (rule ext) (simp add: incDNSQuery_def dns_query_field_def)
  let ?s0 = "setDetectedProtocol NDPI_PROTOCOL_DNS PartializableFlowTrafficStats_new"
  have "length (protos ?s0) = 12" "protos ?s0 = [0, 0, 0, 0, 0, 0, 0, 0, 0, 0, 0, 0]" by code_simp+
  then have "(incDNSQuery 1 ^^ 250) ?s0 = ?s0\<lparr>protos := [250, 0, 0, 0, 0, 0, 0, 0, 0, 0, 0, 0]\<rparr>"
    "(incDNSQuery 1 ^^ 50) (?s0\<lparr>protos := [250, 0, 0, 0, 0, 0, 0, 0, 0, 0, 0, 0]\<rparr>)
      = ?s0\<lparr>protos := [44, 0, 0, 0, 0, 0, 0, 0, 0, 0, 0, 0]\<rparr>"
    by (simp_all add: q inc_proto_funpow)
  moreover have "let (f1, d1, b1) = get_partial_traffic_stats (?s0\<lparr>protos := [250, 0, 0, 0, 0, 0, 0, 0, 0, 0, 0, 0]\<rparr>) None;
      (f2, d2, b2) = get_partial_traffic_stats (?s0\<lparr>protos := [44, 0, 0, 0, 0, 0, 0, 0, 0, 0, 0, 0]\<rparr>) b1
    in get_num_dns_queries (?s0\<lparr>protos := [44, 0, 0, 0, 0, 0, 0, 0, 0, 0, 0, 0]\<rparr>) = 44
      \<and> num_queries (sent_stats (fold (DnsStats_incStats True) (map protos [d1, d2]) DnsStats_new)) = 250"
    by code_simp
  ultimately show ?thesis by (simp only: Let_def)
qed

lemma query_sent_inc: "i < 5 \<Longrightarrow> query_sent (HTTPstats_incStats True f h) ! i = query_sent h ! i + ucast (f ! i)"
  by (simp add: HTTPstats_incStats_def http_inc_def)

text \<open>
  C40: The delta of an HTTP flow carries the total of its HEAD requests each time: after
  \<open>n\<close> periodic updates without any new request, the client's statistics have \<open>n\<close> times
  the HEAD requests of the flow added again, while the GET requests stay.
\<close>
theorem http_head_recounted:
  assumes "fts_wf s" "lower_proto s = NDPI_PROTOCOL_HTTP"
  shows "query_sent ((HTTPstats_incStats True (protos (fst (get_partial s s))) ^^ n) HTTPstats_new) ! num_head
      = of_nat n * ucast (protos s ! num_head)
    \<and> query_sent ((HTTPstats_incStats True (protos (fst (get_partial s s))) ^^ n) HTTPstats_new) ! 0 = 0"
proof (induction n)
  case 0
  then show ?case by (simp add: HTTPstats_new_def num_head_def)
next
  case (Suc n)
  have "protos (fst (get_partial s s)) ! num_head = protos s ! num_head" "protos (fst (get_partial s s)) ! 0 = 0"
    using assms by (simp_all add: get_partial_def operator_minus_def proto_diff_def num_head_def fts_wf_def
        NON_NEGATIVE_DIFF_def numeral_2_eq_2)
  moreover have "num_head < 5" by (simp add: num_head_def)
  ultimately show ?case
    using Suc by (simp add: query_sent_inc algebra_simps)
qed

theorem http_head_recounted_witness:
  "query_sent ((HTTPstats_incStats True (protos (fst (get_partial
     (incHTTP HTTPReqHEAD (setDetectedProtocol NDPI_PROTOCOL_HTTP PartializableFlowTrafficStats_new))
     (incHTTP HTTPReqHEAD (setDetectedProtocol NDPI_PROTOCOL_HTTP PartializableFlowTrafficStats_new)))))
     ^^ 10) HTTPstats_new) ! num_head = 10"
proof -
  let ?s = "incHTTP HTTPReqHEAD (setDetectedProtocol NDPI_PROTOCOL_HTTP PartializableFlowTrafficStats_new)"
  have "fts_wf ?s" "lower_proto ?s = NDPI_PROTOCOL_HTTP" "protos ?s ! num_head = 1"
    by (simp_all add: fts_wf_def incHTTP_def inc_proto_def setDetectedProtocol_def
        PartializableFlowTrafficStats_new_def num_head_def)
  then show ?thesis using http_head_recounted [of ?s 10] by simp
qed

end
