(* ===== verification/Flow_Alerts.thy ===== *)
theory Flow_Alerts
  imports Bitmaps Host_Alerts Flow_Traffic_Stats
begin

text \<open>
  The alerts of a flow: src/src/FlowAlert.cpp, the methods of src/src/Flow.cpp that
  trigger, flush and account them, the queue to the notification thread
  (NetworkInterface::enqueueFlowAlert, dequeueFlowAlerts) and the part of the flow's
  destructor that deletes them. The alerts live in a heap as in \<open>Host_Alerts\<close>. The
  serialised JSON is left out; of it, the reads of all triggered alerts are modelled.
  Whether a host excludes an alert type, whether the ring accepts an alert and the
  preference against flow alerts are arguments. The counters of the local network of a
  host are not modelled.
\<close>

section \<open>Flow alerts\<close>

record flow_alert =
  fa_id :: u16
  fa_category :: alert_category
  fa_cli_score :: u8
  fa_srv_score :: u8
  fa_alert_score :: u8
  cli_attacker :: bool
  srv_attacker :: bool
  cli_victim :: bool
  srv_victim :: bool
  fa_auto_ack :: bool
  refresh_json_alert :: bool

definition FlowAlert_new :: "u16 \<Rightarrow> alert_category \<Rightarrow> bool \<Rightarrow> flow_alert" where
  "FlowAlert_new aid cat ack =
     \<lparr> fa_id = aid, fa_category = cat, fa_cli_score = 0, fa_srv_score = 0, fa_alert_score = 1,
       cli_attacker = False, srv_attacker = False, cli_victim = False, srv_victim = False,
       fa_auto_ack = ack, refresh_json_alert = False \<rparr>"

text \<open>The sum is an \<open>int\<close>.\<close>

definition setCliSrvScores :: "u8 \<Rightarrow> u8 \<Rightarrow> flow_alert \<Rightarrow> flow_alert" where
  "setCliSrvScores c s a =
     (let cli = min c 250; srv = min s 250;
          srv = (if unat cli + unat srv > 250 then 250 - cli else srv)
      in a\<lparr>fa_cli_score := cli, fa_srv_score := srv\<rparr>)"

definition setAlertScore :: "u8 \<Rightarrow> flow_alert \<Rightarrow> flow_alert" where
  "setAlertScore v a = a\<lparr>fa_alert_score := (if v > 250 then 250 else v)\<rparr>"

section \<open>The flow and its hosts\<close>

record flow_host =
  fh_score :: score_holder
  active_alerted_flows :: u32
  total_alerts :: u32
  host_alerted_as_client :: u32
  host_alerted_as_server :: u32
  fh_as :: "(u32 \<times> u32) option"

record alert_info =
  is_cli_attacker :: bool
  is_cli_victim :: bool
  is_srv_attacker :: bool
  is_srv_victim :: bool
  auto_acknowledge :: bool

record flow_state =
  fl_heap :: "nat \<Rightarrow> flow_alert option"
  alerts_map :: bitmap
  triggered_alerts :: "(u16 \<times> nat) list"
  predominant_alert :: u16
  predominant_alert_score :: u16
  flow_score :: u16
  pending_alerts :: bool
  refresh_triggered_alerts :: bool
  fl_alert_info :: alert_info
  fl_stats :: partial_stats
  fl_cli :: "flow_host option"
  fl_srv :: "flow_host option"
  num_active_alerted_flows :: "alert_level_group \<Rightarrow> u64"
  flow_alerts_queue :: "nat list"
  flow_uses :: nat

definition flow_alert_normal :: u16 where "flow_alert_normal = 0"

definition isFlowAlerted :: "flow_state \<Rightarrow> bool" where
  "isFlowAlerted f \<longleftrightarrow> predominant_alert f \<noteq> flow_alert_normal"

definition fderef :: "nat \<Rightarrow> flow_state \<Rightarrow> c_error + flow_alert" where
  "fderef p f = (case fl_heap f p of None \<Rightarrow> Inl Use_after_free | Some a \<Rightarrow> Inr a)"

definition fput :: "nat \<Rightarrow> flow_alert \<Rightarrow> flow_state \<Rightarrow> flow_state" where
  "fput p a f = f\<lparr>fl_heap := (fl_heap f)(p \<mapsto> a)\<rparr>"

definition fdelete :: "nat \<Rightarrow> flow_state \<Rightarrow> flow_state" where
  "fdelete p f = f\<lparr>fl_heap := (fl_heap f)(p := None)\<rparr>"

section \<open>Accounting\<close>

definition incNumAlertedFlows :: "alert_level \<Rightarrow> flow_state \<Rightarrow> flow_state" where
  "incNumAlertedFlows sev f =
     (let g = mapAlertLevelToGroup sev
      in if g \<in> {alert_level_group_notice_or_lower, alert_level_group_warning, alert_level_group_error}
         then f\<lparr>num_active_alerted_flows := (num_active_alerted_flows f)(g := num_active_alerted_flows f g + 1)\<rparr>
         else f)"

definition decNumAlertedFlows :: "alert_level \<Rightarrow> flow_state \<Rightarrow> flow_state" where
  "decNumAlertedFlows sev f =
     (let g = mapAlertLevelToGroup sev
      in if g \<in> {alert_level_group_notice_or_lower, alert_level_group_warning, alert_level_group_error}
         then f\<lparr>num_active_alerted_flows := (num_active_alerted_flows f)(g := num_active_alerted_flows f g - 1)\<rparr>
         else f)"

definition setPredominantAlert :: "u16 \<Rightarrow> u16 \<Rightarrow> flow_state \<Rightarrow> flow_state" where
  "setPredominantAlert aid v f =
     (let f = (if predominant_alert_score f \<noteq> 0
               then decNumAlertedFlows (mapScoreToSeverity (ucast (predominant_alert_score f))) f else f);
          f = incNumAlertedFlows (mapScoreToSeverity (ucast v)) f
      in f\<lparr>predominant_alert := aid, predominant_alert_score := v\<rparr>)"

definition setAlertInfo :: "flow_alert \<Rightarrow> flow_state \<Rightarrow> flow_state" where
  "setAlertInfo a f =
     (let i = fl_alert_info f
      in f\<lparr>fl_alert_info := i\<lparr>is_cli_attacker := is_cli_attacker i \<or> cli_attacker a,
             is_cli_victim := is_cli_victim i \<or> cli_victim a,
             is_srv_attacker := is_srv_attacker i \<or> srv_attacker a,
             is_srv_victim := is_srv_victim i \<or> srv_victim a,
             auto_acknowledge := auto_acknowledge i \<and> fa_auto_ack a\<rparr>\<rparr>)"

text \<open>
  The counter of the server's autonomous system is incremented as client, as in the code.
\<close>

definition host_alerted :: "bool \<Rightarrow> flow_host \<Rightarrow> flow_host" where
  "host_alerted as_client h =
     (let h = h\<lparr>fh_as := map_option (\<lambda>(c, s). (c + 1, s)) (fh_as h),
               active_alerted_flows := active_alerted_flows h + 1, total_alerts := total_alerts h + 1\<rparr>
      in if as_client then h\<lparr>host_alerted_as_client := host_alerted_as_client h + 1\<rparr>
         else h\<lparr>host_alerted_as_server := host_alerted_as_server h + 1\<rparr>)"

definition setNormalToAlertedCounters :: "flow_state \<Rightarrow> flow_state" where
  "setNormalToAlertedCounters f =
     f\<lparr>fl_cli := map_option (host_alerted True) (fl_cli f),
       fl_srv := map_option (host_alerted False) (fl_srv f),
       fl_stats := setFlowAlerted (fl_stats f)\<rparr>"

definition host_inc_score :: "u16 \<Rightarrow> score_category \<Rightarrow> bool \<Rightarrow> flow_host \<Rightarrow> flow_host" where
  "host_inc_score v cat as_client h = h\<lparr>fh_score := snd (Score_incScoreValue v cat as_client (fh_score h))\<rparr>"

definition host_dec_score :: "u32 \<Rightarrow> u16 \<Rightarrow> score_category \<Rightarrow> bool \<Rightarrow> flow_host \<Rightarrow> flow_host" where
  "host_dec_score now v cat as_client h =
     (if v = 0 then h else h\<lparr>fh_score := snd (Score_decScoreValue now v cat as_client (fh_score h))\<rparr>)"

definition map_insert :: "u16 \<Rightarrow> nat \<Rightarrow> (u16 \<times> nat) list \<Rightarrow> (u16 \<times> nat) list" where
  "map_insert k v l = (k, v) # filter (\<lambda>(x, _). x \<noteq> k) l"

definition setAlertsMap :: "(u16 \<Rightarrow> bool) \<Rightarrow> bool \<Rightarrow> nat \<Rightarrow> flow_state \<Rightarrow> c_error + (bool \<times> flow_state)" where
  "setAlertsMap disabled view p f =
     (case fderef p f of
        Inl e \<Rightarrow> Inl e
      | Inr a \<Rightarrow>
          let cat = mapAlertToScoreCategory (fa_category a);
              cli_inc = ucast (fa_cli_score a); srv_inc = ucast (fa_srv_score a);
              flow_inc = cli_inc + srv_inc
          in if fa_id a = flow_alert_normal \<or> Bitmap_isSetBit (alerts_map f) (fa_id a) \<or> disabled (fa_id a)
             then Inr (False, fdelete p f)
             else
               let f = (if \<not> isFlowAlerted f then setNormalToAlertedCounters f else f);
                   f = f\<lparr>alerts_map := Bitmap_setBit (alerts_map f) (fa_id a),
                         triggered_alerts := map_insert (fa_id a) p (triggered_alerts f)\<rparr>;
                   f = setAlertInfo a f;
                   f = f\<lparr>flow_score := flow_score f + flow_inc,
                         fl_stats := incScore srv_inc cat False (incScore cli_inc cat True (fl_stats f))\<rparr>;
                   f = (if view then f
                        else f\<lparr>fl_cli := map_option (host_inc_score cli_inc cat True) (fl_cli f),
                               fl_srv := map_option (host_inc_score srv_inc cat False) (fl_srv f)\<rparr>)
               in Inr (True, if \<not> isFlowAlerted f \<or> predominant_alert_score f < flow_inc
                             then setPredominantAlert (fa_id a) flow_inc f else f))"

section \<open>Delivery\<close>

definition enqueueFlowAlert :: "bool \<Rightarrow> nat \<Rightarrow> flow_state \<Rightarrow> c_error + flow_state" where
  "enqueueFlowAlert ring_ok p f =
     (case fderef p f of
        Inl e \<Rightarrow> Inl e
      | Inr a \<Rightarrow>
          if ring_ok then Inr (f\<lparr>flow_alerts_queue := flow_alerts_queue f @ [p], flow_uses := flow_uses f + 1\<rparr>)
          else Inr (fdelete p f))"

text \<open>updateAlertsJSON reads every triggered alert and resets its cached JSON on demand.\<close>

definition flushAlerts :: "bool \<Rightarrow> bool \<Rightarrow> flow_state \<Rightarrow> c_error + flow_state" where
  "flushAlerts dontEmit ring_ok f =
     (if \<not> pending_alerts f \<and> \<not> refresh_triggered_alerts f then Inr f
      else if list_ex (\<lambda>(_, p). fl_heap f p = None) (triggered_alerts f) then Inl Use_after_free
      else
        case (if pending_alerts f \<and> \<not> dontEmit then
                (case map_of (triggered_alerts f) (predominant_alert f) of
                   None \<Rightarrow> Inl Null_deref
                 | Some p \<Rightarrow> enqueueFlowAlert ring_ok p f)
              else Inr f) of
          Inl e \<Rightarrow> Inl e
        | Inr f \<Rightarrow> Inr (f\<lparr>pending_alerts := False, refresh_triggered_alerts := False\<rparr>))"

definition Flow_triggerAlert ::
  "(u16 \<Rightarrow> bool) \<Rightarrow> bool \<Rightarrow> bool \<Rightarrow> bool \<Rightarrow> bool \<Rightarrow> nat \<Rightarrow> flow_state \<Rightarrow> c_error + (bool \<times> flow_state)" where
  "Flow_triggerAlert disabled view dontEmit ring_ok sync p f =
     (case setAlertsMap disabled view p f of
        Inl e \<Rightarrow> Inl e
      | Inr (res, f) \<Rightarrow>
          if res then
            let f = f\<lparr>pending_alerts := True\<rparr>
            in if sync then (case flushAlerts dontEmit ring_ok f of Inl e \<Rightarrow> Inl e | Inr f \<Rightarrow> Inr (True, f))
               else Inr (True, f)
          else Inr (False, f))"

definition refreshAlert :: "u16 \<Rightarrow> flow_state \<Rightarrow> c_error + flow_state" where
  "refreshAlert aid f =
     (case map_of (triggered_alerts f) aid of
        None \<Rightarrow> Inr f
      | Some p \<Rightarrow>
          (case fderef p f of
             Inl e \<Rightarrow> Inl e
           | Inr a \<Rightarrow> Inr ((fput p (a\<lparr>refresh_json_alert := True\<rparr>) f)\<lparr>refresh_triggered_alerts := True\<rparr>)))"

definition dequeueFlowAlert :: "flow_state \<Rightarrow> c_error + flow_state" where
  "dequeueFlowAlert f =
     (case flow_alerts_queue f of
        [] \<Rightarrow> Inr f
      | p # q \<Rightarrow>
          (case fderef p f of
             Inl e \<Rightarrow> Inl e
           | Inr a \<Rightarrow> Inr (f\<lparr>flow_alerts_queue := q, flow_uses := flow_uses f - 1\<rparr>)))"

section \<open>The end of a flow\<close>

definition dec_scores_cat :: "u32 \<Rightarrow> score_category \<Rightarrow> flow_state \<Rightarrow> flow_state" where
  "dec_scores_cat now cat f =
     f\<lparr>fl_cli := map_option (host_dec_score now (cli_host_score (fl_stats f) ! score_cat cat) cat True) (fl_cli f),
       fl_srv := map_option (host_dec_score now (srv_host_score (fl_stats f) ! score_cat cat) cat False) (fl_srv f)\<rparr>"

definition decAllFlowScores :: "u32 \<Rightarrow> flow_state \<Rightarrow> flow_state" where
  "decAllFlowScores now f =
     (let f = dec_scores_cat now score_category_security (dec_scores_cat now score_category_network f)
      in if isFlowAlerted f then
           let f = decNumAlertedFlows (mapScoreToSeverity (ucast (predominant_alert_score f))) f;
               dec = (\<lambda>h. h\<lparr>active_alerted_flows := active_alerted_flows h - 1\<rparr>)
           in f\<lparr>fl_cli := map_option dec (fl_cli f), fl_srv := map_option dec (fl_srv f)\<rparr>
         else f)"

text \<open>The loop of the destructor over the triggered alerts; \<open>delete\<close> reads the object.\<close>

fun delete_alerts :: "(u16 \<times> nat) list \<Rightarrow> flow_state \<Rightarrow> c_error + flow_state" where
  "delete_alerts [] f = Inr f"
| "delete_alerts ((k, p) # l) f =
     (case fderef p f of Inl e \<Rightarrow> Inl e | Inr a \<Rightarrow> delete_alerts l (fdelete p f))"

definition Flow_delete :: "flow_state \<Rightarrow> c_error + flow_state" where
  "Flow_delete f = delete_alerts (triggered_alerts f) f"

definition Flow_new :: "flow_host option \<Rightarrow> flow_host option \<Rightarrow> (alert_level_group \<Rightarrow> u64) \<Rightarrow> flow_state" where
  "Flow_new cli srv counters =
     \<lparr> fl_heap = (\<lambda>_. None), alerts_map = Bitmap_new 2, triggered_alerts = [],
       predominant_alert = flow_alert_normal, predominant_alert_score = 0, flow_score = 0,
       pending_alerts = False, refresh_triggered_alerts = False,
       fl_alert_info = \<lparr> is_cli_attacker = False, is_cli_victim = False, is_srv_attacker = False,
         is_srv_victim = False, auto_acknowledge = True \<rparr>,
       fl_stats = PartializableFlowTrafficStats_new, fl_cli = cli, fl_srv = srv,
       num_active_alerted_flows = counters, flow_alerts_queue = [], flow_uses = 0 \<rparr>"

section \<open>The triggered alerts\<close>

definition alert_total :: "flow_alert \<Rightarrow> nat" where
  "alert_total a = unat (fa_cli_score a) + unat (fa_srv_score a)"

definition share :: "score_category \<Rightarrow> bool \<Rightarrow> flow_alert \<Rightarrow> nat" where
  "share cat as_client a = (if mapAlertToScoreCategory (fa_category a) = cat
     then unat (if as_client then fa_cli_score a else fa_srv_score a) else 0)"

text \<open>The sum of a weight over the triggered alerts.\<close>

definition fsum :: "(flow_alert \<Rightarrow> nat) \<Rightarrow> (u16 \<times> nat) list \<Rightarrow> (nat \<Rightarrow> flow_alert option) \<Rightarrow> nat" where
  "fsum w T H = (\<Sum>x\<leftarrow>T. case H (snd x) of None \<Rightarrow> 0 | Some a \<Rightarrow> w a)"

text \<open>
  \<open>tinv\<close>: the bitmap, the map and the heap agree; every triggered alert is live, filed
  under its own type and within the maximum score; nothing else is live.
\<close>

definition tinv :: "bitmap \<Rightarrow> (u16 \<times> nat) list \<Rightarrow> (nat \<Rightarrow> flow_alert option) \<Rightarrow> bool" where
  "tinv B T H \<longleftrightarrow> length B = 2 \<and> distinct (map fst T) \<and> Bitmap_bits B = unat ` fst ` set T
     \<and> flow_alert_normal \<notin> fst ` set T
     \<and> (\<forall>k p. (k, p) \<in> set T \<longrightarrow> (\<exists>a. H p = Some a \<and> fa_id a = k \<and> alert_total a \<le> 250))
     \<and> (\<forall>p. H p \<noteq> None \<longrightarrow> p \<in> snd ` set T)"

lemma setCliSrvScores_bound: "alert_total (setCliSrvScores c s a) \<le> 250"
proof -
  have "unat (min c 250 :: u8) \<le> 250" by (simp add: min_def word_le_nat_alt)
  moreover have "unat (250 - min c 250 :: u8) = 250 - unat (min c 250)"
    by (simp add: unat_sub min_def word_le_nat_alt)
  ultimately show ?thesis by (simp add: setCliSrvScores_def Let_def alert_total_def)
qed

lemma tinv_live: "tinv B T H \<Longrightarrow> (k, p) \<in> set T \<Longrightarrow> \<exists>a. H p = Some a \<and> fa_id a = k \<and> alert_total a \<le> 250"
  unfolding tinv_def by blast

lemma tinv_free: "tinv B T H \<Longrightarrow> H p = None \<Longrightarrow> p \<notin> snd ` set T"
  using tinv_live by fastforce

lemma tinv_map_of: "tinv B T H \<Longrightarrow> (k, p) \<in> set T \<Longrightarrow> map_of T k = Some p"
  unfolding tinv_def by simp

lemma tinv_length: "tinv B T H \<Longrightarrow> length T \<le> 128"
proof -
  assume T: "tinv B T H"
  then have "length T = card (fst ` set T)" by (metis distinct_card length_map list.set_map tinv_def)
  also have "\<dots> = card (unat ` fst ` set T)" by (intro card_image [symmetric] inj_onI) (simp add: unat_eq_iff_eq)
  also have "\<dots> = card (Bitmap_bits B)" using T by (simp add: tinv_def)
  also have "\<dots> \<le> card {..<128::nat}"
    using T by (intro card_mono) (auto simp: tinv_def Bitmap_bits_def)
  finally show ?thesis by simp
qed

lemma fsum_bound:
  assumes "tinv B T H" "\<And>a. w a \<le> alert_total a"
  shows "fsum w T H \<le> 32000"
proof -
  have "(case H (snd x) of None \<Rightarrow> 0 | Some a \<Rightarrow> w a) \<le> 250" if "x \<in> set T" for x
  proof -
    obtain a where "H (snd x) = Some a" "alert_total a \<le> 250" using tinv_live [OF assms(1), of "fst x" "snd x"] \<open>x \<in> set T\<close> by auto
    then show ?thesis using assms(2) [of a] by simp
  qed
  then have "fsum w T H \<le> (\<Sum>x\<leftarrow>T. 250)" unfolding fsum_def by (rule sum_list_mono)
  also have "\<dots> = 250 * length T" by (simp add: sum_list_triv)
  finally show ?thesis using tinv_length [OF assms(1)] by simp
qed

lemma share_le: "share cat r a \<le> alert_total a"
  by (simp add: share_def alert_total_def)

lemma fsum_other: "p \<notin> snd ` set T \<Longrightarrow> fsum w T (H(p := x)) = fsum w T H"
  unfolding fsum_def by (intro arg_cong [of _ _ sum_list] map_cong refl) force

lemma fsum_insert:
  assumes "p \<notin> snd ` set T" "k \<notin> fst ` set T"
  shows "fsum w (map_insert k p T) (H(p \<mapsto> a)) = w a + fsum w T H"
proof -
  have "filter (\<lambda>(x, _). x \<noteq> k) T = T" using assms(2) by (intro filter_True) force
  then show ?thesis using fsum_other [OF assms(1), of w H "Some a"] by (simp add: map_insert_def fsum_def)
qed

lemma tinv_insert:
  assumes "tinv B T H" "H p = None" "fa_id a \<noteq> flow_alert_normal" "unat (fa_id a) < 128"
    and "\<not> Bitmap_isSetBit B (fa_id a)" "alert_total a \<le> 250"
  shows "tinv (Bitmap_setBit B (fa_id a)) (map_insert (fa_id a) p T) (H(p \<mapsto> a))"
    "fa_id a \<notin> fst ` set T" "map_insert (fa_id a) p T = (fa_id a, p) # T"
proof -
  have B: "length B = 2" "Bitmap_bits B = unat ` fst ` set T" using assms(1) by (simp_all add: tinv_def)
  show k: "fa_id a \<notin> fst ` set T" using assms(5) B by (auto simp: Bitmap_isSetBit_iff)
  then show mi: "map_insert (fa_id a) p T = (fa_id a, p) # T"
    unfolding map_insert_def by (force intro!: filter_True)
  have p: "p \<notin> snd ` set T" by (rule tinv_free [OF assms(1,2)])
  have live: "\<exists>b. (H(p \<mapsto> a)) q = Some b \<and> fa_id b = c \<and> alert_total b \<le> 250" if "(c, q) \<in> set ((fa_id a, p) # T)" for c q
    using that tinv_live [OF assms(1), of c q] assms(6) p by force
  show "tinv (Bitmap_setBit B (fa_id a)) (map_insert (fa_id a) p T) (H(p \<mapsto> a))"
    using assms(1,3,4) k live B unfolding tinv_def mi
    by (auto simp: Bitmap_bits_setBit)
qed

section \<open>The accounts\<close>

text \<open>What the hosts and the interface had before the flow.\<close>

record flow_base =
  b_none :: "bool \<Rightarrow> bool"
  b_score :: "bool \<Rightarrow> score_category \<Rightarrow> nat"
  b_active :: "bool \<Rightarrow> u32"
  b_counters :: "alert_level_group \<Rightarrow> u64"

definition side :: "bool \<Rightarrow> flow_state \<Rightarrow> flow_host option" where
  "side r f = (if r then fl_cli f else fl_srv f)"

lemma side_other [simp]:
  "side r (f\<lparr>pending_alerts := x1\<rparr>) = side r f" "side r (f\<lparr>refresh_triggered_alerts := x2\<rparr>) = side r f"
  "side r (f\<lparr>num_active_alerted_flows := x3\<rparr>) = side r f" "side r (f\<lparr>predominant_alert := x4\<rparr>) = side r f"
  "side r (f\<lparr>predominant_alert_score := x5\<rparr>) = side r f" "side r (f\<lparr>flow_alerts_queue := x6\<rparr>) = side r f"
  "side r (f\<lparr>flow_uses := x7\<rparr>) = side r f" "side r (f\<lparr>fl_heap := x8\<rparr>) = side r f"
  by (simp_all add: side_def)

definition stats_score :: "score_category \<Rightarrow> bool \<Rightarrow> partial_stats \<Rightarrow> nat" where
  "stats_score cat r s = unat ((if r then cli_host_score s else srv_host_score s) ! score_cat cat)"

definition counted_group :: "u16 \<Rightarrow> alert_level_group" where
  "counted_group v = mapAlertLevelToGroup (mapScoreToSeverity (ucast v))"

definition bump :: "alert_level_group \<Rightarrow> (alert_level_group \<Rightarrow> u64) \<Rightarrow> (alert_level_group \<Rightarrow> u64)" where
  "bump g N = (if g \<in> {alert_level_group_notice_or_lower, alert_level_group_warning, alert_level_group_error}
     then N(g := N g + 1) else N)"

definition hostinv :: "flow_base \<Rightarrow> (u16 \<times> nat) list \<Rightarrow> (nat \<Rightarrow> flow_alert option) \<Rightarrow> bool \<Rightarrow> flow_host \<Rightarrow> bool" where
  "hostinv b T H r h \<longleftrightarrow> score_wf (fh_score h)
     \<and> active_alerted_flows h = b_active b r + (if T = [] then 0 else 1)
     \<and> (\<forall>cat. unat (score_value cat r (fh_score h)) = b_score b r cat + fsum (share cat r) T H)"

definition statsinv :: "(u16 \<times> nat) list \<Rightarrow> (nat \<Rightarrow> flow_alert option) \<Rightarrow> partial_stats \<Rightarrow> bool" where
  "statsinv T H s \<longleftrightarrow> fts_wf s \<and> (\<forall>cat r. stats_score cat r s = fsum (share cat r) T H)"

definition predinv :: "(u16 \<times> nat) list \<Rightarrow> (nat \<Rightarrow> flow_alert option) \<Rightarrow> u16 \<Rightarrow> u16 \<Rightarrow> bool" where
  "predinv T H k v \<longleftrightarrow>
     (if T = [] then k = flow_alert_normal \<and> v = 0
      else \<exists>p a. (k, p) \<in> set T \<and> H p = Some a \<and> unat v = alert_total a)
     \<and> (\<forall>c p a. (c, p) \<in> set T \<longrightarrow> H p = Some a \<longrightarrow> alert_total a \<le> unat v)"

definition finv :: "flow_base \<Rightarrow> flow_state \<Rightarrow> bool" where
  "finv b f \<longleftrightarrow> (let T = triggered_alerts f; H = fl_heap f in
     tinv (alerts_map f) T H \<and> predinv T H (predominant_alert f) (predominant_alert_score f)
     \<and> unat (flow_score f) = fsum alert_total T H \<and> statsinv T H (fl_stats f)
     \<and> (\<forall>r h. side r f = Some h \<longrightarrow> hostinv b T H r h)
     \<and> num_active_alerted_flows f = bump (counted_group (predominant_alert_score f)) (b_counters b)
     \<and> set (flow_alerts_queue f) \<subseteq> snd ` set T \<and> flow_uses f = length (flow_alerts_queue f)
     \<and> (\<forall>r. side r f = None \<longleftrightarrow> b_none b r) \<and> (pending_alerts f \<longrightarrow> T \<noteq> []))"

definition base_ok :: "flow_base \<Rightarrow> bool" where
  "base_ok b \<longleftrightarrow> (\<forall>r cat. b_score b r cat + 2 ^ 16 < 2 ^ 32)"

lemma counted_group_0 [simp]: "counted_group 0 = alert_level_group_none"
  by (simp add: counted_group_def mapScoreToSeverity_def)

lemma bump_none [simp]: "bump alert_level_group_none N = N"
  by (simp add: bump_def)

lemma inc_dec_alerted:
  "incNumAlertedFlows (mapScoreToSeverity (ucast (v::u16))) f =
     f\<lparr>num_active_alerted_flows := bump (counted_group v) (num_active_alerted_flows f)\<rparr>"
  "num_active_alerted_flows f = bump (counted_group v) N \<Longrightarrow>
   decNumAlertedFlows (mapScoreToSeverity (ucast v)) f = f\<lparr>num_active_alerted_flows := N\<rparr>"
  by (simp_all add: incNumAlertedFlows_def decNumAlertedFlows_def bump_def counted_group_def Let_def)

lemma isFlowAlerted_iff:
  assumes "predinv T H (predominant_alert f) v" "tinv B T H"
  shows "isFlowAlerted f \<longleftrightarrow> T \<noteq> []"
proof (cases "T = []")
  case False
  then obtain p where "(predominant_alert f, p) \<in> set T" using assms(1) by (auto simp: predinv_def)
  then have "predominant_alert f \<in> fst ` set T" by force
  moreover have "flow_alert_normal \<notin> fst ` set T" using assms(2) by (simp add: tinv_def)
  ultimately show ?thesis using False unfolding isFlowAlerted_def by metis
qed (use assms(1) in \<open>simp add: predinv_def isFlowAlerted_def\<close>)

lemma min_score: "alert_total a \<le> 250 \<Longrightarrow> min (ucast (fa_cli_score a)) SCORE_MAX_VALUE = (ucast (fa_cli_score a) :: u16)"
  "alert_total a \<le> 250 \<Longrightarrow> min (ucast (fa_srv_score a)) SCORE_MAX_VALUE = (ucast (fa_srv_score a) :: u16)"
  by (simp_all add: alert_total_def min_def SCORE_MAX_VALUE_def word_le_nat_alt unat_u8_to)

text \<open>The flow's own score counters and those of a host, when an alert is added.\<close>

lemma statsinv_add:
  assumes "statsinv T H s" "tinv B T H" "alert_total a \<le> 250" "p \<notin> snd ` set T" "fa_id a \<notin> fst ` set T"
    and "cat = mapAlertToScoreCategory (fa_category a)"
  shows "statsinv (map_insert (fa_id a) p T) (H(p \<mapsto> a))
    (incScore (ucast (fa_srv_score a)) cat False (incScore (ucast (fa_cli_score a)) cat True s))"
proof -
  note ins = fsum_insert [OF assms(4,5)]
  have bound: "share c r a + fsum (share c r) T H < 2 ^ 16" for c r
    using fsum_bound [OF assms(2), of "share c r", OF share_le] assms(3) share_le [of c r a] by simp
  have st: "stats_score c r s = fsum (share c r) T H" for c r using assms(1) by (simp add: statsinv_def)
  have len: "length (cli_host_score s) = MAX_NUM_SCORE_CATEGORIES" "length (srv_host_score s) = MAX_NUM_SCORE_CATEGORIES"
    using assms(1) by (simp_all add: statsinv_def fts_wf_def)
  have "stats_score c r (incScore (ucast (fa_srv_score a)) cat False (incScore (ucast (fa_cli_score a)) cat True s))
      = share c r a + fsum (share c r) T H" for c r
    using bound [of c r] st [of c r] len assms(6)
    by (cases r)
      (auto simp: stats_score_def incScore_def score_add_def min_score [OF assms(3)] nth_list_update share_def
        unat_word_ariths unat_u8_to)
  moreover have "fts_wf (incScore (ucast (fa_srv_score a)) cat False (incScore (ucast (fa_cli_score a)) cat True s))"
    using assms(1) by (simp add: statsinv_def fts_wf_def incScore_def score_add_def)
  ultimately show ?thesis by (simp add: statsinv_def ins)
qed

lemma hostinv_add:
  assumes "hostinv b T H r h" "tinv B T H" "base_ok b" "alert_total a \<le> 250" "p \<notin> snd ` set T" "fa_id a \<notin> fst ` set T"
    and "cat = mapAlertToScoreCategory (fa_category a)"
    and "h1 = (if T = [] then host_alerted r h else h)"
  shows "hostinv b (map_insert (fa_id a) p T) (H(p \<mapsto> a)) r
    (host_inc_score (ucast (if r then fa_cli_score a else fa_srv_score a)) cat r h1)"
proof -
  note ins = fsum_insert [OF assms(5,6)]
  let ?v = "ucast (if r then fa_cli_score a else fa_srv_score a) :: u16"
  have sc: "fh_score h1 = fh_score h" by (simp add: assms(8) host_alerted_def Let_def)
  have wf: "score_wf (fh_score h)" using assms(1) by (simp add: hostinv_def)
  have "unat (score_value cat r (fh_score h)) + unat ?v < 2 ^ 32"
  proof -
    have "b_score b r cat + 2 ^ 16 < 2 ^ 32" using assms(3) by (simp add: base_ok_def)
    moreover have "fsum (share cat r) T H \<le> 32000" by (rule fsum_bound [OF assms(2)]) (rule share_le)
    moreover have "unat ?v \<le> 255" by (simp add: unat_u8_to)
    ultimately show ?thesis using assms(1) by (simp add: hostinv_def)
  qed
  note v = score_value_inc [OF wf this]
  have "active_alerted_flows h1 = b_active b r + 1"
    using assms(1,8) by (simp add: hostinv_def host_alerted_def Let_def)
  moreover have "unat (score_value c r (snd (Score_incScoreValue ?v cat r (fh_score h)))) =
      b_score b r c + fsum (share c r) (map_insert (fa_id a) p T) (H(p \<mapsto> a))" for c
    using v [where cat' = c and r' = r] assms(1,7) by (simp add: hostinv_def ins share_def unat_u8_to)
  moreover have "map_insert (fa_id a) p T \<noteq> []" by (simp add: map_insert_def)
  ultimately show ?thesis using wf by (simp add: hostinv_def host_inc_score_def sc)
qed

lemma finvD:
  assumes "finv b f"
  shows "tinv (alerts_map f) (triggered_alerts f) (fl_heap f)"
    "predinv (triggered_alerts f) (fl_heap f) (predominant_alert f) (predominant_alert_score f)"
    "unat (flow_score f) = fsum alert_total (triggered_alerts f) (fl_heap f)"
    "statsinv (triggered_alerts f) (fl_heap f) (fl_stats f)"
    "\<And>r h. side r f = Some h \<Longrightarrow> hostinv b (triggered_alerts f) (fl_heap f) r h"
    "num_active_alerted_flows f = bump (counted_group (predominant_alert_score f)) (b_counters b)"
    "set (flow_alerts_queue f) \<subseteq> snd ` set (triggered_alerts f)" "flow_uses f = length (flow_alerts_queue f)"
    "pending_alerts f \<Longrightarrow> triggered_alerts f \<noteq> []"
    "side r f = None \<longleftrightarrow> b_none b r"
  using assms unfolding finv_def Let_def by blast+

lemma fput_fdelete: "fl_heap f p = None \<Longrightarrow> fdelete p (fput p a f) = f"
  by (simp add: fdelete_def fput_def fun_upd_idem)

text \<open>setAlertsMap on an alert that is accepted, before the predominant alert is chosen.\<close>

definition accept_alert :: "nat \<Rightarrow> flow_alert \<Rightarrow> flow_state \<Rightarrow> flow_state" where
  "accept_alert p a f =
     (let cat = mapAlertToScoreCategory (fa_category a);
          cli_inc = ucast (fa_cli_score a); srv_inc = ucast (fa_srv_score a);
          f = (if \<not> isFlowAlerted f then setNormalToAlertedCounters f else f);
          f = f\<lparr>alerts_map := Bitmap_setBit (alerts_map f) (fa_id a),
                triggered_alerts := map_insert (fa_id a) p (triggered_alerts f)\<rparr>;
          f = setAlertInfo a f;
          f = f\<lparr>flow_score := flow_score f + (cli_inc + srv_inc),
                fl_stats := incScore srv_inc cat False (incScore cli_inc cat True (fl_stats f))\<rparr>
      in f\<lparr>fl_cli := map_option (host_inc_score cli_inc cat True) (fl_cli f),
           fl_srv := map_option (host_inc_score srv_inc cat False) (fl_srv f)\<rparr>)"

lemma setAlertsMap_accept:
  assumes "fl_heap f p = Some a"
    and "\<not> (fa_id a = flow_alert_normal \<or> Bitmap_isSetBit (alerts_map f) (fa_id a) \<or> disabled (fa_id a))"
    and "v = ucast (fa_cli_score a) + ucast (fa_srv_score a)"
  shows "setAlertsMap disabled False p f =
    Inr (True, if \<not> isFlowAlerted (accept_alert p a f) \<or> predominant_alert_score (accept_alert p a f) < v
               then setPredominantAlert (fa_id a) v (accept_alert p a f) else accept_alert p a f)"
  using assms by (simp add: setAlertsMap_def fderef_def accept_alert_def Let_def)

lemma accept_proj:
  assumes "f' = accept_alert p a f" "cat = mapAlertToScoreCategory (fa_category a)"
  shows "fl_heap f' = fl_heap f" "alerts_map f' = Bitmap_setBit (alerts_map f) (fa_id a)"
    "triggered_alerts f' = map_insert (fa_id a) p (triggered_alerts f)"
    "predominant_alert f' = predominant_alert f" "predominant_alert_score f' = predominant_alert_score f"
    "flow_score f' = flow_score f + (ucast (fa_cli_score a) + ucast (fa_srv_score a))"
    "pending_alerts f' = pending_alerts f" "flow_alerts_queue f' = flow_alerts_queue f" "flow_uses f' = flow_uses f"
    "num_active_alerted_flows f' = num_active_alerted_flows f"
    "isFlowAlerted f' = isFlowAlerted f"
    "fl_stats f' = incScore (ucast (fa_srv_score a)) cat False (incScore (ucast (fa_cli_score a)) cat True
       (if isFlowAlerted f then fl_stats f else setFlowAlerted (fl_stats f)))"
    "side r f' = map_option (\<lambda>h. host_inc_score (ucast (if r then fa_cli_score a else fa_srv_score a)) cat r
       (if isFlowAlerted f then h else host_alerted r h)) (side r f)"
  using assms
  by (simp_all add: accept_alert_def Let_def setNormalToAlertedCounters_def setAlertInfo_def isFlowAlerted_def
      side_def option.map_comp comp_def)

lemma setFlowAlerted_inv: "statsinv T H s \<Longrightarrow> statsinv T H (setFlowAlerted s)"
proof -
  have "stats_score cat r (setFlowAlerted s) = stats_score cat r s" for cat r
    by (simp add: stats_score_def setFlowAlerted_def)
  then show "statsinv T H s \<Longrightarrow> statsinv T H (setFlowAlerted s)"
    by (simp add: statsinv_def) (simp add: setFlowAlerted_def fts_wf_def)
qed

lemma predinv_keep:
  assumes "predinv T H k v" "T \<noteq> []" "p \<notin> snd ` set T" "alert_total a \<le> unat v"
  shows "predinv ((c, p) # T) (H(p \<mapsto> a)) k v"
proof -
  obtain q x where q: "(k, q) \<in> set T" "H q = Some x" "unat v = alert_total x"
    using assms(1,2) by (auto simp: predinv_def)
  have "q \<noteq> p" using q(1) assms(3) by force
  then have ex: "\<exists>q x. (k, q) \<in> set ((c, p) # T) \<and> (H(p \<mapsto> a)) q = Some x \<and> unat v = alert_total x"
    using q by (intro exI [of _ q] exI [of _ x]) simp
  have "alert_total y \<le> unat v" if "(d, r) \<in> set ((c, p) # T)" "(H(p \<mapsto> a)) r = Some y" for d r y
    using that assms(1,4) by (cases "r = p") (auto simp: predinv_def)
  with ex show ?thesis by (auto simp: predinv_def)
qed

lemma predinv_new:
  assumes "predinv T H k v" "unat w = alert_total a" "T = [] \<or> unat v < alert_total a" "p \<notin> snd ` set T"
  shows "predinv ((c, p) # T) (H(p \<mapsto> a)) c w"
proof -
  have "alert_total y \<le> unat w" if "(d, r) \<in> set ((c, p) # T)" "(H(p \<mapsto> a)) r = Some y" for d r y
  proof (cases "r = p")
    case True
    then show ?thesis using that(2) assms(2) by simp
  next
    case False
    then have "(d, r) \<in> set T" "H r = Some y" using that by auto
    then have "alert_total y \<le> unat v" "T \<noteq> []" using assms(1) by (auto simp: predinv_def)
    then show ?thesis using assms(2,3) by simp
  qed
  then show ?thesis using assms(2) by (auto simp: predinv_def)
qed

lemma setAlertsMap_inv:
  assumes "finv b f" "base_ok b" "fl_heap f p = None" "unat (fa_id a) < 128" "alert_total a \<le> 250"
  shows "\<exists>res f'. setAlertsMap disabled False p (fput p a f) = Inr (res, f') \<and> finv b f'
    \<and> (res \<longrightarrow> triggered_alerts f' \<noteq> [])"
proof (cases "fa_id a = flow_alert_normal \<or> Bitmap_isSetBit (alerts_map f) (fa_id a) \<or> disabled (fa_id a)")
  case True
  moreover have "fderef p (fput p a f) = Inr a" "alerts_map (fput p a f) = alerts_map f"
    by (simp_all add: fderef_def fput_def)
  ultimately have "setAlertsMap disabled False p (fput p a f) = Inr (False, f)"
    using fput_fdelete [OF assms(3)] by (auto simp: setAlertsMap_def Let_def)
  then show ?thesis using assms(1) by auto
next
  case False
  note I = finvD [OF assms(1)]
  let ?T = "triggered_alerts f" and ?H = "fl_heap f" and ?cat = "mapAlertToScoreCategory (fa_category a)"
  let ?f = "fput p a f"
  define v :: u16 where "v = ucast (fa_cli_score a) + ucast (fa_srv_score a)"
  define f1 where "f1 = accept_alert p a ?f"
  have v: "unat v = alert_total a" using assms(5) by (simp add: v_def alert_total_def unat_word_ariths unat_u8_to)
  note P = accept_proj [OF f1_def refl]
  have fp: "fl_heap ?f = ?H(p \<mapsto> a)" "alerts_map ?f = alerts_map f" "triggered_alerts ?f = ?T"
    "isFlowAlerted ?f = isFlowAlerted f" "fl_stats ?f = fl_stats f" "side r ?f = side r f"
    "predominant_alert ?f = predominant_alert f" "predominant_alert_score ?f = predominant_alert_score f"
    "flow_score ?f = flow_score f" "pending_alerts ?f = pending_alerts f"
    "flow_alerts_queue ?f = flow_alerts_queue f" "flow_uses ?f = flow_uses f"
    "num_active_alerted_flows ?f = num_active_alerted_flows f" for r
    by (simp_all add: fput_def isFlowAlerted_def side_def)
  have t: "tinv (alerts_map f1) (triggered_alerts f1) (fl_heap f1)" "fa_id a \<notin> fst ` set ?T"
    "map_insert (fa_id a) p ?T = (fa_id a, p) # ?T"
    using tinv_insert [OF I(1) assms(3) _ assms(4) _ assms(5)] False by (simp_all add: P fp)
  have pn: "p \<notin> snd ` set ?T" by (rule tinv_free [OF I(1) assms(3)])
  have al: "isFlowAlerted f \<longleftrightarrow> ?T \<noteq> []" by (rule isFlowAlerted_iff [OF I(2,1)])
  note ins = fsum_insert [OF pn t(2)]
  have fs: "unat (flow_score f1) = fsum alert_total (triggered_alerts f1) (fl_heap f1)"
  proof -
    have "fsum alert_total ?T ?H \<le> 32000" by (rule fsum_bound [OF I(1)]) simp
    then show ?thesis using I(3) v assms(5) unfolding v_def by (simp add: P fp ins unat_word_ariths)
  qed
  have st: "statsinv (triggered_alerts f1) (fl_heap f1) (fl_stats f1)"
    using statsinv_add [OF _ I(1) assms(5) pn t(2) refl] I(4) setFlowAlerted_inv [OF I(4)] by (simp add: P fp)
  have ho: "hostinv b (triggered_alerts f1) (fl_heap f1) r h" if "side r f1 = Some h" for r h
    using that hostinv_add [OF I(5) I(1) assms(2,5) pn t(2) refl refl] al by (auto simp: P fp)
  have qs: "set (flow_alerts_queue f1) \<subseteq> snd ` set (triggered_alerts f1)" "flow_uses f1 = length (flow_alerts_queue f1)"
    using I(7,8) by (auto simp: P fp t(3))
  have ne: "triggered_alerts f1 \<noteq> []" by (simp add: P fp t(3))
  have nn: "\<forall>r. side r f1 = None \<longleftrightarrow> b_none b r" using I(10) by (simp add: P fp)
  show ?thesis
  proof (cases "\<not> isFlowAlerted f1 \<or> predominant_alert_score f1 < v")
    case True
    define f2 where "f2 = setPredominantAlert (fa_id a) v f1"
    have n1: "num_active_alerted_flows f1 = bump (counted_group (predominant_alert_score f1)) (b_counters b)"
      using I(6) by (simp add: P fp)
    have f2: "f2 = f1\<lparr>num_active_alerted_flows := bump (counted_group v) (b_counters b),
        predominant_alert := fa_id a, predominant_alert_score := v\<rparr>"
      using n1 by (cases "predominant_alert_score f1 = 0")
        (simp_all add: f2_def setPredominantAlert_def Let_def inc_dec_alerted inc_dec_alerted(2) [OF n1])
    have "?T = [] \<or> unat (predominant_alert_score f) < alert_total a"
      using True al v by (auto simp: P fp word_less_nat_alt)
    from predinv_new [OF I(2) v this pn] have "predinv (triggered_alerts f1) (fl_heap f1) (fa_id a) v"
      by (simp add: P fp t(3))
    then have "finv b f2"
      using t(1) fs st ho qs ne nn by (simp add: f2 finv_def Let_def)
    moreover have "setAlertsMap disabled False p ?f = Inr (True, f2)"
      using setAlertsMap_accept [of ?f p a disabled v] False True
      by (simp add: fp f1_def [symmetric] f2_def v_def)
    moreover have "triggered_alerts f2 \<noteq> []" using ne by (simp add: f2)
    ultimately show ?thesis by blast
  next
    case no: False
    then have "alert_total a \<le> unat (predominant_alert_score f)" "?T \<noteq> []"
      using al v by (simp_all add: P fp word_less_nat_alt)
    from predinv_keep [OF I(2) this(2) pn this(1)]
    have "predinv (triggered_alerts f1) (fl_heap f1) (predominant_alert f1) (predominant_alert_score f1)"
      by (simp add: P fp t(3))
    then have "finv b f1"
      using t(1) fs st ho qs ne nn I(6) by (simp add: finv_def Let_def P(4,5,10) fp)
    moreover have "setAlertsMap disabled False p ?f = Inr (True, f1)"
      using setAlertsMap_accept [of ?f p a disabled v] False no
      by (simp add: fp f1_def [symmetric] v_def)
    ultimately show ?thesis using ne by blast
  qed
qed

lemma finv_flags [simp]:
  "finv b (f\<lparr>refresh_triggered_alerts := x\<rparr>) = finv b f"
  "finv b (f\<lparr>pending_alerts := True\<rparr>) \<longleftrightarrow> finv b (f\<lparr>pending_alerts := False\<rparr>) \<and> triggered_alerts f \<noteq> []"
  by (simp_all add: finv_def Let_def)

lemma finv_not_pending: "finv b f \<Longrightarrow> finv b (f\<lparr>pending_alerts := False\<rparr>)"
  by (simp add: finv_def Let_def)

lemma finv_predominant:
  assumes "finv b f" "triggered_alerts f \<noteq> []"
  shows "\<exists>p. map_of (triggered_alerts f) (predominant_alert f) = Some p \<and> p \<in> snd ` set (triggered_alerts f)
    \<and> fl_heap f p \<noteq> None"
proof -
  note I = finvD [OF assms(1)]
  obtain p a where p: "(predominant_alert f, p) \<in> set (triggered_alerts f)" "fl_heap f p = Some a"
    using I(2) assms(2) by (auto simp: predinv_def)
  moreover have "map_of (triggered_alerts f) (predominant_alert f) = Some p" by (rule tinv_map_of [OF I(1) p(1)])
  ultimately show ?thesis by force
qed

lemma flushAlerts_inv:
  assumes "finv b f" "ring_ok \<or> dontEmit"
  shows "\<exists>f'. flushAlerts dontEmit ring_ok f = Inr f' \<and> finv b f' \<and> triggered_alerts f' = triggered_alerts f"
proof -
  note I = finvD [OF assms(1)]
  have live: "\<not> list_ex (\<lambda>(_, p). fl_heap f p = None) (triggered_alerts f)"
    using tinv_live [OF I(1)] by (fastforce simp: list_ex_iff)
  show ?thesis
  proof (cases "pending_alerts f \<and> \<not> dontEmit")
    case True
    then obtain p where p: "map_of (triggered_alerts f) (predominant_alert f) = Some p"
      "p \<in> snd ` set (triggered_alerts f)" "fl_heap f p \<noteq> None"
      using finv_predominant [OF assms(1)] I(9) by blast
    let ?f = "f\<lparr>flow_alerts_queue := flow_alerts_queue f @ [p], flow_uses := flow_uses f + 1, pending_alerts := False\<rparr>"
    have "finv b ?f"
      using assms(1) p(2) by (simp add: finv_def Let_def)
    moreover have "flushAlerts dontEmit ring_ok f = Inr (?f\<lparr>refresh_triggered_alerts := False\<rparr>)"
      using True live p assms(2) by (auto simp: flushAlerts_def enqueueFlowAlert_def fderef_def)
    ultimately show ?thesis by simp
  next
    case False
    then show ?thesis
      using live assms(1) finv_not_pending [OF assms(1)] by (auto simp: flushAlerts_def)
  qed
qed

definition ftrig_state :: "c_error + (bool \<times> flow_state) \<Rightarrow> c_error + flow_state" where
  "ftrig_state r = (case r of Inl e \<Rightarrow> Inl e | Inr (_, f) \<Rightarrow> Inr f)"

lemma Flow_triggerAlert_inv:
  assumes "finv b f" "base_ok b" "fl_heap f p = None" "unat (fa_id a) < 128" "alert_total a \<le> 250"
    and "\<not> sync \<or> ring_ok \<or> dontEmit"
  shows "\<exists>f'. ftrig_state (Flow_triggerAlert dis False dontEmit ring_ok sync p (fput p a f)) = Inr f' \<and> finv b f'"
proof -
  obtain res f1 where f1: "setAlertsMap dis False p (fput p a f) = Inr (res, f1)" "finv b f1"
    "res \<longrightarrow> triggered_alerts f1 \<noteq> []"
    using setAlertsMap_inv [OF assms(1-5)] by blast
  show ?thesis
  proof (cases res)
    case True
    let ?f = "f1\<lparr>pending_alerts := True\<rparr>"
    have fp: "finv b ?f" using True f1 finv_not_pending by simp
    show ?thesis
    proof (cases sync)
      case True
      then have "ring_ok \<or> dontEmit" using assms(6) by simp
      then obtain f2 where "flushAlerts dontEmit ring_ok ?f = Inr f2" "finv b f2"
        using flushAlerts_inv [OF fp] by blast
      then show ?thesis using True \<open>res\<close> f1(1) by (simp add: Flow_triggerAlert_def ftrig_state_def Let_def)
    next
      case False
      then have "ftrig_state (Flow_triggerAlert dis False dontEmit ring_ok sync p (fput p a f)) = Inr ?f"
        using \<open>res\<close> f1(1) by (simp add: Flow_triggerAlert_def ftrig_state_def Let_def)
      then show ?thesis using fp by blast
    qed
  qed (use f1 in \<open>simp add: Flow_triggerAlert_def ftrig_state_def\<close>)
qed

lemma fsum_same:
  assumes "H p = Some a" "w c = w a"
  shows "fsum w T (H(p \<mapsto> c)) = fsum w T H"
  unfolding fsum_def by (intro arg_cong [of _ _ sum_list] map_cong refl) (use assms in auto)

lemma predinv_same:
  assumes "predinv T H k v" "H p = Some a" "alert_total c = alert_total a"
  shows "predinv T (H(p \<mapsto> c)) k v"
proof -
  have "alert_total x \<le> unat v" if "(d, q) \<in> set T" "(H(p \<mapsto> c)) q = Some x" for d q x
    using that assms by (cases "q = p") (auto simp: predinv_def)
  moreover have "\<exists>q x. (k, q) \<in> set T \<and> (H(p \<mapsto> c)) q = Some x \<and> unat v = alert_total x" if "T \<noteq> []"
  proof -
    obtain q y where "(k, q) \<in> set T" "H q = Some y" "unat v = alert_total y"
      using assms(1) \<open>T \<noteq> []\<close> by (auto simp: predinv_def)
    then show ?thesis
      using assms(2,3) by (intro exI [of _ q] exI [of _ "if q = p then c else y"]) auto
  qed
  moreover have "T = [] \<Longrightarrow> k = flow_alert_normal \<and> v = 0" using assms(1) by (simp add: predinv_def)
  ultimately show ?thesis unfolding predinv_def by (cases "T = []") auto
qed

lemma refreshAlert_inv:
  assumes "finv b f"
  shows "\<exists>f'. refreshAlert aid f = Inr f' \<and> finv b f'"
proof (cases "map_of (triggered_alerts f) aid")
  case None
  then show ?thesis using assms by (simp add: refreshAlert_def)
next
  case (Some p)
  note I = finvD [OF assms]
  have in_T: "(aid, p) \<in> set (triggered_alerts f)" using Some by (rule map_of_SomeD)
  obtain a where a: "fl_heap f p = Some a" "fa_id a = aid" "alert_total a \<le> 250" using tinv_live [OF I(1) in_T] by blast
  let ?c = "a\<lparr>refresh_json_alert := True\<rparr>" and ?T = "triggered_alerts f" and ?H = "fl_heap f"
  have tot: "alert_total ?c = alert_total a" "share cat r ?c = share cat r a" for cat r
    by (simp_all add: alert_total_def share_def)
  have fs: "fsum w ?T (?H(p \<mapsto> ?c)) = fsum w ?T ?H" if "w ?c = w a" for w by (rule fsum_same [where w = w and H = ?H and p = p and a = a and c = ?c, OF a(1) that])
  have look: "\<exists>x. (?H(p \<mapsto> ?c)) q = Some x \<and> fa_id x = fa_id y \<and> alert_total x = alert_total y" if "?H q = Some y" for q y
    using that a tot by (cases "q = p") auto
  have "tinv (alerts_map f) ?T (?H(p \<mapsto> ?c))"
  proof -
    have "\<exists>x. (?H(p \<mapsto> ?c)) q = Some x \<and> fa_id x = k \<and> alert_total x \<le> 250" if "(k, q) \<in> set ?T" for k q
      using tinv_live [OF I(1) that] look by fastforce
    moreover have "q \<in> snd ` set ?T" if "(?H(p \<mapsto> ?c)) q \<noteq> None" for q
      using that I(1) in_T by (cases "q = p") (force simp: tinv_def)+
    ultimately show ?thesis using I(1) unfolding tinv_def by blast
  qed
  moreover have "predinv ?T (?H(p \<mapsto> ?c)) (predominant_alert f) (predominant_alert_score f)"
    by (rule predinv_same [OF I(2) a(1) tot(1)])
  moreover have "statsinv ?T (?H(p \<mapsto> ?c)) (fl_stats f)" using I(4) by (simp add: statsinv_def fs tot)
  moreover have "hostinv b ?T (?H(p \<mapsto> ?c)) r h" if "side r f = Some h" for r h
    using I(5) [OF that] by (simp add: hostinv_def fs tot)
  ultimately have "finv b (fput p ?c f)"
    using I(3,6-10) by (simp add: finv_def Let_def fput_def fs tot)
  then show ?thesis using Some a by (simp add: refreshAlert_def fderef_def)
qed

lemma dequeueFlowAlert_inv:
  assumes "finv b f"
  shows "\<exists>f'. dequeueFlowAlert f = Inr f' \<and> finv b f'"
proof (cases "flow_alerts_queue f")
  case Nil
  then show ?thesis using assms by (simp add: dequeueFlowAlert_def)
next
  case (Cons p q)
  note I = finvD [OF assms]
  have "p \<in> snd ` set (triggered_alerts f)" using I(7) Cons by auto
  then obtain k where "(k, p) \<in> set (triggered_alerts f)" by force
  then obtain a where "fl_heap f p = Some a" using tinv_live [OF I(1)] by blast
  moreover have "finv b (f\<lparr>flow_alerts_queue := q, flow_uses := flow_uses f - 1\<rparr>)"
    using assms Cons by (simp add: finv_def Let_def)
  ultimately show ?thesis using Cons by (simp add: dequeueFlowAlert_def fderef_def)
qed

section \<open>Histories of a flow\<close>

text \<open>
  What happens to a flow between its creation and its end: a check triggers a newly
  allocated alert, a check refreshes an alert, the flow is flushed, the notification
  thread takes one alert off the ring. Alert types fit the bitmap; the scores of an alert
  come out of setCliSrvScores. An alert is only flushed while the ring has room, or with
  flow alerts switched off; what happens otherwise is \<open>flushAlerts_refused\<close> below.
\<close>

inductive flow_step :: "flow_state \<Rightarrow> c_error + flow_state \<Rightarrow> bool" where
  fstep_trigger: "fl_heap f p = None \<Longrightarrow> unat (fa_id a) < 128 \<Longrightarrow> alert_total a \<le> 250 \<Longrightarrow>
    \<not> sync \<or> ring_ok \<or> dontEmit \<Longrightarrow>
    flow_step f (ftrig_state (Flow_triggerAlert dis False dontEmit ring_ok sync p (fput p a f)))"
| fstep_flush: "ring_ok \<or> dontEmit \<Longrightarrow> flow_step f (flushAlerts dontEmit ring_ok f)"
| fstep_refresh: "flow_step f (refreshAlert aid f)"
| fstep_dequeue: "flow_step f (dequeueFlowAlert f)"

inductive flow_reach :: "flow_state \<Rightarrow> c_error + flow_state \<Rightarrow> bool" for f0 where
  freach_new: "flow_reach f0 (Inr f0)"
| freach_step: "flow_reach f0 (Inr f) \<Longrightarrow> flow_step f r \<Longrightarrow> flow_reach f0 r"

definition base_of :: "flow_host option \<Rightarrow> flow_host option \<Rightarrow> (alert_level_group \<Rightarrow> u64) \<Rightarrow> flow_base" where
  "base_of cli srv N =
     \<lparr> b_none = (\<lambda>r. (if r then cli else srv) = None),
       b_score = (\<lambda>r cat. case (if r then cli else srv) of None \<Rightarrow> 0
                          | Some h \<Rightarrow> unat (score_value cat r (fh_score h))),
       b_active = (\<lambda>r. case (if r then cli else srv) of None \<Rightarrow> 0 | Some h \<Rightarrow> active_alerted_flows h),
       b_counters = N \<rparr>"

text \<open>The scores of the two hosts are far enough from wrapping around.\<close>

definition hosts_ok :: "flow_host option \<Rightarrow> flow_host option \<Rightarrow> bool" where
  "hosts_ok cli srv \<longleftrightarrow> (\<forall>r h cat. (if r then cli else srv) = Some h \<longrightarrow>
     score_wf (fh_score h) \<and> unat (score_value cat r (fh_score h)) + 2 ^ 16 < 2 ^ 32)"

lemma base_of_ok: "hosts_ok cli srv \<Longrightarrow> base_ok (base_of cli srv N)"
  unfolding base_ok_def base_of_def hosts_ok_def by (simp split: option.split)

lemma finv_new:
  assumes "hosts_ok cli srv"
  shows "finv (base_of cli srv N) (Flow_new cli srv N)"
proof -
  have "tinv (Bitmap_new 2) [] (\<lambda>_. None)"
    by (simp add: tinv_def Bitmap_bits_def Bitmap_new_def Bitmap_isSetBit_def)
  moreover have "statsinv [] (\<lambda>_. None) PartializableFlowTrafficStats_new"
    by (auto simp: statsinv_def fsum_def stats_score_def fts_wf_def PartializableFlowTrafficStats_new_def)
  moreover have "hostinv (base_of cli srv N) [] (\<lambda>_. None) r h" if "(if r then cli else srv) = Some h" for r h
    using assms that by (simp add: hostinv_def base_of_def hosts_ok_def fsum_def)
  ultimately show ?thesis
    by (simp add: finv_def Flow_new_def predinv_def fsum_def side_def base_of_def)
qed

lemma flow_step_inv:
  assumes "flow_step f r" "finv b f" "base_ok b"
  shows "\<exists>f'. r = Inr f' \<and> finv b f'"
  using assms(1)
proof cases
  case (fstep_trigger p a sync ring_ok dontEmit dis)
  then show ?thesis using Flow_triggerAlert_inv [OF assms(2,3) fstep_trigger(2-5)] by simp
next
  case (fstep_flush ring_ok dontEmit)
  then show ?thesis using flushAlerts_inv [OF assms(2)] by blast
qed (use refreshAlert_inv [OF assms(2)] dequeueFlowAlert_inv [OF assms(2)] in simp_all)

lemma flow_reach_inv:
  assumes "flow_reach (Flow_new cli srv N) r" "hosts_ok cli srv"
  shows "\<exists>f. r = Inr f \<and> finv (base_of cli srv N) f"
  using assms(1)
proof (induction rule: flow_reach.induct)
  case freach_new
  then show ?case using finv_new [OF assms(2)] by blast
next
  case (freach_step f r)
  then show ?case using flow_step_inv base_of_ok [OF assms(2)] by blast
qed

section \<open>The end of a flow\<close>

lemma tinv_distinct:
  assumes "tinv B T H"
  shows "distinct (map snd T)"
proof -
  have "fst x = fst y" if xy: "x \<in> set T" "y \<in> set T" "snd x = snd y" for x y
  proof -
    have "(fst x, snd x) \<in> set T" "(fst y, snd x) \<in> set T" using xy by (metis prod.collapse)+
    from tinv_live [OF assms this(1)] tinv_live [OF assms this(2)] show ?thesis by auto
  qed
  then have "inj_on snd (set T)" by (auto intro!: inj_onI prod_eqI)
  moreover have "distinct T" using assms by (auto simp: tinv_def distinct_map)
  ultimately show ?thesis by (simp add: distinct_map)
qed

lemma delete_alerts_live:
  assumes "distinct (map snd T)" "\<forall>p \<in> snd ` set T. fl_heap f p \<noteq> None"
  shows "\<exists>f'. delete_alerts T f = Inr f' \<and> (\<forall>p. fl_heap f' p = (if p \<in> snd ` set T then None else fl_heap f p))"
  using assms
proof (induction T f rule: delete_alerts.induct)
  case (2 k p l f)
  obtain a where a: "fl_heap f p = Some a" using 2(3) by auto
  have other: "\<forall>q \<in> snd ` set l. fl_heap (fdelete p f) q \<noteq> None"
    using 2(2,3) by (auto simp: fdelete_def)
  have "distinct (map snd l)" using 2(2) by simp
  then obtain f' where f': "delete_alerts l (fdelete p f) = Inr f'"
    "\<And>q. fl_heap f' q = (if q \<in> snd ` set l then None else fl_heap (fdelete p f) q)"
    using 2(1) [of a] other a unfolding fderef_def by (simp only: option.case) blast
  have "fl_heap f' q = (if q \<in> snd ` set ((k, p) # l) then None else fl_heap f q)" for q
    using f'(2) [of q] by (simp add: fdelete_def)
  then show ?case using f'(1) a by (simp add: fderef_def)
qed simp

lemma delete_alerts_dangling:
  "(k, p) \<in> set T \<Longrightarrow> fl_heap f p = None \<Longrightarrow> delete_alerts T f = Inl Use_after_free"
proof (induction T f rule: delete_alerts.induct)
  case (2 c q l f)
  then show ?case by (auto simp: fderef_def fdelete_def split: option.split)
qed simp

text \<open>A host after one category, then after both, has been given back.\<close>

lemma host_dec_score_value:
  assumes "score_wf (fh_score h)" "unat v \<le> unat (score_value cat r (fh_score h))"
  shows "unat (score_value c r (fh_score (host_dec_score now v cat r h))) =
      unat (score_value c r (fh_score h)) - (if c = cat then unat v else 0)"
    "score_wf (fh_score (host_dec_score now v cat r h))"
    "active_alerted_flows (host_dec_score now v cat r h) = active_alerted_flows h"
  using score_value_dec [OF assms, of c r now] assms(1) by (auto simp: host_dec_score_def)

definition host_released :: "u32 \<Rightarrow> (score_category \<Rightarrow> u16) \<Rightarrow> bool \<Rightarrow> bool \<Rightarrow> flow_host \<Rightarrow> flow_host" where
  "host_released now v r alerted h =
     (let h = host_dec_score now (v score_category_security) score_category_security r
                (host_dec_score now (v score_category_network) score_category_network r h)
      in if alerted then h\<lparr>active_alerted_flows := active_alerted_flows h - 1\<rparr> else h)"

lemma decAllFlowScores_side:
  "side r (decAllFlowScores now f) =
     map_option (host_released now (\<lambda>cat. (if r then cli_host_score (fl_stats f) else srv_host_score (fl_stats f)) ! score_cat cat)
       r (isFlowAlerted f)) (side r f)"
proof -
  have "side r (decNumAlertedFlows sev g) = side r g" for sev g
    by (simp add: decNumAlertedFlows_def Let_def)
  then show ?thesis
    by (cases r) (auto simp: decAllFlowScores_def dec_scores_cat_def side_def Let_def isFlowAlerted_def
        option.map_comp comp_def host_released_def decNumAlertedFlows_def intro!: option.map_cong)
qed

lemma host_released_back:
  assumes "hostinv b T H r h" "unat \<circ> v = (\<lambda>cat. fsum (share cat r) T H)" "alerted \<longleftrightarrow> T \<noteq> []"
  shows "unat (score_value cat r (fh_score (host_released now v r alerted h))) = b_score b r cat"
    "active_alerted_flows (host_released now v r alerted h) = b_active b r"
proof -
  let ?h1 = "host_dec_score now (v score_category_network) score_category_network r h"
  have v: "unat (v c) = fsum (share c r) T H" for c using assms(2) by (metis comp_apply)
  have val: "unat (score_value c r (fh_score h)) = b_score b r c + unat (v c)" for c
    using assms(1) v by (simp add: hostinv_def)
  have wf: "score_wf (fh_score h)" using assms(1) by (simp add: hostinv_def)
  have le: "unat (v score_category_network) \<le> unat (score_value score_category_network r (fh_score h))" using val by simp
  note one = host_dec_score_value [OF wf le]
  have "unat (v score_category_security) \<le> unat (score_value score_category_security r (fh_score ?h1))"
    using one(1) [of score_category_security] val by simp
  note two = host_dec_score_value [OF one(2) this]
  show "unat (score_value cat r (fh_score (host_released now v r alerted h))) = b_score b r cat"
    using two(1) [of cat now] one(1) [of cat now] val [of cat]
    by (cases cat) (simp_all add: host_released_def Let_def)
  show "active_alerted_flows (host_released now v r alerted h) = b_active b r"
    using two(3) one(3) assms(1,3) by (simp add: host_released_def Let_def hostinv_def)
qed

section \<open>Properties\<close>

text \<open>The concrete inputs of the witnesses: one alert on a flow whose client is monitored.\<close>

definition wit_host :: flow_host where
  "wit_host = \<lparr> fh_score = \<lparr> view_interface_score = False, score_ptr = None \<rparr>, active_alerted_flows = 2,
     total_alerts = 9, host_alerted_as_client = 4, host_alerted_as_server = 5, fh_as = None \<rparr>"

definition wit_falert :: flow_alert where
  "wit_falert = setCliSrvScores 60 20 (FlowAlert_new 7 alert_category_network False)"

definition wit_flow :: flow_state where
  "wit_flow = Flow_new (Some wit_host) None (\<lambda>_. 3)"

definition wit_triggered :: "c_error + flow_state" where
  "wit_triggered = ftrig_state (Flow_triggerAlert (\<lambda>_. False) False False True False 5 (fput 5 wit_falert wit_flow))"

lemma wit_hosts_ok: "hosts_ok (Some wit_host) None"
  by (simp add: hosts_ok_def wit_host_def score_wf_def score_value_def)

lemma wit_triggered_reach: "flow_reach (Flow_new (Some wit_host) None (\<lambda>_. 3)) wit_triggered"
  unfolding wit_triggered_def wit_flow_def
  by (rule freach_step [OF freach_new fstep_trigger])
    (simp_all add: Flow_new_def wit_falert_def FlowAlert_new_def setCliSrvScores_def Let_def alert_total_def)

lemma wit_triggered_state:
  obtains f where "wit_triggered = Inr f" "flow_reach (Flow_new (Some wit_host) None (\<lambda>_. 3)) (Inr f)"
    "pending_alerts f" "triggered_alerts f = [(7, 5)]"
proof -
  obtain f where f: "wit_triggered = Inr f" "pending_alerts f" "triggered_alerts f = [(7, 5)]"
    by (simp add: wit_triggered_def Flow_triggerAlert_def setAlertsMap_def fderef_def Let_def ftrig_state_def
        fput_def wit_flow_def Flow_new_def wit_falert_def FlowAlert_new_def setCliSrvScores_def map_insert_def
        setAlertInfo_def setNormalToAlertedCounters_def setPredominantAlert_def incNumAlertedFlows_def
        isFlowAlerted_def flow_alert_normal_def Bitmap_isSetBit_def Bitmap_new_def)
  then show ?thesis using wit_triggered_reach that by metis
qed

text \<open>
  C9: Along the histories of triggers, refreshes, flushes and deliveries in which the ring of the
  interface refuses no alert that a flush, or a trigger with a synchronous flush, offers to it
  (or alerts are switched off), no deleted alert is read; the bitmap holds exactly the types of the triggered alerts; each of them is
  live and filed under its type, no other alert is live (nothing leaks); the score of the
  flow is the sum of theirs; whatever is queued is one of them, and the flow is in use
  exactly once per queued alert. The restriction is in \<open>fstep_flush\<close> and \<open>fstep_trigger\<close>; what a refused
  flush does, the use after free of the code, is \<open>flushAlerts_refused\<close>.
\<close>
theorem flow_alerts_consistent:
  assumes "flow_reach (Flow_new cli srv N) r" "hosts_ok cli srv"
  shows "\<exists>f. r = Inr f
    \<and> Bitmap_bits (alerts_map f) = unat ` fst ` set (triggered_alerts f)
    \<and> (\<forall>k p. (k, p) \<in> set (triggered_alerts f) \<longrightarrow> (\<exists>a. fl_heap f p = Some a \<and> fa_id a = k))
    \<and> (\<forall>p. fl_heap f p \<noteq> None \<longrightarrow> p \<in> snd ` set (triggered_alerts f))
    \<and> unat (flow_score f) = fsum alert_total (triggered_alerts f) (fl_heap f)
    \<and> set (flow_alerts_queue f) \<subseteq> snd ` set (triggered_alerts f)
    \<and> flow_uses f = length (flow_alerts_queue f)"
proof -
  obtain f where f: "r = Inr f" "finv (base_of cli srv N) f" using flow_reach_inv [OF assms] by blast
  note I = finvD [OF f(2)]
  have "Bitmap_bits (alerts_map f) = unat ` fst ` set (triggered_alerts f)"
    "\<forall>p. fl_heap f p \<noteq> None \<longrightarrow> p \<in> snd ` set (triggered_alerts f)"
    using I(1) unfolding tinv_def by blast+
  then show ?thesis using f(1) I(3,7,8) tinv_live [OF I(1)] by blast
qed

theorem flow_alerts_consistent_witness:
  "\<exists>f. wit_triggered = Inr f \<and> unat (flow_score f) = fsum alert_total (triggered_alerts f) (fl_heap f)"
  using flow_alerts_consistent [OF wit_triggered_reach wit_hosts_ok] by blast

text \<open>
  C19: A flow counts as alerted exactly when some alert was triggered on it, and its
  predominant alert is then a triggered one of the highest client plus server score.
\<close>
theorem flow_predominant_alert:
  assumes "flow_reach (Flow_new cli srv N) (Inr f)" "hosts_ok cli srv"
  shows "(isFlowAlerted f \<longleftrightarrow> triggered_alerts f \<noteq> [])
    \<and> (isFlowAlerted f \<longrightarrow> (\<exists>p a. map_of (triggered_alerts f) (predominant_alert f) = Some p \<and> fl_heap f p = Some a
         \<and> unat (predominant_alert_score f) = alert_total a))
    \<and> (\<forall>k p a. (k, p) \<in> set (triggered_alerts f) \<longrightarrow> fl_heap f p = Some a \<longrightarrow>
         alert_total a \<le> unat (predominant_alert_score f))"
proof -
  have f: "finv (base_of cli srv N) f" using flow_reach_inv [OF assms] by auto
  note I = finvD [OF f]
  have al: "isFlowAlerted f \<longleftrightarrow> triggered_alerts f \<noteq> []" by (rule isFlowAlerted_iff [OF I(2,1)])
  moreover have "\<exists>p a. map_of (triggered_alerts f) (predominant_alert f) = Some p \<and> fl_heap f p = Some a
      \<and> unat (predominant_alert_score f) = alert_total a" if "triggered_alerts f \<noteq> []"
    using I(2) \<open>triggered_alerts f \<noteq> []\<close> tinv_map_of [OF I(1)] unfolding predinv_def by auto
  moreover have "alert_total a \<le> unat (predominant_alert_score f)"
    if "(k, p) \<in> set (triggered_alerts f)" "fl_heap f p = Some a" for k p a
    using I(2) that unfolding predinv_def by blast
  ultimately show ?thesis by blast
qed

theorem flow_predominant_alert_witness:
  "\<exists>f. wit_triggered = Inr f \<and> triggered_alerts f = [(7, 5)] \<and> isFlowAlerted f"
proof (rule wit_triggered_state)
  fix f assume "wit_triggered = Inr f" "flow_reach (Flow_new (Some wit_host) None (\<lambda>_. 3)) (Inr f)"
    "triggered_alerts f = [(7, 5)]"
  then show ?thesis using flow_predominant_alert [of "Some wit_host" None "\<lambda>_. 3" f] wit_hosts_ok by auto
qed

text \<open>
  C11: When a flow ends, decAllFlowScores gives back what its alerts added: each host has
  the score of every category, in the role it had in the flow, and the number of active
  alerted flows it had before the flow, and so have the alerted-flow counters of the
  interface, whatever alerts the flow went through in the histories of \<open>flow_step\<close>, in which the ring refuses no flush. The totals over time that the
  scores also keep are not given back.
\<close>
theorem decAllFlowScores_restores:
  assumes "flow_reach (Flow_new cli srv N) (Inr f)" "hosts_ok cli srv"
  shows "num_active_alerted_flows (decAllFlowScores now f) = N
    \<and> (\<forall>r h. (if r then cli else srv) = Some h \<longrightarrow>
      (\<exists>h'. side r (decAllFlowScores now f) = Some h' \<and> active_alerted_flows h' = active_alerted_flows h
        \<and> (\<forall>cat. score_value cat r (fh_score h') = score_value cat r (fh_score h))))"
proof -
  have f: "finv (base_of cli srv N) f" using flow_reach_inv [OF assms] by auto
  note I = finvD [OF f]
  have al: "isFlowAlerted f \<longleftrightarrow> triggered_alerts f \<noteq> []" by (rule isFlowAlerted_iff [OF I(2,1)])
  have "num_active_alerted_flows (decAllFlowScores now f) = N"
    using I(2,6) al inc_dec_alerted(2) [where N = N]
    by (auto simp: decAllFlowScores_def dec_scores_cat_def Let_def base_of_def isFlowAlerted_def predinv_def)
  moreover have "\<exists>h'. side r (decAllFlowScores now f) = Some h' \<and> active_alerted_flows h' = active_alerted_flows h
      \<and> (\<forall>cat. score_value cat r (fh_score h') = score_value cat r (fh_score h))"
    if h: "(if r then cli else srv) = Some h" for r h
  proof -
    obtain h1 where h1: "side r f = Some h1" using I(10) [of r] h by (auto simp: base_of_def)
    define v where "v = (\<lambda>c. (if r then cli_host_score (fl_stats f) else srv_host_score (fl_stats f)) ! score_cat c)"
    have "unat (v c) = fsum (share c r) (triggered_alerts f) (fl_heap f)" for c
      using I(4) unfolding v_def statsinv_def stats_score_def by blast
    then have "unat \<circ> v = (\<lambda>c. fsum (share c r) (triggered_alerts f) (fl_heap f))"
      unfolding comp_def by (rule ext)
    note given_back = host_released_back [where now = now, OF I(5) [OF h1] this al]
    show ?thesis
      using given_back h h1 decAllFlowScores_side [of r now f, folded v_def]
      by (simp add: base_of_def) (simp add: word_unat_eq_iff)
  qed
  ultimately show ?thesis by blast
qed

theorem decAllFlowScores_restores_witness:
  "\<exists>f h. wit_triggered = Inr f \<and> side True (decAllFlowScores 100 f) = Some h \<and> active_alerted_flows h = 2
     \<and> num_active_alerted_flows (decAllFlowScores 100 f) = (\<lambda>_. 3)"
proof (rule wit_triggered_state)
  fix f assume f: "wit_triggered = Inr f" "flow_reach (Flow_new (Some wit_host) None (\<lambda>_. 3)) (Inr f)"
  have "active_alerted_flows wit_host = 2" by (simp add: wit_host_def)
  moreover note R = decAllFlowScores_restores [OF f(2) wit_hosts_ok, of 100]
  from R obtain h where "side True (decAllFlowScores 100 f) = Some h" "active_alerted_flows h = active_alerted_flows wit_host"
    by (metis (full_types))
  ultimately show ?thesis using f(1) R by auto
qed

text \<open>
  The destructor of a flow after any history deletes every alert of the flow exactly
  once: it never deletes a deleted alert and leaves none behind.
\<close>
theorem Flow_delete_frees:
  assumes "flow_reach (Flow_new cli srv N) (Inr f)" "hosts_ok cli srv"
  shows "\<exists>f'. Flow_delete f = Inr f' \<and> fl_heap f' = (\<lambda>_. None)"
proof -
  have f: "finv (base_of cli srv N) f" using flow_reach_inv [OF assms] by auto
  note I = finvD [OF f]
  have live: "\<forall>p \<in> snd ` set (triggered_alerts f). fl_heap f p \<noteq> None"
    using tinv_live [OF I(1)] by fastforce
  obtain f' where f': "delete_alerts (triggered_alerts f) f = Inr f'"
    "\<And>p. fl_heap f' p = (if p \<in> snd ` set (triggered_alerts f) then None else fl_heap f p)"
    using delete_alerts_live [OF tinv_distinct [OF I(1)] live] by blast
  have "fl_heap f' p = None" for p using f'(2) [of p] I(1) by (auto simp: tinv_def)
  then show ?thesis using f'(1) by (auto simp: Flow_delete_def)
qed

theorem Flow_delete_frees_witness:
  "\<exists>f f'. wit_triggered = Inr f \<and> Flow_delete f = Inr f' \<and> fl_heap f' = (\<lambda>_. None)"
proof (rule wit_triggered_state)
  fix f assume "wit_triggered = Inr f" "flow_reach (Flow_new (Some wit_host) None (\<lambda>_. 3)) (Inr f)"
  then show ?thesis using Flow_delete_frees [of "Some wit_host" None "\<lambda>_. 3" f] wit_hosts_ok by blast
qed

text \<open>
  C34: When the ring of the interface refuses the alert of a flush, enqueueFlowAlert deletes
  an alert the flow still lists as triggered: the destructor of the flow then deletes it a
  second time, and a later flush with something to do reads it.
\<close>
theorem flushAlerts_refused:
  assumes "flow_reach (Flow_new cli srv N) (Inr f)" "hosts_ok cli srv" "pending_alerts f"
  shows "\<exists>f'. flushAlerts False False f = Inr f' \<and> Flow_delete f' = Inl Use_after_free
    \<and> flushAlerts dontEmit ring_ok (f'\<lparr>refresh_triggered_alerts := True\<rparr>) = Inl Use_after_free"
proof -
  have f: "finv (base_of cli srv N) f" using flow_reach_inv [OF assms(1,2)] by auto
  note I = finvD [OF f]
  obtain p where p: "map_of (triggered_alerts f) (predominant_alert f) = Some p" "fl_heap f p \<noteq> None"
    using finv_predominant [OF f] I(9) assms(3) by blast
  let ?f = "(fdelete p f)\<lparr>pending_alerts := False, refresh_triggered_alerts := False\<rparr>"
  have live: "\<not> list_ex (\<lambda>(_, p). fl_heap f p = None) (triggered_alerts f)"
    using tinv_live [OF I(1)] by (fastforce simp: list_ex_iff)
  have in_T: "(predominant_alert f, p) \<in> set (triggered_alerts f)" using p(1) by (rule map_of_SomeD)
  have "flushAlerts False False f = Inr ?f"
    using assms(3) p live by (auto simp: flushAlerts_def enqueueFlowAlert_def fderef_def)
  moreover have "Flow_delete ?f = Inl Use_after_free"
    unfolding Flow_delete_def by (rule delete_alerts_dangling [of "predominant_alert f" p]) (use in_T in \<open>simp_all add: fdelete_def\<close>)
  moreover have "list_ex (\<lambda>(_, q). fl_heap (fdelete p f) q = None) (triggered_alerts f)"
    using in_T by (force simp: list_ex_iff fdelete_def)
  then have "flushAlerts dontEmit ring_ok (?f\<lparr>refresh_triggered_alerts := True\<rparr>) = Inl Use_after_free"
    by (simp add: flushAlerts_def fdelete_def)
  ultimately show ?thesis by blast
qed

theorem flushAlerts_refused_witness:
  "\<exists>f f'. wit_triggered = Inr f \<and> flushAlerts False False f = Inr f' \<and> Flow_delete f' = Inl Use_after_free"
proof (rule wit_triggered_state)
  fix f assume "wit_triggered = Inr f" "flow_reach (Flow_new (Some wit_host) None (\<lambda>_. 3)) (Inr f)"
    "pending_alerts f"
  then show ?thesis using flushAlerts_refused [of "Some wit_host" None "\<lambda>_. 3" f] wit_hosts_ok by blast
qed

end
