(* ===== verification/Traffic_Counters.thy ===== *)
theory Traffic_Counters
  imports Prelude
begin

text \<open>
  The counters of an interface and their merging: include/ProtoStats.h, TcpPacketStats.h,
  TcpFlowStats.h, LocalTrafficStats.h, PacketStats.h, EthStats.h, DSCPStats.h,
  TrafficCounter.h, CategoryCounter.h, ProtoCounter.h, nDPIStats.h, ICMPstats.h,
  RoundTripStats.h and the files of the same names under src/src. An interface that
  gathers others sums their counters into its own (NetworkInterface::sumStats); the
  contract of that sum is the locale \<open>mergeable\<close>. The throughput members (floating point),
  the output to Lua and JSON and the strdup-ed peers of ICMPstats are left out.
\<close>

section \<open>Merging\<close>

text \<open>
  \<open>merge a s\<close> is the object \<open>s\<close> after \<open>a.sum(&s)\<close>. \<open>ok\<close> is the shape of the object.
\<close>

locale mergeable =
  fixes ok :: "'s \<Rightarrow> bool" and zero :: 's and inc :: "'e \<Rightarrow> 's \<Rightarrow> 's" and merge :: "'s \<Rightarrow> 's \<Rightarrow> 's"
  assumes ok_zero: "ok zero"
    and ok_inc: "ok s \<Longrightarrow> ok (inc e s)"
    and merge_zero: "ok s \<Longrightarrow> merge zero s = s"
    and merge_inc: "ok a \<Longrightarrow> ok s \<Longrightarrow> merge (inc e a) s = inc e (merge a s)"
begin

lemma ok_fold: "ok s \<Longrightarrow> ok (fold inc es s)"
  by (induction es arbitrary: s) (simp_all add: ok_inc)

lemma merge_fold: "ok a \<Longrightarrow> ok s \<Longrightarrow> merge (fold inc es a) s = fold inc es (merge a s)"
  by (induction es arbitrary: a) (simp_all add: ok_inc merge_inc)

lemma merge_history: "ok s \<Longrightarrow> merge (fold inc es zero) s = fold inc es s"
  by (simp add: merge_fold ok_zero merge_zero)

text \<open>Merging the members one after the other is counting all their events.\<close>

lemma merge_members:
  "ok s \<Longrightarrow> fold (\<lambda>es s. merge (fold inc es zero) s) ess s = fold inc (concat ess) s"
proof (induction ess arbitrary: s)
  case (Cons es ess)
  have "fold (\<lambda>es s. merge (fold inc es zero) s) (es # ess) s
      = fold (\<lambda>es s. merge (fold inc es zero) s) ess (fold inc es s)"
    using merge_history [OF Cons.prems] by simp
  also have "\<dots> = fold inc (concat ess) (fold inc es s)"
    by (rule Cons.IH) (rule ok_fold [OF Cons.prems])
  finally show ?case by simp
qed simp

end

section \<open>ProtoStats\<close>

record proto_stats =
  numPkts :: u64
  numBytes :: u64

definition ProtoStats_reset :: proto_stats where
  "ProtoStats_reset = \<lparr> numPkts = 0, numBytes = 0 \<rparr>"

definition ProtoStats_inc :: "u32 \<Rightarrow> u32 \<Rightarrow> proto_stats \<Rightarrow> proto_stats" where
  "ProtoStats_inc pkts bytes s = s\<lparr>numPkts := numPkts s + ucast pkts, numBytes := numBytes s + ucast bytes\<rparr>"

definition ProtoStats_sum :: "proto_stats \<Rightarrow> proto_stats \<Rightarrow> proto_stats" where
  "ProtoStats_sum a p = p\<lparr>numPkts := numPkts p + numPkts a, numBytes := numBytes p + numBytes a\<rparr>"

interpretation proto: mergeable "\<lambda>_. True" ProtoStats_reset "\<lambda>(p, b). ProtoStats_inc p b" ProtoStats_sum
  by unfold_locales (auto simp: ProtoStats_reset_def ProtoStats_inc_def ProtoStats_sum_def)

section \<open>TcpPacketStats and TcpFlowStats\<close>

record tcp_packet_stats =
  tps_Retr :: u64
  tps_OOO :: u64
  tps_Lost :: u64
  tps_KeepAlive :: u64

definition TcpPacketStats_new :: tcp_packet_stats where
  "TcpPacketStats_new = \<lparr> tps_Retr = 0, tps_OOO = 0, tps_Lost = 0, tps_KeepAlive = 0 \<rparr>"

definition incRetr :: "u32 \<Rightarrow> tcp_packet_stats \<Rightarrow> tcp_packet_stats" where
  "incRetr n s = s\<lparr>tps_Retr := tps_Retr s + ucast n\<rparr>"

definition incOOO :: "u32 \<Rightarrow> tcp_packet_stats \<Rightarrow> tcp_packet_stats" where
  "incOOO n s = s\<lparr>tps_OOO := tps_OOO s + ucast n\<rparr>"

definition incLost :: "u32 \<Rightarrow> tcp_packet_stats \<Rightarrow> tcp_packet_stats" where
  "incLost n s = s\<lparr>tps_Lost := tps_Lost s + ucast n\<rparr>"

definition incKeepAlive :: "u32 \<Rightarrow> tcp_packet_stats \<Rightarrow> tcp_packet_stats" where
  "incKeepAlive n s = s\<lparr>tps_KeepAlive := tps_KeepAlive s + ucast n\<rparr>"

definition seqIssues :: "tcp_packet_stats \<Rightarrow> bool" where
  "seqIssues s \<longleftrightarrow> tps_Retr s \<noteq> 0 \<or> tps_OOO s \<noteq> 0 \<or> tps_Lost s \<noteq> 0 \<or> tps_KeepAlive s \<noteq> 0"

definition TcpPacketStats_sum :: "tcp_packet_stats \<Rightarrow> tcp_packet_stats \<Rightarrow> tcp_packet_stats" where
  "TcpPacketStats_sum a s =
     s\<lparr>tps_Retr := tps_Retr s + tps_Retr a, tps_OOO := tps_OOO s + tps_OOO a,
       tps_Lost := tps_Lost s + tps_Lost a, tps_KeepAlive := tps_KeepAlive s + tps_KeepAlive a\<rparr>"

text \<open>NetworkStats::incTcp, which GenericTrafficElement and Host share.\<close>

definition incTcp :: "u32 \<Rightarrow> u32 \<Rightarrow> u32 \<Rightarrow> u32 \<Rightarrow> tcp_packet_stats \<Rightarrow> tcp_packet_stats" where
  "incTcp ooo retr lost keep_alive s =
     (let s = (if ooo \<noteq> 0 then incOOO ooo s else s);
          s = (if retr \<noteq> 0 then incRetr retr s else s);
          s = (if lost \<noteq> 0 then incLost lost s else s)
      in if keep_alive \<noteq> 0 then incKeepAlive keep_alive s else s)"

definition tcp_inc :: "u32 \<times> u32 \<times> u32 \<times> u32 \<Rightarrow> tcp_packet_stats \<Rightarrow> tcp_packet_stats" where
  "tcp_inc = (\<lambda>(ooo, retr, lost, ka). incTcp ooo retr lost ka)"

interpretation tcp_packets: mergeable "\<lambda>_. True" TcpPacketStats_new tcp_inc TcpPacketStats_sum
  by unfold_locales
    (auto simp: tcp_inc_def TcpPacketStats_new_def incTcp_def incRetr_def incOOO_def incLost_def incKeepAlive_def
      TcpPacketStats_sum_def Let_def)

record tcp_flow_stats =
  numSynFlows :: u32
  numEstablishedFlows :: u32
  numResetFlows :: u32
  numFinFlows :: u32

definition TcpFlowStats_new :: tcp_flow_stats where
  "TcpFlowStats_new = \<lparr> numSynFlows = 0, numEstablishedFlows = 0, numResetFlows = 0, numFinFlows = 0 \<rparr>"

definition incSyn :: "tcp_flow_stats \<Rightarrow> tcp_flow_stats" where
  "incSyn s = s\<lparr>numSynFlows := numSynFlows s + 1\<rparr>"

definition incEstablished :: "tcp_flow_stats \<Rightarrow> tcp_flow_stats" where
  "incEstablished s = s\<lparr>numEstablishedFlows := numEstablishedFlows s + 1\<rparr>"

definition incReset :: "tcp_flow_stats \<Rightarrow> tcp_flow_stats" where
  "incReset s = s\<lparr>numResetFlows := numResetFlows s + 1\<rparr>"

definition incFin :: "tcp_flow_stats \<Rightarrow> tcp_flow_stats" where
  "incFin s = s\<lparr>numFinFlows := numFinFlows s + 1\<rparr>"

definition TcpFlowStats_sum :: "tcp_flow_stats \<Rightarrow> tcp_flow_stats \<Rightarrow> tcp_flow_stats" where
  "TcpFlowStats_sum a s =
     s\<lparr>numSynFlows := numSynFlows s + numSynFlows a,
       numEstablishedFlows := numEstablishedFlows s + numEstablishedFlows a,
       numResetFlows := numResetFlows s + numResetFlows a, numFinFlows := numFinFlows s + numFinFlows a\<rparr>"

datatype tcp_flow_event = E_syn | E_established | E_reset | E_fin

fun tcp_flow_inc :: "tcp_flow_event \<Rightarrow> tcp_flow_stats \<Rightarrow> tcp_flow_stats" where
  "tcp_flow_inc E_syn s = incSyn s"
| "tcp_flow_inc E_established s = incEstablished s"
| "tcp_flow_inc E_reset s = incReset s"
| "tcp_flow_inc E_fin s = incFin s"

interpretation tcp_flows: mergeable "\<lambda>_. True" TcpFlowStats_new tcp_flow_inc TcpFlowStats_sum
proof
  show "TcpFlowStats_sum TcpFlowStats_new s = s" for s
    by (simp add: TcpFlowStats_sum_def TcpFlowStats_new_def)
  show "TcpFlowStats_sum (tcp_flow_inc e a) s = tcp_flow_inc e (TcpFlowStats_sum a s)" for e a s
    by (cases e) (simp_all add: TcpFlowStats_sum_def incSyn_def incEstablished_def incReset_def incFin_def)
qed simp_all

section \<open>LocalTrafficStats\<close>

record local_stats =
  local2remote :: u64
  remote2local :: u64
  local2local :: u64
  remote2remote :: u64

record local_traffic_stats =
  lt_packets :: local_stats
  lt_bytes :: local_stats

definition local_stats_zero :: local_stats where
  "local_stats_zero = \<lparr> local2remote = 0, remote2local = 0, local2local = 0, remote2remote = 0 \<rparr>"

definition LocalTrafficStats_new :: local_traffic_stats where
  "LocalTrafficStats_new = \<lparr> lt_packets = local_stats_zero, lt_bytes = local_stats_zero \<rparr>"

definition local_add :: "bool \<Rightarrow> bool \<Rightarrow> u32 \<Rightarrow> local_stats \<Rightarrow> local_stats" where
  "local_add localsender localreceiver v s =
     (if localsender then
        if localreceiver then s\<lparr>local2local := local2local s + ucast v\<rparr>
        else s\<lparr>local2remote := local2remote s + ucast v\<rparr>
      else
        if localreceiver then s\<lparr>remote2local := remote2local s + ucast v\<rparr>
        else s\<lparr>remote2remote := remote2remote s + ucast v\<rparr>)"

definition LocalTrafficStats_incStats ::
  "u32 \<Rightarrow> u32 \<Rightarrow> bool \<Rightarrow> bool \<Rightarrow> local_traffic_stats \<Rightarrow> local_traffic_stats" where
  "LocalTrafficStats_incStats num_pkts pkt_len localsender localreceiver s =
     s\<lparr>lt_packets := local_add localsender localreceiver num_pkts (lt_packets s),
       lt_bytes := local_add localsender localreceiver pkt_len (lt_bytes s)\<rparr>"

definition local_stats_sum :: "local_stats \<Rightarrow> local_stats \<Rightarrow> local_stats" where
  "local_stats_sum l s =
     s\<lparr>local2remote := local2remote s + local2remote l, remote2local := remote2local s + remote2local l,
       local2local := local2local s + local2local l, remote2remote := remote2remote s + remote2remote l\<rparr>"

definition LocalTrafficStats_sum :: "local_traffic_stats \<Rightarrow> local_traffic_stats \<Rightarrow> local_traffic_stats" where
  "LocalTrafficStats_sum a l =
     l\<lparr>lt_packets := local_stats_sum (lt_packets a) (lt_packets l),
       lt_bytes := local_stats_sum (lt_bytes a) (lt_bytes l)\<rparr>"

definition local_inc :: "u32 \<times> u32 \<times> bool \<times> bool \<Rightarrow> local_traffic_stats \<Rightarrow> local_traffic_stats" where
  "local_inc = (\<lambda>(n, l, ls, lr). LocalTrafficStats_incStats n l ls lr)"

interpretation local_traffic: mergeable "\<lambda>_. True" LocalTrafficStats_new local_inc LocalTrafficStats_sum
  by unfold_locales
    (auto simp: local_inc_def LocalTrafficStats_new_def local_stats_zero_def LocalTrafficStats_incStats_def
      local_add_def LocalTrafficStats_sum_def local_stats_sum_def)

section \<open>DSCPStats\<close>

definition DS_PR_LE :: nat where "DS_PR_LE = 8"
definition DS_PR_UNKN :: nat where "DS_PR_UNKN = 9"
definition DS_PRECEDENCE_GROUPS :: nat where "DS_PRECEDENCE_GROUPS = 10"

definition ds_table :: "nat list" where
  "ds_table =
     [0, 8, 9, 9, 9, 9, 9, 9,  1, 9, 1, 9, 1, 9, 1, 9,  2, 9, 2, 9, 2, 9, 2, 9,
      3, 9, 3, 9, 3, 9, 3, 9,  4, 9, 4, 9, 4, 9, 4, 9,  5, 9, 9, 9, 9, 9, 5, 9,
      6, 9, 9, 9, 9, 9, 9, 9,  9, 7, 9, 9, 9, 9, 9, 9]"

definition ds2Precedence :: "u8 \<Rightarrow> nat" where
  "ds2Precedence ds_id = (if ds_id < 64 then ds_table ! unat ds_id else DS_PR_UNKN)"

record traffic_counter =
  tc_sent :: u64
  tc_rcvd :: u64

definition TrafficCounter_resetStats :: traffic_counter where
  "TrafficCounter_resetStats = \<lparr> tc_sent = 0, tc_rcvd = 0 \<rparr>"

definition TrafficCounter_incStats :: "u64 \<Rightarrow> u64 \<Rightarrow> traffic_counter \<Rightarrow> traffic_counter" where
  "TrafficCounter_incStats s r c = c\<lparr>tc_rcvd := tc_rcvd c + r, tc_sent := tc_sent c + s\<rparr>"

definition getTotal :: "traffic_counter \<Rightarrow> u64" where
  "getTotal c = tc_sent c + tc_rcvd c"

text \<open>TrafficCounter::sum adds its argument to the object it is called on.\<close>

definition TrafficCounter_sum :: "traffic_counter \<Rightarrow> traffic_counter \<Rightarrow> traffic_counter" where
  "TrafficCounter_sum c self = self\<lparr>tc_sent := tc_sent self + tc_sent c, tc_rcvd := tc_rcvd self + tc_rcvd c\<rparr>"

record dscp_counter =
  ds_packets :: traffic_counter
  ds_bytes :: traffic_counter

definition dscp_zero :: dscp_counter where
  "dscp_zero = \<lparr> ds_packets = TrafficCounter_resetStats, ds_bytes = TrafficCounter_resetStats \<rparr>"

definition DSCPStats_new :: "dscp_counter list" where
  "DSCPStats_new = replicate DS_PRECEDENCE_GROUPS dscp_zero"

text \<open>The type of service is cut to 8 bits when ds2Precedence is called.\<close>

definition DSCPStats_incStats ::
  "u16 \<Rightarrow> u64 \<Rightarrow> u64 \<Rightarrow> u64 \<Rightarrow> u64 \<Rightarrow> dscp_counter list \<Rightarrow> dscp_counter list" where
  "DSCPStats_incStats ds_id sent_packets sent_bytes rcvd_packets rcvd_bytes cs =
     (let p = ds2Precedence (ucast ds_id); c = cs ! p
      in cs[p := c\<lparr>ds_packets := TrafficCounter_incStats sent_packets rcvd_packets (ds_packets c),
                  ds_bytes := TrafficCounter_incStats sent_bytes rcvd_bytes (ds_bytes c)\<rparr>])"

definition dscp_add :: "dscp_counter \<Rightarrow> dscp_counter \<Rightarrow> dscp_counter" where
  "dscp_add a s = s\<lparr>ds_packets := TrafficCounter_sum (ds_packets a) (ds_packets s),
                    ds_bytes := TrafficCounter_sum (ds_bytes a) (ds_bytes s)\<rparr>"

definition DSCPStats_sum :: "dscp_counter list \<Rightarrow> dscp_counter list \<Rightarrow> dscp_counter list" where
  "DSCPStats_sum a s = map (\<lambda>i. dscp_add (a ! i) (s ! i)) [0..<DS_PRECEDENCE_GROUPS]"

lemma ds_table_bound: "i < 64 \<Longrightarrow> ds_table ! i < 10"
proof -
  have "\<forall>x \<in> set ds_table. x < 10" "length ds_table = 64" by (simp_all add: ds_table_def)
  then show "i < 64 \<Longrightarrow> ds_table ! i < 10" by simp
qed

lemma ds2Precedence_bound: "ds2Precedence d < DS_PRECEDENCE_GROUPS"
  using ds_table_bound [of "unat d"]
  by (simp add: ds2Precedence_def DS_PR_UNKN_def DS_PRECEDENCE_GROUPS_def word_less_nat_alt)

lemmas traffic_counter_defs = TrafficCounter_resetStats_def TrafficCounter_incStats_def TrafficCounter_sum_def

definition dscp_inc :: "u16 \<times> u64 \<times> u64 \<times> u64 \<times> u64 \<Rightarrow> dscp_counter list \<Rightarrow> dscp_counter list" where
  "dscp_inc = (\<lambda>(d, sp, sb, rp, rb). DSCPStats_incStats d sp sb rp rb)"

interpretation dscp: mergeable "\<lambda>cs. length cs = DS_PRECEDENCE_GROUPS" DSCPStats_new dscp_inc DSCPStats_sum
proof
  show "DSCPStats_sum DSCPStats_new s = s" if "length s = DS_PRECEDENCE_GROUPS" for s
    using that
    by (intro nth_equalityI)
      (simp_all add: DSCPStats_sum_def DSCPStats_new_def dscp_add_def dscp_zero_def traffic_counter_defs)
  show "DSCPStats_sum (dscp_inc e a) s = dscp_inc e (DSCPStats_sum a s)"
    if "length a = DS_PRECEDENCE_GROUPS" "length s = DS_PRECEDENCE_GROUPS" for e a s
  proof (cases e)
    case (fields d sp sb rp rb)
    then show ?thesis
      using that ds2Precedence_bound [of "ucast d"]
      by (intro nth_equalityI)
        (simp_all add: dscp_inc_def DSCPStats_sum_def DSCPStats_incStats_def Let_def nth_list_update dscp_add_def
          traffic_counter_defs ac_simps)
  qed
qed (auto simp: dscp_inc_def DSCPStats_new_def DSCPStats_incStats_def Let_def)

section \<open>PacketStats\<close>

record packet_stats =
  upTo64 :: u64
  upTo128 :: u64
  upTo256 :: u64
  upTo512 :: u64
  upTo1024 :: u64
  upTo1518 :: u64
  upTo2500 :: u64
  upTo6500 :: u64
  upTo9000 :: u64
  above9000 :: u64
  ps_syn :: u64
  ps_synack :: u64
  ps_finack :: u64
  ps_rst :: u64

definition PacketStats_resetStats :: packet_stats where
  "PacketStats_resetStats =
     \<lparr> upTo64 = 0, upTo128 = 0, upTo256 = 0, upTo512 = 0, upTo1024 = 0, upTo1518 = 0, upTo2500 = 0,
       upTo6500 = 0, upTo9000 = 0, above9000 = 0, ps_syn = 0, ps_synack = 0, ps_finack = 0, ps_rst = 0 \<rparr>"

definition PacketStats_incStats :: "u32 \<Rightarrow> u32 \<Rightarrow> packet_stats \<Rightarrow> packet_stats" where
  "PacketStats_incStats num_pkts pkt_len s =
     (if pkt_len \<le> 64 then s\<lparr>upTo64 := upTo64 s + ucast num_pkts\<rparr>
      else if pkt_len \<le> 128 then s\<lparr>upTo128 := upTo128 s + ucast num_pkts\<rparr>
      else if pkt_len \<le> 256 then s\<lparr>upTo256 := upTo256 s + ucast num_pkts\<rparr>
      else if pkt_len \<le> 512 then s\<lparr>upTo512 := upTo512 s + ucast num_pkts\<rparr>
      else if pkt_len \<le> 1024 then s\<lparr>upTo1024 := upTo1024 s + ucast num_pkts\<rparr>
      else if pkt_len \<le> 1518 then s\<lparr>upTo1518 := upTo1518 s + ucast num_pkts\<rparr>
      else if pkt_len \<le> 2500 then s\<lparr>upTo2500 := upTo2500 s + ucast num_pkts\<rparr>
      else if pkt_len \<le> 6500 then s\<lparr>upTo6500 := upTo6500 s + ucast num_pkts\<rparr>
      else if pkt_len \<le> 9000 then s\<lparr>upTo9000 := upTo9000 s + ucast num_pkts\<rparr>
      else s\<lparr>above9000 := above9000 s + ucast num_pkts\<rparr>)"

definition incFlagStatsSingleSegment :: "u8 \<Rightarrow> packet_stats \<Rightarrow> packet_stats" where
  "incFlagStatsSingleSegment flags s =
     (let s = (if flags = TH_SYN then s\<lparr>ps_syn := ps_syn s + 1\<rparr>
               else if flags = TH_SYN OR TH_ACK then s\<lparr>ps_synack := ps_synack s + 1\<rparr>
               else if flags = TH_FIN OR TH_ACK then s\<lparr>ps_finack := ps_finack s + 1\<rparr> else s)
      in if flags AND TH_RST = TH_RST then s\<lparr>ps_rst := ps_rst s + 1\<rparr> else s)"

definition incFlagStatsCumulative :: "u8 \<Rightarrow> packet_stats \<Rightarrow> packet_stats" where
  "incFlagStatsCumulative flags s =
     (let s = (if flags AND TH_SYN = TH_SYN then s\<lparr>ps_syn := ps_syn s + 1\<rparr> else s);
          s = (if flags AND (TH_SYN OR TH_ACK) = TH_SYN OR TH_ACK then s\<lparr>ps_synack := ps_synack s + 1\<rparr> else s);
          s = (if flags AND (TH_FIN OR TH_ACK) = TH_FIN OR TH_ACK then s\<lparr>ps_finack := ps_finack s + 1\<rparr> else s)
      in if flags AND TH_RST = TH_RST then s\<lparr>ps_rst := ps_rst s + 1\<rparr> else s)"

definition incFlagStats :: "u8 \<Rightarrow> bool \<Rightarrow> packet_stats \<Rightarrow> packet_stats" where
  "incFlagStats flags cumulative_flags s =
     (if cumulative_flags then incFlagStatsCumulative flags s else incFlagStatsSingleSegment flags s)"

text \<open>\<open>upTo128\<close> is listed twice, as in the code.\<close>

definition PacketStats_sum :: "packet_stats \<Rightarrow> packet_stats \<Rightarrow> packet_stats" where
  "PacketStats_sum a s =
     (let s = s\<lparr>upTo64 := upTo64 s + upTo64 a\<rparr>;
          s = s\<lparr>upTo128 := upTo128 s + upTo128 a\<rparr>;
          s = s\<lparr>upTo128 := upTo128 s + upTo128 a\<rparr>
      in s\<lparr>upTo256 := upTo256 s + upTo256 a, upTo512 := upTo512 s + upTo512 a,
           upTo1024 := upTo1024 s + upTo1024 a, upTo1518 := upTo1518 s + upTo1518 a,
           upTo2500 := upTo2500 s + upTo2500 a, upTo6500 := upTo6500 s + upTo6500 a,
           upTo9000 := upTo9000 s + upTo9000 a, above9000 := above9000 s + above9000 a,
           ps_syn := ps_syn s + ps_syn a, ps_synack := ps_synack s + ps_synack a,
           ps_finack := ps_finack s + ps_finack a, ps_rst := ps_rst s + ps_rst a\<rparr>)"

section \<open>EthStats\<close>

record eth_stats =
  rawIngress :: proto_stats
  rawEgress :: proto_stats
  eth_IPv4 :: proto_stats
  eth_IPv6 :: proto_stats
  eth_ARP :: proto_stats
  eth_MPLS :: proto_stats
  eth_other :: proto_stats

definition EthStats_cleanup :: eth_stats where
  "EthStats_cleanup =
     (let z = ProtoStats_reset
      in \<lparr> rawIngress = z, rawEgress = z, eth_IPv4 = z, eth_IPv6 = z, eth_ARP = z, eth_MPLS = z, eth_other = z \<rparr>)"

definition EthStats_incStats :: "bool \<Rightarrow> u32 \<Rightarrow> u32 \<Rightarrow> u32 \<Rightarrow> eth_stats \<Rightarrow> eth_stats" where
  "EthStats_incStats ingressPacket num_pkts num_bytes pkt_overhead s =
     (let b = num_bytes + pkt_overhead * num_pkts
      in if ingressPacket then s\<lparr>rawIngress := ProtoStats_inc num_pkts b (rawIngress s)\<rparr>
         else s\<lparr>rawEgress := ProtoStats_inc num_pkts b (rawEgress s)\<rparr>)"

definition EthStats_incProtoStats :: "u16 \<Rightarrow> u32 \<Rightarrow> u32 \<Rightarrow> eth_stats \<Rightarrow> eth_stats" where
  "EthStats_incProtoStats proto num_pkts num_bytes s =
     (if proto = 0x0806 then s\<lparr>eth_ARP := ProtoStats_inc num_pkts num_bytes (eth_ARP s)\<rparr>
      else if proto = 0x0800 then s\<lparr>eth_IPv4 := ProtoStats_inc num_pkts num_bytes (eth_IPv4 s)\<rparr>
      else if proto = 0x86DD then s\<lparr>eth_IPv6 := ProtoStats_inc num_pkts num_bytes (eth_IPv6 s)\<rparr>
      else if proto = 0x8847 \<or> proto = 0x8848 then s\<lparr>eth_MPLS := ProtoStats_inc num_pkts num_bytes (eth_MPLS s)\<rparr>
      else s\<lparr>eth_other := ProtoStats_inc num_pkts num_bytes (eth_other s)\<rparr>)"

definition EthStats_getNumPackets :: "eth_stats \<Rightarrow> u64" where
  "EthStats_getNumPackets s = numPkts (rawIngress s) + numPkts (rawEgress s)"

definition EthStats_getNumBytes :: "eth_stats \<Rightarrow> u64" where
  "EthStats_getNumBytes s = numBytes (rawIngress s) + numBytes (rawEgress s)"

definition EthStats_sum :: "eth_stats \<Rightarrow> eth_stats \<Rightarrow> eth_stats" where
  "EthStats_sum a e =
     e\<lparr>rawIngress := ProtoStats_sum (rawIngress a) (rawIngress e),
       rawEgress := ProtoStats_sum (rawEgress a) (rawEgress e),
       eth_IPv4 := ProtoStats_sum (eth_IPv4 a) (eth_IPv4 e), eth_IPv6 := ProtoStats_sum (eth_IPv6 a) (eth_IPv6 e),
       eth_ARP := ProtoStats_sum (eth_ARP a) (eth_ARP e), eth_MPLS := ProtoStats_sum (eth_MPLS a) (eth_MPLS e),
       eth_other := ProtoStats_sum (eth_other a) (eth_other e)\<rparr>"

datatype eth_event = E_raw bool u32 u32 u32 | E_proto u16 u32 u32

fun eth_inc :: "eth_event \<Rightarrow> eth_stats \<Rightarrow> eth_stats" where
  "eth_inc (E_raw i n b ov) s = EthStats_incStats i n b ov s"
| "eth_inc (E_proto p n b) s = EthStats_incProtoStats p n b s"

interpretation eth: mergeable "\<lambda>_. True" EthStats_cleanup eth_inc EthStats_sum
proof
  show "EthStats_sum EthStats_cleanup s = s" for s
    by (simp add: EthStats_sum_def EthStats_cleanup_def Let_def proto.merge_zero)
  show "EthStats_sum (eth_inc e a) s = eth_inc e (EthStats_sum a s)" for e a s
    using proto.merge_inc [where e = "(n, b)" for n b, simplified]
    by (cases e) (simp_all add: EthStats_sum_def EthStats_incStats_def EthStats_incProtoStats_def Let_def)
qed simp_all

section \<open>ProtoCounter, CategoryCounter and nDPIStats\<close>

record proto_counter =
  pc_packets :: traffic_counter
  pc_bytes :: traffic_counter
  pc_duration :: u32
  last_epoch_update :: u32
  total_flows :: u32

definition ProtoCounter_new :: proto_counter where
  "ProtoCounter_new = \<lparr> pc_packets = TrafficCounter_resetStats, pc_bytes = TrafficCounter_resetStats,
     pc_duration = 0, last_epoch_update = 0, total_flows = 0 \<rparr>"

text \<open>\<open>freq\<close> is the housekeeping frequency of the preferences.\<close>

definition ProtoCounter_incStats ::
  "u32 \<Rightarrow> u32 \<Rightarrow> u64 \<Rightarrow> u64 \<Rightarrow> u64 \<Rightarrow> u64 \<Rightarrow> proto_counter \<Rightarrow> proto_counter" where
  "ProtoCounter_incStats freq when sent_packets sent_bytes rcvd_packets rcvd_bytes c =
     (let c = c\<lparr>pc_packets := TrafficCounter_incStats sent_packets rcvd_packets (pc_packets c),
                pc_bytes := TrafficCounter_incStats sent_bytes rcvd_bytes (pc_bytes c)\<rparr>
      in if when \<noteq> 0 \<and> when - last_epoch_update c \<ge> freq
         then c\<lparr>pc_duration := pc_duration c + freq, last_epoch_update := when\<rparr> else c)"

text \<open>\<open>ProtoCounter_sum p self\<close> adds \<open>p\<close> to the object it is called on.\<close>

definition ProtoCounter_sum :: "proto_counter \<Rightarrow> proto_counter \<Rightarrow> proto_counter" where
  "ProtoCounter_sum p self =
     self\<lparr>pc_packets := TrafficCounter_incStats (tc_sent (pc_packets p)) (tc_rcvd (pc_packets p)) (pc_packets self),
          pc_bytes := TrafficCounter_incStats (tc_sent (pc_bytes p)) (tc_rcvd (pc_bytes p)) (pc_bytes self),
          pc_duration := pc_duration self + pc_duration p, total_flows := total_flows self + total_flows p\<rparr>"

record category_counter =
  cc_bytes :: traffic_counter
  cc_duration :: u32
  cc_last_epoch_update :: u32

definition CategoryCounter_new :: category_counter where
  "CategoryCounter_new = \<lparr> cc_bytes = TrafficCounter_resetStats, cc_duration = 0, cc_last_epoch_update = 0 \<rparr>"

definition CategoryCounter_incStats :: "u32 \<Rightarrow> u32 \<Rightarrow> u64 \<Rightarrow> u64 \<Rightarrow> category_counter \<Rightarrow> category_counter" where
  "CategoryCounter_incStats freq when sent_bytes rcvd_bytes c =
     (let c = c\<lparr>cc_bytes := TrafficCounter_incStats sent_bytes rcvd_bytes (cc_bytes c)\<rparr>
      in if when \<noteq> 0 \<and> when - cc_last_epoch_update c \<ge> freq
         then c\<lparr>cc_duration := cc_duration c + freq, cc_last_epoch_update := when\<rparr> else c)"

definition CategoryCounter_sum :: "category_counter \<Rightarrow> category_counter \<Rightarrow> category_counter" where
  "CategoryCounter_sum c self = self\<lparr>cc_bytes := TrafficCounter_sum (cc_bytes c) (cc_bytes self),
                                     cc_duration := cc_duration self + cc_duration c\<rparr>"

record ndpi_stats =
  nd_counters :: "u16 \<rightharpoonup> proto_counter"
  cat_counters :: "u16 \<rightharpoonup> category_counter"

definition nDPIStats_new :: ndpi_stats where
  "nDPIStats_new = \<lparr> nd_counters = Map.empty, cat_counters = Map.empty \<rparr>"

text \<open>Allocations succeed.\<close>

definition nDPIStats_incStats ::
  "u32 \<Rightarrow> u32 \<Rightarrow> u16 \<Rightarrow> u64 \<Rightarrow> u64 \<Rightarrow> u64 \<Rightarrow> u64 \<Rightarrow> ndpi_stats \<Rightarrow> ndpi_stats" where
  "nDPIStats_incStats freq when proto_id sent_packets sent_bytes rcvd_packets rcvd_bytes s =
     (let pc = (case nd_counters s proto_id of Some pc \<Rightarrow> pc | None \<Rightarrow> ProtoCounter_new)
      in s\<lparr>nd_counters := (nd_counters s)(proto_id \<mapsto>
           ProtoCounter_incStats freq when sent_packets sent_bytes rcvd_packets rcvd_bytes pc)\<rparr>)"

definition nDPIStats_incCategoryStats ::
  "u32 \<Rightarrow> u32 \<Rightarrow> u16 \<Rightarrow> u64 \<Rightarrow> u64 \<Rightarrow> ndpi_stats \<Rightarrow> ndpi_stats" where
  "nDPIStats_incCategoryStats freq when category_id sent_bytes rcvd_bytes s =
     (let c = (case cat_counters s category_id of Some c \<Rightarrow> c | None \<Rightarrow> CategoryCounter_new)
      in s\<lparr>cat_counters := (cat_counters s)(category_id \<mapsto>
           CategoryCounter_incStats freq when sent_bytes rcvd_bytes c)\<rparr>)"

definition nDPIStats_incFlowsStats :: "u16 \<Rightarrow> ndpi_stats \<Rightarrow> ndpi_stats" where
  "nDPIStats_incFlowsStats proto_id s =
     (case nd_counters s proto_id of
        None \<Rightarrow> s
      | Some pc \<Rightarrow> s\<lparr>nd_counters := (nd_counters s)(proto_id \<mapsto> pc\<lparr>total_flows := total_flows pc + 1\<rparr>)\<rparr>)"

text \<open>The two loops visit distinct keys.\<close>

definition nDPIStats_sum :: "ndpi_stats \<Rightarrow> ndpi_stats \<Rightarrow> ndpi_stats" where
  "nDPIStats_sum a s =
     s\<lparr>nd_counters := (\<lambda>k. case nd_counters a k of
          None \<Rightarrow> nd_counters s k
        | Some c \<Rightarrow> Some (ProtoCounter_sum c (case nd_counters s k of Some p \<Rightarrow> p | None \<Rightarrow> ProtoCounter_new))),
       cat_counters := (\<lambda>k. case cat_counters a k of
          None \<Rightarrow> cat_counters s k
        | Some c \<Rightarrow> Some (case cat_counters s k of None \<Rightarrow> c | Some d \<Rightarrow> CategoryCounter_sum c d))\<rparr>"

definition nDPIStats_resetStats :: "ndpi_stats \<Rightarrow> ndpi_stats" where
  "nDPIStats_resetStats s =
     s\<lparr>nd_counters := map_option (\<lambda>_. ProtoCounter_new) \<circ> nd_counters s,
       cat_counters := map_option (\<lambda>_. CategoryCounter_new) \<circ> cat_counters s\<rparr>"

definition getProtoBytes :: "u16 \<Rightarrow> ndpi_stats \<Rightarrow> u64" where
  "getProtoBytes proto_id s = (case nd_counters s proto_id of Some pc \<Rightarrow> getTotal (pc_bytes pc) | None \<Rightarrow> 0)"

definition getCategoryBytes :: "u16 \<Rightarrow> ndpi_stats \<Rightarrow> u64" where
  "getCategoryBytes category_id s =
     (case cat_counters s category_id of Some c \<Rightarrow> getTotal (cc_bytes c) | None \<Rightarrow> 0)"

definition getProtoDuration :: "u16 \<Rightarrow> ndpi_stats \<Rightarrow> u32" where
  "getProtoDuration proto_id s = (case nd_counters s proto_id of Some pc \<Rightarrow> pc_duration pc | None \<Rightarrow> 0)"

lemma nDPIStats_sum_bytes:
  "getProtoBytes p (nDPIStats_sum a s) = getProtoBytes p a + getProtoBytes p s"
  "getCategoryBytes c (nDPIStats_sum a s) = getCategoryBytes c a + getCategoryBytes c s"
  "getProtoDuration p (nDPIStats_sum a s) = getProtoDuration p a + getProtoDuration p s"
  by (auto simp: getProtoBytes_def getCategoryBytes_def getProtoDuration_def nDPIStats_sum_def ProtoCounter_sum_def
      CategoryCounter_sum_def getTotal_def traffic_counter_defs ProtoCounter_new_def split: option.split)

section \<open>ICMPstats\<close>

record icmp_counter =
  pkt_sent :: u16
  pkt_rcvd :: u16

record icmp_stats =
  ic_stats :: "u16 \<rightharpoonup> icmp_counter"
  num_destination_unreachable :: u32

definition ICMPstats_new :: icmp_stats where
  "ICMPstats_new = \<lparr> ic_stats = Map.empty, num_destination_unreachable = 0 \<rparr>"

definition get_typecode :: "u8 \<Rightarrow> u8 \<Rightarrow> u16" where
  "get_typecode icmp_type icmp_code = push_bit 8 (ucast icmp_type) + ucast icmp_code"

definition to_typecode :: "u16 \<Rightarrow> u8 \<times> u8" where
  "to_typecode type_code = (ucast (drop_bit 8 type_code AND 0xFF), ucast (type_code AND 0xFF))"

definition ICMPstats_incStats :: "u32 \<Rightarrow> u8 \<Rightarrow> u8 \<Rightarrow> bool \<Rightarrow> icmp_stats \<Rightarrow> icmp_stats" where
  "ICMPstats_incStats num_pkts icmp_type icmp_code sent s =
     (if num_pkts = 0 then s
      else
        let key = get_typecode icmp_type icmp_code;
            c = (case ic_stats s key of Some c \<Rightarrow> c | None \<Rightarrow> \<lparr> pkt_sent = 0, pkt_rcvd = 0 \<rparr>);
            s = (if icmp_type = 3
                 then s\<lparr>num_destination_unreachable := num_destination_unreachable s + num_pkts\<rparr> else s);
            c = (if sent then c\<lparr>pkt_sent := pkt_sent c + ucast num_pkts\<rparr>
                 else c\<lparr>pkt_rcvd := pkt_rcvd c + ucast num_pkts\<rparr>)
        in s\<lparr>ic_stats := (ic_stats s)(key \<mapsto> c)\<rparr>)"

text \<open>\<open>e\<close> is added to the object; its counters replace those of the object.\<close>

definition ICMPstats_sum :: "icmp_stats \<Rightarrow> icmp_stats \<Rightarrow> icmp_stats" where
  "ICMPstats_sum e self =
     self\<lparr>ic_stats := (\<lambda>k. case ic_stats e k of
        None \<Rightarrow> ic_stats self k
      | Some cur \<Rightarrow>
          (let c = (case ic_stats self k of Some c \<Rightarrow> c | None \<Rightarrow> \<lparr> pkt_sent = 0, pkt_rcvd = 0 \<rparr>)
           in Some (c\<lparr>pkt_sent := pkt_sent cur, pkt_rcvd := pkt_rcvd cur\<rparr>)))\<rparr>"

record ts_icmp_stats =
  echo_packets_sent :: u16
  echo_packets_rcvd :: u16
  echo_reply_packets_sent :: u16
  echo_reply_packets_rcvd :: u16

text \<open>\<open>t\<close> is the content of the caller's struct before the call.\<close>

definition getTsStats :: "icmp_stats \<Rightarrow> ts_icmp_stats \<Rightarrow> ts_icmp_stats" where
  "getTsStats s t =
     (let t = t\<lparr>echo_packets_sent := 0, echo_packets_rcvd := 0\<rparr>;
          t = (case ic_stats s (get_typecode 8 0) of None \<Rightarrow> t
               | Some c \<Rightarrow> t\<lparr>echo_packets_sent := pkt_sent c, echo_packets_rcvd := pkt_rcvd c\<rparr>)
      in (case ic_stats s (get_typecode 0 0) of None \<Rightarrow> t
          | Some c \<Rightarrow> t\<lparr>echo_reply_packets_sent := pkt_sent c, echo_reply_packets_rcvd := pkt_rcvd c\<rparr>))"

lemma typecode_roundtrip: "to_typecode (get_typecode t c) = (t, c)"
proof -
  have "push_bit 8 (ucast t) + ucast c = (push_bit 8 (ucast t) OR ucast c :: u16)"
    by (rule disjunctive_add_eq_or, rule bit_word_eqI) (auto simp: bit_simps dest: bit_imp_le_length)
  moreover have "\<not> bit c (8 + n)" for n using bit_imp_le_length [of c "8 + n"] by auto
  moreover have "x AND 0xFF = take_bit 8 x" for x :: u16 by (simp add: take_bit_eq_mask mask_eq_exp_minus_1)
  ultimately show ?thesis
    unfolding to_typecode_def get_typecode_def
    by (auto simp: bit_simps intro!: bit_word_eqI)
qed

section \<open>RoundTripStats\<close>

definition ROUND_TRIP_LENGTH :: nat where "ROUND_TRIP_LENGTH = 30"

record rt_stats =
  rt_points :: "u32 list"
  stats_it :: nat

definition RoundTripStats_new :: rt_stats where
  "RoundTripStats_new = \<lparr> rt_points = replicate ROUND_TRIP_LENGTH 0, stats_it = ROUND_TRIP_LENGTH - 1 \<rparr>"

definition addPoint :: "u32 \<Rightarrow> rt_stats \<Rightarrow> rt_stats" where
  "addPoint data r =
     (let i = (stats_it r + 1) mod ROUND_TRIP_LENGTH in r\<lparr>stats_it := i, rt_points := (rt_points r)[i := data]\<rparr>)"

definition rt_sum_step :: "rt_stats \<Rightarrow> nat \<Rightarrow> rt_stats \<Rightarrow> rt_stats" where
  "rt_sum_step a k r =
     (let d = (stats_it r + ROUND_TRIP_LENGTH - k) mod ROUND_TRIP_LENGTH;
          s = (stats_it a + ROUND_TRIP_LENGTH - k) mod ROUND_TRIP_LENGTH
      in r\<lparr>rt_points := (rt_points r)[d := rt_points r ! d + rt_points a ! s]\<rparr>)"

definition RoundTripStats_sum :: "rt_stats \<Rightarrow> rt_stats \<Rightarrow> rt_stats" where
  "RoundTripStats_sum a r = fold (rt_sum_step a) [0..<ROUND_TRIP_LENGTH] r"

text \<open>The points, newest first: what luaRTStats prints from the last place down.\<close>

definition newest_first :: "rt_stats \<Rightarrow> u32 list" where
  "newest_first r = map (\<lambda>k. rt_points r ! ((stats_it r + ROUND_TRIP_LENGTH - k) mod ROUND_TRIP_LENGTH)) [0..<ROUND_TRIP_LENGTH]"

definition rt_ok :: "rt_stats \<Rightarrow> bool" where
  "rt_ok r \<longleftrightarrow> length (rt_points r) = ROUND_TRIP_LENGTH \<and> stats_it r < ROUND_TRIP_LENGTH"

lemma rt_ok_new: "rt_ok RoundTripStats_new"
  by (simp add: rt_ok_def RoundTripStats_new_def ROUND_TRIP_LENGTH_def)

lemma rt_ok_addPoint: "rt_ok r \<Longrightarrow> rt_ok (addPoint d r)"
  by (simp add: rt_ok_def addPoint_def Let_def ROUND_TRIP_LENGTH_def)

lemma rt_ok_fold: "rt_ok r \<Longrightarrow> rt_ok (fold addPoint ds r)"
  by (induction ds arbitrary: r) (simp_all add: rt_ok_addPoint)

text \<open>The slot of the \<open>k\<close>-th newest point.\<close>

definition rt_slot :: "nat \<Rightarrow> nat \<Rightarrow> nat" where
  "rt_slot i k = (if k \<le> i then i - k else i + 30 - k)"

lemma rt_slot_mod: "i < 30 \<Longrightarrow> k < 30 \<Longrightarrow> (i + 30 - k) mod 30 = rt_slot i k"
  by (auto simp: rt_slot_def mod_if)

lemma rt_slot_less: "i < 30 \<Longrightarrow> k < 30 \<Longrightarrow> rt_slot i k < 30"
  by (auto simp: rt_slot_def)

lemma rt_slot_inj: "i < 30 \<Longrightarrow> k < 30 \<Longrightarrow> l < 30 \<Longrightarrow> rt_slot i k = rt_slot i l \<longleftrightarrow> k = l"
  by (auto simp: rt_slot_def split: if_splits)

lemma newest_first_slot:
  "rt_ok r \<Longrightarrow> newest_first r = map (\<lambda>k. rt_points r ! rt_slot (stats_it r) k) [0..<30]"
  by (simp add: newest_first_def rt_ok_def ROUND_TRIP_LENGTH_def rt_slot_mod)

lemma newest_first_addPoint:
  assumes "rt_ok r"
  shows "newest_first (addPoint d r) = take 30 (d # newest_first r)"
proof (rule nth_equalityI)
  let ?i = "(stats_it r + 1) mod 30"
  have i: "stats_it r < 30" "?i < 30" "length (rt_points r) = 30"
    using assms by (simp_all add: rt_ok_def ROUND_TRIP_LENGTH_def)
  note L = newest_first_slot [OF rt_ok_addPoint [OF assms]] newest_first_slot [OF assms]
  show "length (newest_first (addPoint d r)) = length (take 30 (d # newest_first r))" by (simp add: L)
  fix k assume "k < length (newest_first (addPoint d r))"
  then have k: "k < 30" by (simp add: L)
  show "newest_first (addPoint d r) ! k = take 30 (d # newest_first r) ! k"
  proof (cases k)
    case 0
    then show ?thesis
      using i unfolding L by (simp add: addPoint_def Let_def ROUND_TRIP_LENGTH_def rt_slot_def)
  next
    case (Suc j)
    then have j: "j < 30" "Suc j < 30" using k by simp_all
    have "rt_slot ?i (Suc j) = rt_slot (stats_it r) j"
      using i(1) j by (auto simp: rt_slot_def mod_if)
    moreover have "rt_slot ?i (Suc j) \<noteq> ?i"
      using rt_slot_inj [OF i(2), of "Suc j" 0] j by (simp add: rt_slot_def)
    ultimately show ?thesis
      using Suc i j unfolding L by (simp add: addPoint_def Let_def ROUND_TRIP_LENGTH_def)
  qed
qed

lemma newest_first_history:
  "rt_ok r \<Longrightarrow> newest_first (fold addPoint ds r) = take 30 (rev ds @ newest_first r)"
proof (induction ds arbitrary: r)
  case Nil
  then show ?case by (simp add: newest_first_slot)
next
  case (Cons d ds)
  have "newest_first (fold addPoint (d # ds) r) = take 30 (rev ds @ newest_first (addPoint d r))"
    using Cons.IH [OF rt_ok_addPoint [OF Cons.prems]] by simp
  then show ?case by (simp add: newest_first_addPoint [OF Cons.prems] take_Cons' split: nat_diff_split)
qed

lemma rt_sum_fold:
  assumes "rt_ok a" "rt_ok r" "n \<le> 30"
  shows "stats_it (fold (rt_sum_step a) [0..<n] r) = stats_it r
    \<and> length (rt_points (fold (rt_sum_step a) [0..<n] r)) = 30
    \<and> (\<forall>k < 30. rt_points (fold (rt_sum_step a) [0..<n] r) ! rt_slot (stats_it r) k =
        rt_points r ! rt_slot (stats_it r) k + (if k < n then rt_points a ! rt_slot (stats_it a) k else 0))"
  using assms(3)
proof (induction n)
  case 0
  then show ?case using assms by (simp add: rt_ok_def ROUND_TRIP_LENGTH_def)
next
  case (Suc n)
  let ?r = "fold (rt_sum_step a) [0..<n] r"
  have n: "n < 30" and i: "stats_it r < 30" "stats_it a < 30"
    using Suc.prems assms by (simp_all add: rt_ok_def ROUND_TRIP_LENGTH_def)
  have IH: "stats_it ?r = stats_it r" "length (rt_points ?r) = 30"
    "\<And>k. k < 30 \<Longrightarrow> rt_points ?r ! rt_slot (stats_it r) k =
       rt_points r ! rt_slot (stats_it r) k + (if k < n then rt_points a ! rt_slot (stats_it a) k else 0)"
    using Suc.IH Suc.prems by simp_all
  have step: "rt_sum_step a n ?r = ?r\<lparr>rt_points := (rt_points ?r)[rt_slot (stats_it r) n :=
      rt_points ?r ! rt_slot (stats_it r) n + rt_points a ! rt_slot (stats_it a) n]\<rparr>"
    using IH(1) n i by (simp add: rt_sum_step_def Let_def ROUND_TRIP_LENGTH_def rt_slot_mod)
  have "rt_points (rt_sum_step a n ?r) ! rt_slot (stats_it r) k = rt_points r ! rt_slot (stats_it r) k
      + (if k < Suc n then rt_points a ! rt_slot (stats_it a) k else 0)" if "k < 30" for k
    using IH(3) [OF that] IH(3) [OF n] IH(2) rt_slot_less [OF i(1) that] rt_slot_inj [OF i(1) that n]
    by (simp add: step nth_list_update less_Suc_eq) auto
  then show ?case using IH(1,2) by (simp add: step)
qed

lemma newest_first_sum:
  assumes "rt_ok a" "rt_ok r"
  shows "newest_first (RoundTripStats_sum a r) = map2 (+) (newest_first r) (newest_first a)"
proof -
  note S = rt_sum_fold [OF assms, of 30, simplified]
  have "rt_ok (RoundTripStats_sum a r)"
    using S assms by (simp add: RoundTripStats_sum_def rt_ok_def ROUND_TRIP_LENGTH_def)
  from newest_first_slot [OF this] show ?thesis
    using S by (intro nth_equalityI)
      (simp_all add: newest_first_slot assms RoundTripStats_sum_def ROUND_TRIP_LENGTH_def)
qed

text \<open>The sums of a view over its interfaces, each with its own history of events.\<close>

definition merge_all :: "('s \<Rightarrow> 's \<Rightarrow> 's) \<Rightarrow> ('e \<Rightarrow> 's \<Rightarrow> 's) \<Rightarrow> 's \<Rightarrow> 'e list list \<Rightarrow> 's" where
  "merge_all merge inc zero ess = fold (\<lambda>es s. merge (fold inc es zero) s) ess zero"

section \<open>Properties\<close>

text \<open>
  C21: Summing the counters of the interfaces gathered by a view, one interface after the
  other, gives the counters of one interface that saw all their events: nothing is
  lost or counted twice in the Ethernet, local-traffic, TCP and DSCP statistics.
\<close>
theorem interface_counters_merge:
  "merge_all EthStats_sum eth_inc EthStats_cleanup eths = fold eth_inc (concat eths) EthStats_cleanup
    \<and> merge_all LocalTrafficStats_sum local_inc LocalTrafficStats_new ls
        = fold local_inc (concat ls) LocalTrafficStats_new
    \<and> merge_all TcpPacketStats_sum tcp_inc TcpPacketStats_new ps = fold tcp_inc (concat ps) TcpPacketStats_new
    \<and> merge_all TcpFlowStats_sum tcp_flow_inc TcpFlowStats_new fs = fold tcp_flow_inc (concat fs) TcpFlowStats_new
    \<and> merge_all DSCPStats_sum dscp_inc DSCPStats_new ds = fold dscp_inc (concat ds) DSCPStats_new"
  unfolding merge_all_def
  by (intro conjI eth.merge_members local_traffic.merge_members tcp_packets.merge_members
      tcp_flows.merge_members dscp.merge_members dscp.ok_zero TrueI)

text \<open>The packets of a history whose length satisfies a condition, as a 64-bit count.\<close>

definition packets_in :: "(u32 \<Rightarrow> bool) \<Rightarrow> (u32 \<times> u32) list \<Rightarrow> u64" where
  "packets_in P h = (\<Sum>(n, l)\<leftarrow>h. if P l then ucast n else 0)"

lemma incStats_step:
  "upTo64 (PacketStats_incStats n l s) = upTo64 s + (if l \<le> 64 then ucast n else 0)"
  "upTo128 (PacketStats_incStats n l s) = upTo128 s + (if 64 < l \<and> l \<le> 128 then ucast n else 0)"
  "upTo256 (PacketStats_incStats n l s) = upTo256 s + (if 128 < l \<and> l \<le> 256 then ucast n else 0)"
  "upTo512 (PacketStats_incStats n l s) = upTo512 s + (if 256 < l \<and> l \<le> 512 then ucast n else 0)"
  "upTo1024 (PacketStats_incStats n l s) = upTo1024 s + (if 512 < l \<and> l \<le> 1024 then ucast n else 0)"
  "upTo1518 (PacketStats_incStats n l s) = upTo1518 s + (if 1024 < l \<and> l \<le> 1518 then ucast n else 0)"
  "upTo2500 (PacketStats_incStats n l s) = upTo2500 s + (if 1518 < l \<and> l \<le> 2500 then ucast n else 0)"
  "upTo6500 (PacketStats_incStats n l s) = upTo6500 s + (if 2500 < l \<and> l \<le> 6500 then ucast n else 0)"
  "upTo9000 (PacketStats_incStats n l s) = upTo9000 s + (if 6500 < l \<and> l \<le> 9000 then ucast n else 0)"
  "above9000 (PacketStats_incStats n l s) = above9000 s + (if 9000 < l then ucast n else 0)"
  by (auto simp: PacketStats_incStats_def word_le_nat_alt word_less_nat_alt)

lemma incStats_classes:
  "upTo64 (fold (\<lambda>(n, len). PacketStats_incStats n len) h s) = upTo64 s + packets_in (\<lambda>l. l \<le> 64) h
    \<and> upTo128 (fold (\<lambda>(n, len). PacketStats_incStats n len) h s) = upTo128 s + packets_in (\<lambda>l. 64 < l \<and> l \<le> 128) h
    \<and> upTo256 (fold (\<lambda>(n, len). PacketStats_incStats n len) h s) = upTo256 s + packets_in (\<lambda>l. 128 < l \<and> l \<le> 256) h
    \<and> upTo512 (fold (\<lambda>(n, len). PacketStats_incStats n len) h s) = upTo512 s + packets_in (\<lambda>l. 256 < l \<and> l \<le> 512) h
    \<and> upTo1024 (fold (\<lambda>(n, len). PacketStats_incStats n len) h s) = upTo1024 s + packets_in (\<lambda>l. 512 < l \<and> l \<le> 1024) h
    \<and> upTo1518 (fold (\<lambda>(n, len). PacketStats_incStats n len) h s) = upTo1518 s + packets_in (\<lambda>l. 1024 < l \<and> l \<le> 1518) h
    \<and> upTo2500 (fold (\<lambda>(n, len). PacketStats_incStats n len) h s) = upTo2500 s + packets_in (\<lambda>l. 1518 < l \<and> l \<le> 2500) h
    \<and> upTo6500 (fold (\<lambda>(n, len). PacketStats_incStats n len) h s) = upTo6500 s + packets_in (\<lambda>l. 2500 < l \<and> l \<le> 6500) h
    \<and> upTo9000 (fold (\<lambda>(n, len). PacketStats_incStats n len) h s) = upTo9000 s + packets_in (\<lambda>l. 6500 < l \<and> l \<le> 9000) h
    \<and> above9000 (fold (\<lambda>(n, len). PacketStats_incStats n len) h s) = above9000 s + packets_in (\<lambda>l. 9000 < l) h"
proof (induction h arbitrary: s)
  case (Cons x h)
  obtain n l where x: "x = (n, l)" by fastforce
  show ?case
    using Cons.IH [of "PacketStats_incStats n l s"] by (simp add: x incStats_step packets_in_def add.assoc del: not_less)
qed (simp add: packets_in_def)

text \<open>
  C39: PacketStats::sum adds the packets of 65 to 128 bytes twice. For any history of packets on an
  interface, the sum into fresh counters, which NetworkInterface::lua prints, shows in each
  of the other nine size classes the packets of that size and in this class twice their number.
\<close>
theorem PacketStats_sum_doubles:
  "let t = PacketStats_sum (fold (\<lambda>(n, len). PacketStats_incStats n len) h PacketStats_resetStats) PacketStats_resetStats in
    upTo64 t = packets_in (\<lambda>l. l \<le> 64) h
    \<and> upTo128 t = 2 * packets_in (\<lambda>l. 64 < l \<and> l \<le> 128) h
    \<and> upTo256 t = packets_in (\<lambda>l. 128 < l \<and> l \<le> 256) h
    \<and> upTo512 t = packets_in (\<lambda>l. 256 < l \<and> l \<le> 512) h
    \<and> upTo1024 t = packets_in (\<lambda>l. 512 < l \<and> l \<le> 1024) h
    \<and> upTo1518 t = packets_in (\<lambda>l. 1024 < l \<and> l \<le> 1518) h
    \<and> upTo2500 t = packets_in (\<lambda>l. 1518 < l \<and> l \<le> 2500) h
    \<and> upTo6500 t = packets_in (\<lambda>l. 2500 < l \<and> l \<le> 6500) h
    \<and> upTo9000 t = packets_in (\<lambda>l. 6500 < l \<and> l \<le> 9000) h
    \<and> above9000 t = packets_in (\<lambda>l. 9000 < l) h"
proof -
  let ?s = "fold (\<lambda>(n, len). PacketStats_incStats n len) h PacketStats_resetStats"
  note c = incStats_classes [of h PacketStats_resetStats]
  have z: "upTo64 PacketStats_resetStats = 0" "upTo128 PacketStats_resetStats = 0" "upTo256 PacketStats_resetStats = 0"
    "upTo512 PacketStats_resetStats = 0" "upTo1024 PacketStats_resetStats = 0" "upTo1518 PacketStats_resetStats = 0"
    "upTo2500 PacketStats_resetStats = 0" "upTo6500 PacketStats_resetStats = 0" "upTo9000 PacketStats_resetStats = 0"
    "above9000 PacketStats_resetStats = 0"
    by (simp_all add: PacketStats_resetStats_def)
  show ?thesis using c by (simp add: PacketStats_sum_def Let_def z)
qed

text \<open>
  The class selectors CS0 to CS6 (the codepoints 8k) are counted in the precedence k,
  but CS7, the codepoint 56, is counted as unknown and the unassigned 57 as precedence 7.
\<close>
theorem ds2Precedence_class_selectors:
  "map (\<lambda>k. ds2Precedence (8 * k)) [0, 1, 2, 3, 4, 5, 6] = [0, 1, 2, 3, 4, 5, 6]
    \<and> ds2Precedence (8 * 7) = DS_PR_UNKN \<and> ds2Precedence 57 = 7"
  by (simp add: ds2Precedence_def ds_table_def DS_PR_UNKN_def)

text \<open>
  C23: The ring of round-trip statistics is the list of the last 30 points, newest first,
  and the sum of two rings adds the points of the same age, wherever the two rings
  have their newest point.
\<close>
theorem RoundTripStats_history:
  "newest_first (fold addPoint ds RoundTripStats_new) = take 30 (rev ds @ replicate 30 0)
    \<and> newest_first (RoundTripStats_sum (fold addPoint es RoundTripStats_new) (fold addPoint ds RoundTripStats_new))
      = map2 (+) (take 30 (rev ds @ replicate 30 0)) (take 30 (rev es @ replicate 30 0))"
proof -
  have "newest_first RoundTripStats_new = replicate 30 0"
    using rt_ok_new
    by (intro nth_equalityI) (simp_all add: newest_first_slot RoundTripStats_new_def ROUND_TRIP_LENGTH_def rt_slot_def)
  then have "newest_first (fold addPoint xs RoundTripStats_new) = take 30 (rev xs @ replicate 30 0)" for xs
    using newest_first_history [OF rt_ok_new] by simp
  then show ?thesis by (simp add: newest_first_sum rt_ok_fold rt_ok_new)
qed

text \<open>
  When no echo reply was seen, getTsStats leaves the two echo-reply fields of the
  caller's struct as they were: the time series show whatever the stack held.
\<close>
theorem getTsStats_uninitialised:
  assumes "\<forall>e \<in> set h. \<not> (fst (snd e) = 0 \<and> fst (snd (snd e)) = 0)"
  shows "let r = getTsStats (fold (\<lambda>(n, t, c, sent). ICMPstats_incStats n t c sent) h ICMPstats_new) garbage
    in echo_reply_packets_sent r = echo_reply_packets_sent garbage
      \<and> echo_reply_packets_rcvd r = echo_reply_packets_rcvd garbage"
proof -
  have "ic_stats (fold (\<lambda>(n, t, c, sent). ICMPstats_incStats n t c sent) h s) (get_typecode 0 0) = None"
    if "ic_stats s (get_typecode 0 0) = None" for s
    using assms that
  proof (induction h arbitrary: s)
    case (Cons e h)
    obtain n t c sent where e: "e = (n, t, c, sent)" by (cases e)
    have "get_typecode 0 0 \<noteq> get_typecode t c"
      using Cons.prems(1) e typecode_roundtrip [of t c] typecode_roundtrip [of 0 0] by auto
    then have "ic_stats (ICMPstats_incStats n t c sent s) (get_typecode 0 0) = None"
      using Cons.prems(2) by (simp add: ICMPstats_incStats_def Let_def)
    then show ?case using Cons.IH Cons.prems(1) e by simp
  qed simp
  then have "ic_stats (fold (\<lambda>(n, t, c, sent). ICMPstats_incStats n t c sent) h ICMPstats_new) (get_typecode 0 0) = None"
    by (simp add: ICMPstats_new_def)
  then show ?thesis by (simp add: getTsStats_def Let_def split: option.split)
qed

theorem getTsStats_uninitialised_witness:
  "echo_reply_packets_sent (getTsStats (ICMPstats_incStats 5 8 0 True ICMPstats_new)
     \<lparr> echo_packets_sent = 1, echo_packets_rcvd = 2, echo_reply_packets_sent = 777, echo_reply_packets_rcvd = 4 \<rparr>) = 777"
  using getTsStats_uninitialised [of "[(5, 8, 0, True)]"
      "\<lparr> echo_packets_sent = 1, echo_packets_rcvd = 2, echo_reply_packets_sent = 777, echo_reply_packets_rcvd = 4 \<rparr>"]
  by (simp add: Let_def)

end
