(* ===== verification/Tcp_Flow.thy ===== *)
theory Tcp_Flow
  imports Hash_Entry Host_Checks Flow_Traffic_Stats Traffic_Counters "HOL-Library.Signed_Division"
begin

text \<open>
  The TCP side of a flow, from src/src/Flow.cpp: the flags seen in each direction, the
  three-way handshake, the connection state (calculateConnectionState), the scan and flag
  counters of hosts, networks and interface (updateTcpFlags), zero windows and the analysis of the
  sequence numbers (updateTcpSeqNum); the order of the calls is that of
  NetworkInterface::processPacket, with the preference for the heuristic that swaps client and server switched
  off (it is on by default): checkTCPDirection then returns at once and is left out.
  Hosts and networks are stores, since the two ends may be one host or share a network.
  Round-trip times are kept in microseconds, as \<open>int\<close>, instead of a \<open>float\<close> of
  milliseconds; LocalHost::updateNetworkRTT, which only collects them, is left out.
\<close>

section \<open>State\<close>

record timeval =
  tv_sec :: int
  tv_usec :: int

record tcp_seq_num =
  seq_last :: u64
  seq_next :: u64

record tcp_stats =
  num_syn :: u8
  num_rst :: u8
  num_fin :: u8
  num_zero_window :: u8

record flow_tcp =
  tcp_seq_s2d :: tcp_seq_num
  tcp_seq_d2s :: tcp_seq_num
  cli2srv_window :: u16
  srv2cli_window :: u16
  synTime :: timeval
  synAckTime :: timeval
  ackTime :: timeval
  clientRTT3WH :: int
  serverRTT3WH :: int
  last_network_issues :: int

definition FlowTCP_calloc :: flow_tcp where
  "FlowTCP_calloc =
     (let z = \<lparr> tv_sec = 0, tv_usec = 0 \<rparr>; s = \<lparr> seq_last = 0, seq_next = 0 \<rparr>
      in \<lparr> tcp_seq_s2d = s, tcp_seq_d2s = s, cli2srv_window = 0, srv2cli_window = 0, synTime = z,
           synAckTime = z, ackTime = z, clientRTT3WH = 0, serverRTT3WH = 0, last_network_issues = 0 \<rparr>)"

datatype conn_state =
  MINOR_NO_STATE | S0 | S1 | SF | REJ | S2 | S3 | RSTO | RSTR | RSTOS0 | RSTRH | SH | SHR | OTH

datatype major_state = MAJOR_NO_STATE | ATTEMPTED | ESTABLISHED | CLOSED

record tcp_host =
  syn_sent_last_min :: u32
  syn_recvd_last_min :: u32
  synack_sent_last_min :: u32
  synack_recvd_last_min :: u32
  fin_sent_last_min :: u32
  fin_recvd_last_min :: u32
  finack_sent_last_min :: u32
  finack_recvd_last_min :: u32
  rst_attacker :: alert_counter
  rst_victim :: alert_counter
  sent_pkt_stats :: packet_stats
  recv_pkt_stats :: packet_stats
  network_stats :: "nat option"

record tcp_net =
  syn_flood_victim_alert :: alert_counter
  ns_syn_recvd_last_min :: u32
  ns_synack_sent_last_min :: u32

record tcp_world =
  tw_hosts :: "nat \<Rightarrow> tcp_host"
  tw_nets :: "nat \<Rightarrow> tcp_net"
  tw_pktStats :: packet_stats
  tw_tcpFlowStats :: tcp_flow_stats

record tcp_flow = flow_entry +
  proto_tcp :: bool
  tf_cli :: "nat option"
  tf_srv :: "nat option"
  tf_tcp :: "flow_tcp option"
  src2dst_tcp_zero_window :: bool
  dst2src_tcp_zero_window :: bool
  tcp_stats_cli2srv :: tcp_stats
  tcp_stats_srv2cli :: tcp_stats
  current_c_state :: conn_state
  twh_over :: bool
  twh_over_view :: bool
  rtt_usec :: int
  tf_stats :: partial_stats

section \<open>Counters of hosts and networks\<close>

definition updateSynAlertsCounter :: "bool \<Rightarrow> tcp_host \<Rightarrow> tcp_host" where
  "updateSynAlertsCounter syn_sent h =
     (if syn_sent then h\<lparr>syn_sent_last_min := syn_sent_last_min h + 1\<rparr>
      else h\<lparr>syn_recvd_last_min := syn_recvd_last_min h + 1\<rparr>)"

definition updateSynAckAlertsCounter :: "bool \<Rightarrow> tcp_host \<Rightarrow> tcp_host" where
  "updateSynAckAlertsCounter synack_sent h =
     (if synack_sent then h\<lparr>synack_sent_last_min := synack_sent_last_min h + 1\<rparr>
      else h\<lparr>synack_recvd_last_min := synack_recvd_last_min h + 1\<rparr>)"

definition updateFinAlertsCounter :: "bool \<Rightarrow> tcp_host \<Rightarrow> tcp_host" where
  "updateFinAlertsCounter fin_sent h =
     (if fin_sent then h\<lparr>fin_sent_last_min := fin_sent_last_min h + 1\<rparr>
      else h\<lparr>fin_recvd_last_min := fin_recvd_last_min h + 1\<rparr>)"

definition updateFinAckAlertsCounter :: "bool \<Rightarrow> tcp_host \<Rightarrow> tcp_host" where
  "updateFinAckAlertsCounter finack_sent h =
     (if finack_sent then h\<lparr>finack_sent_last_min := finack_sent_last_min h + 1\<rparr>
      else h\<lparr>finack_recvd_last_min := finack_recvd_last_min h + 1\<rparr>)"

definition updateRstAlertsCounter :: "int \<Rightarrow> bool \<Rightarrow> tcp_host \<Rightarrow> tcp_host" where
  "updateRstAlertsCounter when rst_sent h =
     (if rst_sent then h\<lparr>rst_attacker := AlertCounter_inc when (rst_attacker h)\<rparr>
      else h\<lparr>rst_victim := AlertCounter_inc when (rst_victim h)\<rparr>)"

definition Host_incFlagStats :: "u8 \<Rightarrow> bool \<Rightarrow> bool \<Rightarrow> tcp_host \<Rightarrow> tcp_host" where
  "Host_incFlagStats flags cumulative_flags as_client h =
     (if as_client then h\<lparr>sent_pkt_stats := incFlagStats flags cumulative_flags (sent_pkt_stats h)\<rparr>
      else h\<lparr>recv_pkt_stats := incFlagStats flags cumulative_flags (recv_pkt_stats h)\<rparr>)"

definition net_updateSynAlertsCounter :: "int \<Rightarrow> bool \<Rightarrow> tcp_net \<Rightarrow> tcp_net" where
  "net_updateSynAlertsCounter when syn_sent n =
     (if \<not> syn_sent then n\<lparr>syn_flood_victim_alert := AlertCounter_inc when (syn_flood_victim_alert n),
                          ns_syn_recvd_last_min := ns_syn_recvd_last_min n + 1\<rparr> else n)"

definition net_updateSynAckAlertsCounter :: "bool \<Rightarrow> tcp_net \<Rightarrow> tcp_net" where
  "net_updateSynAckAlertsCounter synack_sent n =
     (if synack_sent then n\<lparr>ns_synack_sent_last_min := ns_synack_sent_last_min n + 1\<rparr> else n)"

definition syn_scan_victim_hits :: "tcp_host \<Rightarrow> u32" where
  "syn_scan_victim_hits h =
     (if syn_recvd_last_min h > synack_sent_last_min h then syn_recvd_last_min h - synack_sent_last_min h else 0)"

definition syn_scan_attacker_hits :: "tcp_host \<Rightarrow> u32" where
  "syn_scan_attacker_hits h =
     (if syn_sent_last_min h > synack_recvd_last_min h then syn_sent_last_min h - synack_recvd_last_min h else 0)"

definition reset_syn_scan_hits :: "tcp_host \<Rightarrow> tcp_host" where
  "reset_syn_scan_hits h =
     h\<lparr>syn_sent_last_min := 0, synack_recvd_last_min := 0, syn_recvd_last_min := 0, synack_sent_last_min := 0\<rparr>"

definition fin_scan_victim_hits :: "tcp_host \<Rightarrow> u32" where
  "fin_scan_victim_hits h =
     (if fin_recvd_last_min h > finack_sent_last_min h then fin_recvd_last_min h - finack_sent_last_min h else 0)"

definition fin_scan_attacker_hits :: "tcp_host \<Rightarrow> u32" where
  "fin_scan_attacker_hits h =
     (if fin_sent_last_min h > finack_recvd_last_min h then fin_sent_last_min h - finack_recvd_last_min h else 0)"

definition reset_fin_scan_hits :: "tcp_host \<Rightarrow> tcp_host" where
  "reset_fin_scan_hits h =
     h\<lparr>fin_sent_last_min := 0, finack_recvd_last_min := 0, fin_recvd_last_min := 0, finack_sent_last_min := 0\<rparr>"

definition upd_host :: "nat option \<Rightarrow> (tcp_host \<Rightarrow> tcp_host) \<Rightarrow> tcp_world \<Rightarrow> tcp_world" where
  "upd_host p g w = (case p of None \<Rightarrow> w | Some i \<Rightarrow> w\<lparr>tw_hosts := (tw_hosts w)(i := g (tw_hosts w i))\<rparr>)"

definition upd_net :: "nat option \<Rightarrow> (tcp_net \<Rightarrow> tcp_net) \<Rightarrow> tcp_world \<Rightarrow> tcp_world" where
  "upd_net p g w = (case p of None \<Rightarrow> w | Some i \<Rightarrow> w\<lparr>tw_nets := (tw_nets w)(i := g (tw_nets w i))\<rparr>)"

definition net_of :: "nat option \<Rightarrow> tcp_world \<Rightarrow> nat option" where
  "net_of p w = (case p of None \<Rightarrow> None | Some i \<Rightarrow> network_stats (tw_hosts w i))"

text \<open>Calls on the client with the direction and on the server with its opposite.\<close>

definition both_hosts :: "(bool \<Rightarrow> tcp_host \<Rightarrow> tcp_host) \<Rightarrow> bool \<Rightarrow> tcp_flow \<Rightarrow> tcp_world \<Rightarrow> tcp_world" where
  "both_hosts g d f w = upd_host (tf_srv f) (g (\<not> d)) (upd_host (tf_cli f) (g d) w)"

definition both_nets :: "(bool \<Rightarrow> tcp_net \<Rightarrow> tcp_net) \<Rightarrow> bool \<Rightarrow> tcp_flow \<Rightarrow> tcp_world \<Rightarrow> tcp_world" where
  "both_nets g d f w = upd_net (net_of (tf_srv f) w) (g (\<not> d)) (upd_net (net_of (tf_cli f) w) (g d) w)"

definition upd_flow_stats :: "(tcp_flow_stats \<Rightarrow> tcp_flow_stats) \<Rightarrow> tcp_world \<Rightarrow> tcp_world" where
  "upd_flow_stats g w = w\<lparr>tw_tcpFlowStats := g (tw_tcpFlowStats w)\<rparr>"

section \<open>Connection state\<close>

definition TCP_3WH_MASK :: u8 where "TCP_3WH_MASK = 0xFF AND NOT (TH_ECE OR TH_CWR)"

definition isTCPFlagSet :: "u8 \<Rightarrow> u8 \<Rightarrow> bool" where
  "isTCPFlagSet tcp_flags flag_to_check \<longleftrightarrow> tcp_flags AND flag_to_check \<noteq> 0"

definition isTCPClosed :: "tcp_flow \<Rightarrow> bool" where
  "isTCPClosed f \<longleftrightarrow> tf_tcp f \<noteq> None \<and>
     (let m = TH_SYN OR TH_ACK OR TH_FIN
      in src2dst_tcp_flags f AND m = m \<and> dst2src_tcp_flags f AND m = m)"

definition isTCPReset :: "tcp_flow \<Rightarrow> bool" where
  "isTCPReset f \<longleftrightarrow> tf_tcp f \<noteq> None \<and> \<not> isTCPClosed f
     \<and> (src2dst_tcp_flags f AND TH_RST \<noteq> 0 \<or> dst2src_tcp_flags f AND TH_RST \<noteq> 0)"

definition isTCPEstablished :: "tcp_flow \<Rightarrow> bool" where
  "isTCPEstablished f \<longleftrightarrow> \<not> isTCPClosed f \<and> \<not> isTCPReset f \<and> isThreeWayHandshakeOK f"

definition isTCPConnecting :: "tcp_flow \<Rightarrow> bool" where
  "isTCPConnecting f \<longleftrightarrow> tf_tcp f \<noteq> None \<and> src2dst_tcp_flags f = TH_SYN
     \<and> (dst2src_tcp_flags f = 0 \<or> dst2src_tcp_flags f = TH_SYN OR TH_ACK)"

definition isTCPRefused :: "tcp_flow \<Rightarrow> bool" where
  "isTCPRefused f \<longleftrightarrow> tf_tcp f \<noteq> None \<and> \<not> isThreeWayHandshakeOK f \<and> dst2src_tcp_flags f AND TH_RST = TH_RST"

fun getMajorConnState :: "conn_state \<Rightarrow> major_state" where
  "getMajorConnState S0 = ATTEMPTED"
| "getMajorConnState REJ = ATTEMPTED"
| "getMajorConnState RSTOS0 = ATTEMPTED"
| "getMajorConnState RSTRH = ATTEMPTED"
| "getMajorConnState SH = ATTEMPTED"
| "getMajorConnState SHR = ATTEMPTED"
| "getMajorConnState OTH = ESTABLISHED"
| "getMajorConnState S1 = ESTABLISHED"
| "getMajorConnState SF = CLOSED"
| "getMajorConnState S2 = CLOSED"
| "getMajorConnState S3 = CLOSED"
| "getMajorConnState RSTO = CLOSED"
| "getMajorConnState RSTR = CLOSED"
| "getMajorConnState MINOR_NO_STATE = MAJOR_NO_STATE"

definition checkS1ConnState :: "tcp_flow \<Rightarrow> bool" where
  "checkS1ConnState f \<longleftrightarrow> tf_tcp f \<noteq> None \<and>
     (let s = src2dst_tcp_flags f; d = dst2src_tcp_flags f
      in current_c_state f = S1
         \<or> isTCPFlagSet s TCP_3WH_MASK \<and> isTCPFlagSet d TCP_3WH_MASK
           \<and> \<not> (isTCPFlagSet s TH_FIN \<and> isTCPFlagSet s TH_ACK)
           \<and> \<not> isTCPFlagSet s TH_RST \<and> \<not> isTCPFlagSet d TH_RST)"

text \<open>The new connection state; the source also stores it.\<close>

definition next_c_state :: "bool \<Rightarrow> tcp_flow \<Rightarrow> conn_state" where
  "next_c_state is_cumulative f =
     (let s = isTCPFlagSet (src2dst_tcp_flags f); d = isTCPFlagSet (dst2src_tcp_flags f); c = current_c_state f;
          is_s1 = (c = S1 \<or> is_cumulative); is_s2 = (c = S2); is_s3 = (c = S3)
      in if \<not> proto_tcp f \<or> tf_tcp f = None then MINOR_NO_STATE
         else if s TH_SYN \<and> \<not> d TH_SYN then
           (if \<not> d TH_RST then
              if s TH_RST then RSTOS0 else if s TH_FIN then SH else S0
            else REJ)
         else if d TH_SYN \<and> d TH_ACK \<and> d TH_RST \<and> \<not> s TH_SYN then RSTRH
         else if d TH_SYN \<and> d TH_ACK \<and> d TH_FIN \<and> \<not> s TH_SYN then SHR
         else if \<not> s TH_SYN \<and> \<not> d TH_SYN then OTH
         else if (is_s1 \<or> is_s2 \<or> is_s3) \<and> s TH_FIN \<and> d TH_FIN then SF
         else if is_s1 \<and> s TH_FIN \<and> \<not> d TH_FIN then S2
         else if is_s1 \<and> \<not> s TH_FIN \<and> d TH_FIN then S3
         else if is_s1 \<and> s TH_RST then RSTO
         else if is_s1 \<and> d TH_RST then RSTR
         else if checkS1ConnState f then S1
         else c)"

definition calculateConnectionState :: "bool \<Rightarrow> tcp_flow \<Rightarrow> tcp_flow" where
  "calculateConnectionState is_cumulative f = f\<lparr>current_c_state := next_c_state is_cumulative f\<rparr>"

section \<open>Flags of a packet\<close>

text \<open>
  The result, and \<open>begin\<close>, which the function may change; a difference in
  microseconds may be negative when the clock steps back within a second.
\<close>

definition timeval_diff :: "bool \<Rightarrow> timeval \<Rightarrow> timeval \<Rightarrow> timeval \<times> timeval" where
  "timeval_diff divide_by_two begin end =
     (if tv_sec end \<ge> tv_sec begin then
        let (b, r) =
              (if tv_usec end - tv_usec begin < 0 then
                 let u = 1000000 + tv_usec end - tv_usec begin
                 in (if u > 1000000 then begin\<lparr>tv_usec := 1000000\<rparr> else begin,
                     \<lparr> tv_sec = tv_sec end - tv_sec begin - 1, tv_usec = u \<rparr>)
               else (begin, \<lparr> tv_sec = tv_sec end - tv_sec begin, tv_usec = tv_usec end - tv_usec begin \<rparr>))
        in (b, if divide_by_two then
                 \<lparr> tv_sec = tv_sec r sdiv 2,
                   tv_usec = tv_usec r sdiv 2 + (if tv_sec r smod 2 \<noteq> 0 then 500000 else 0) \<rparr>
               else r)
      else (begin, \<lparr> tv_sec = 0, tv_usec = 0 \<rparr>))"

definition timeval_usec :: "timeval \<Rightarrow> int" where
  "timeval_usec t = tv_sec t * 1000000 + tv_usec t"

definition inc8bitNoOverflow :: "u8 \<Rightarrow> u8" where
  "inc8bitNoOverflow v = (if v < 0xFF then v + 1 else v)"

definition add_tcp_flags :: "u8 \<Rightarrow> bool \<Rightarrow> tcp_flow \<Rightarrow> tcp_flow" where
  "add_tcp_flags flags d f =
     (if d then f\<lparr>src2dst_tcp_flags := src2dst_tcp_flags f OR flags\<rparr>
      else f\<lparr>dst2src_tcp_flags := dst2src_tcp_flags f OR flags\<rparr>)"

definition upd_dir_stats :: "(tcp_stats \<Rightarrow> tcp_stats) \<Rightarrow> bool \<Rightarrow> tcp_flow \<Rightarrow> tcp_flow" where
  "upd_dir_stats g d f =
     (if d then f\<lparr>tcp_stats_cli2srv := g (tcp_stats_cli2srv f)\<rparr>
      else f\<lparr>tcp_stats_srv2cli := g (tcp_stats_srv2cli f)\<rparr>)"

definition count_tcp_flags :: "u8 \<Rightarrow> tcp_stats \<Rightarrow> tcp_stats" where
  "count_tcp_flags flags t =
     (let t = (if flags AND TH_SYN = TH_SYN then t\<lparr>num_syn := inc8bitNoOverflow (num_syn t)\<rparr> else t);
          t = (if flags AND TH_FIN = TH_FIN then t\<lparr>num_fin := inc8bitNoOverflow (num_fin t)\<rparr> else t)
      in if flags AND TH_RST = TH_RST then t\<lparr>num_rst := inc8bitNoOverflow (num_rst t)\<rparr> else t)"

text \<open>The flags seen so far on the flow, in either direction.\<close>

definition seen_flags :: "tcp_flow \<Rightarrow> u8" where
  "seen_flags f = src2dst_tcp_flags f OR dst2src_tcp_flags f"

definition rst_counters :: "int \<Rightarrow> bool \<Rightarrow> tcp_flow \<Rightarrow> tcp_world \<Rightarrow> tcp_world" where
  "rst_counters now d f w =
     (let w = upd_flow_stats incReset w
      in if src2dst_tcp_flags f AND TH_SYN \<noteq> TH_SYN then both_hosts (updateRstAlertsCounter now) d f w else w)"

text \<open>Collected flows: only flags that come alone are counted.\<close>

definition nprobe_counters :: "int \<Rightarrow> u8 \<Rightarrow> bool \<Rightarrow> tcp_flow \<Rightarrow> tcp_world \<Rightarrow> tcp_world" where
  "nprobe_counters now flags d f w =
     (let w = (if flags = TH_SYN \<and> seen_flags f AND TH_SYN \<noteq> TH_SYN
               then both_nets (net_updateSynAlertsCounter now) d f (both_hosts updateSynAlertsCounter d f w) else w);
          w = (if flags = TH_RST \<and> seen_flags f AND TH_RST \<noteq> TH_RST then rst_counters now d f w else w)
      in if flags = TH_FIN \<and> seen_flags f AND TH_FIN \<noteq> TH_FIN
         then upd_flow_stats incFin (both_hosts updateFinAlertsCounter d f w) else w)"

definition nprobe_twh :: "u8 \<Rightarrow> tcp_flow \<times> tcp_world \<Rightarrow> tcp_flow \<times> tcp_world" where
  "nprobe_twh flags = (\<lambda>(f, w).
     if \<not> twh_over f \<and> flags AND (TH_ACK OR TH_PUSH OR TH_RST OR TH_FIN) \<noteq> 0
     then ((if tf_cli f \<noteq> None \<or> tf_srv f \<noteq> None then f\<lparr>twh_over := True, twh_over_view := True\<rparr>
            else f\<lparr>twh_over := True\<rparr>),
           upd_flow_stats incEstablished w)
     else (f, w))"

definition packet_counters :: "int \<Rightarrow> u8 \<Rightarrow> bool \<Rightarrow> tcp_flow \<Rightarrow> tcp_world \<Rightarrow> tcp_world" where
  "packet_counters now flags d f w =
     (let flags_3wh = flags AND TCP_3WH_MASK; seen = seen_flags f;
          w = (if flags_3wh = TH_SYN
               then both_nets (net_updateSynAlertsCounter now) d f (both_hosts updateSynAlertsCounter d f w) else w);
          w = (if flags_3wh = TH_SYN OR TH_ACK
               then both_nets net_updateSynAckAlertsCounter d f (both_hosts updateSynAckAlertsCounter d f w) else w);
          w = (if flags AND TH_SYN \<noteq> 0 \<and> seen AND TH_SYN \<noteq> TH_SYN then upd_flow_stats incSyn w else w);
          w = (if flags AND TH_RST \<noteq> 0 \<and> seen AND TH_RST \<noteq> TH_RST then rst_counters now d f w else w);
          w = (if flags AND TH_FIN \<noteq> 0 \<and> seen AND TH_FIN \<noteq> TH_FIN
               then upd_flow_stats incFin (both_hosts updateFinAlertsCounter d f w) else w)
      in if flags AND (TH_FIN OR TH_ACK) \<noteq> 0 \<and> seen AND (TH_FIN OR TH_ACK) \<noteq> TH_FIN OR TH_ACK
         then upd_flow_stats incFin (both_hosts updateFinAckAlertsCounter d f w) else w)"

text \<open>The RTT of one side of the handshake: more than 5 s is dropped.\<close>

definition rtt_of :: "timeval \<Rightarrow> int" where
  "rtt_of t = (if timeval_usec t > 5000 * 1000 then 0 else timeval_usec t)"

definition twh_end :: "iface_env \<Rightarrow> tcp_flow \<Rightarrow> tcp_flow" where
  "twh_end ifc f =
     (let f = f\<lparr>twh_over := True\<rparr>
      in if hash_entry_state f = hash_entry_state_allocated
         then set_hash_entry_state_flow_notyetdetected ifc f else f)"

definition handshake :: "iface_env \<Rightarrow> timeval \<Rightarrow> u8 \<Rightarrow> tcp_flow \<times> tcp_world \<Rightarrow> tcp_flow \<times> tcp_world" where
  "handshake ifc when flags_3wh = (\<lambda>(f, w).
     if twh_over f then (f, w)
     else if flags_3wh = TH_SYN then
       ((case tf_tcp f of None \<Rightarrow> f
         | Some t \<Rightarrow> if tv_sec (synTime t) = 0 then f\<lparr>tf_tcp := Some (t\<lparr>synTime := when\<rparr>)\<rparr> else f), w)
     else if flags_3wh = TH_SYN OR TH_ACK then
       ((case tf_tcp f of None \<Rightarrow> f
         | Some t \<Rightarrow>
             if tv_sec (synAckTime t) = 0 \<and> tv_sec (synTime t) > 0 then
               let (b, r) = timeval_diff False (synTime t) when
               in f\<lparr>tf_tcp := Some (t\<lparr>synAckTime := when, synTime := b, serverRTT3WH := rtt_of r\<rparr>)\<rparr>
             else f), w)
     else if flags_3wh = TH_ACK \<or> flags_3wh = TH_ACK OR TH_PUSH then
       (case tf_tcp f of None \<Rightarrow> (twh_end ifc f, w)
        | Some t \<Rightarrow>
            if tv_sec (ackTime t) = 0 \<and> tv_sec (synAckTime t) > 0 then
              let (b, r) = timeval_diff False (synAckTime t) when;
                  t = t\<lparr>ackTime := when, synAckTime := b, clientRTT3WH := rtt_of r\<rparr>
              in (twh_end ifc (f\<lparr>tf_tcp := Some t, rtt_usec := serverRTT3WH t + clientRTT3WH t\<rparr>),
                  upd_flow_stats incEstablished w)
            else (twh_end ifc f, w))
     else (twh_end ifc f, w))"

definition updateTcpFlags ::
  "iface_env \<Rightarrow> timeval \<Rightarrow> u8 \<Rightarrow> bool \<Rightarrow> tcp_flow \<times> tcp_world \<Rightarrow> tcp_flow \<times> tcp_world" where
  "updateTcpFlags ifc when flags d = (\<lambda>(f, w).
     let cumulative = \<not> isPacketInterface ifc; now = tv_sec when;
         w = w\<lparr>tw_pktStats := incFlagStats flags cumulative (tw_pktStats w)\<rparr>;
         w = both_hosts (Host_incFlagStats flags cumulative) d f w
     in if cumulative then
          let (f, w) = nprobe_twh flags (f, nprobe_counters now flags d f w)
          in (add_tcp_flags flags d f, w)
        else
          let f1 = upd_dir_stats (count_tcp_flags flags) d f;
              w = packet_counters now flags d f w
          in handshake ifc when (flags AND TCP_3WH_MASK) (calculateConnectionState False (add_tcp_flags flags d f1), w))"

section \<open>Windows and sequence numbers\<close>

definition updateTcpWindow :: "u16 \<Rightarrow> bool \<Rightarrow> tcp_flow \<Rightarrow> tcp_flow" where
  "updateTcpWindow window d f =
     (if window = 0 then
        upd_dir_stats (\<lambda>t. t\<lparr>num_zero_window := inc8bitNoOverflow (num_zero_window t)\<rparr>) d
          (if d then f\<lparr>src2dst_tcp_zero_window := True\<rparr> else f\<lparr>dst2src_tcp_zero_window := True\<rparr>)
      else f)"

definition getNextTcpSeq :: "u8 \<Rightarrow> u32 \<Rightarrow> u32 \<Rightarrow> u32" where
  "getNextTcpSeq tcpFlags tcpSeqNum payloadLen =
     tcpSeqNum + (if tcpFlags AND TH_SYN \<noteq> 0 then 1 else 0) + payloadLen"

datatype seq_issue = Seq_ok | Seq_keep_alive | Seq_retx | Seq_lost | Seq_ooo

text \<open>
  One direction of updateTcpSeqNum. The stored numbers are 64-bit, the ones of the
  packet 32-bit; \<open>seq_num - 1\<close> wraps at 32 bits.
\<close>

definition seq_check :: "u32 \<Rightarrow> u8 \<Rightarrow> u16 \<Rightarrow> tcp_seq_num \<Rightarrow> seq_issue \<times> tcp_seq_num" where
  "seq_check seq_num flags payload_len s =
     (let nxt = ucast (getNextTcpSeq flags seq_num (ucast payload_len)); q = ucast seq_num;
          upd = \<lparr> seq_last = q, seq_next = nxt \<rparr>
      in if seq_next s > 0 \<and> seq_next s \<noteq> q \<and> seq_next s \<noteq> ucast (seq_num - 1) then
           if q = seq_next s - 1 \<and> (payload_len = 0 \<or> payload_len = 1)
              \<and> flags AND (TH_SYN OR TH_FIN OR TH_RST) = 0 then (Seq_keep_alive, upd)
           else if q = seq_last s \<or> q < seq_last s then
             if seq_next s \<noteq> seq_last s
             then (Seq_retx, s\<lparr>seq_next := (if q = seq_last s then nxt else seq_next s)\<rparr>)
             else (Seq_ok, upd)
           else if q > seq_next s then (Seq_lost, upd)
           else (Seq_ooo, \<lparr> seq_last = (if ucast (seq_num - 1) > seq_last s then q else seq_last s), seq_next = nxt \<rparr>)
         else (Seq_ok, upd))"

definition issue_count :: "seq_issue \<Rightarrow> seq_issue \<Rightarrow> u32" where
  "issue_count i j = (if i = j then 1 else 0)"

definition updateTcpSeqNum ::
  "int \<Rightarrow> u32 \<Rightarrow> u16 \<Rightarrow> u8 \<Rightarrow> u16 \<Rightarrow> bool \<Rightarrow> tcp_flow \<Rightarrow> tcp_flow" where
  "updateTcpSeqNum now seq_num window flags payload_len d f =
     (case tf_tcp f of
        None \<Rightarrow> f
      | Some t \<Rightarrow>
          let (i, t) =
                (if d then
                   let t = (if window > 0 then t\<lparr>srv2cli_window := window\<rparr> else t);
                       (i, s) = seq_check seq_num flags payload_len (tcp_seq_s2d t)
                   in (i, t\<lparr>tcp_seq_s2d := s\<rparr>)
                 else
                   let t = (if window > 0 then t\<lparr>cli2srv_window := window\<rparr> else t);
                       (i, s) = seq_check seq_num flags payload_len (tcp_seq_d2s t)
                   in (i, t\<lparr>tcp_seq_d2s := s\<rparr>));
              t = (if i \<in> {Seq_lost, Seq_ooo, Seq_retx} then t\<lparr>last_network_issues := now\<rparr> else t);
              f = f\<lparr>tf_tcp := Some t\<rparr>
          in if i \<noteq> Seq_ok
             then f\<lparr>tf_stats := incTcpStats d (issue_count i Seq_retx) (issue_count i Seq_ooo)
                    (issue_count i Seq_lost) (issue_count i Seq_keep_alive) (tf_stats f)\<rparr>
             else f)"

section \<open>Packets\<close>

record tcp_packet =
  tp_when :: timeval
  tp_src2dst :: bool
  tp_flags :: u8
  tp_seq :: u32
  tp_window :: u16
  tp_len :: u16

definition process_tcp_packet :: "iface_env \<Rightarrow> tcp_packet \<Rightarrow> tcp_flow \<times> tcp_world \<Rightarrow> tcp_flow \<times> tcp_world" where
  "process_tcp_packet ifc p s =
     (let d = tp_src2dst p;
          (f, w) = updateTcpFlags ifc (tp_when p) (tp_flags p) d s;
          f = (if tp_flags p AND (TH_RST OR TH_FIN) = 0 then updateTcpWindow (tp_window p) d f else f)
      in (updateTcpSeqNum (tv_sec (tp_when p)) (tp_seq p) (tp_window p) (tp_flags p) (tp_len p) d f, w))"

text \<open>The TCP part of ParserInterface::processFlow: a collected record with its flags.\<close>

record parsed_tcp =
  zf_tcp_flags :: u8
  client_tcp_flags :: u8
  server_tcp_flags :: u8
  ooo_in_pkts :: u32
  ooo_out_pkts :: u32
  retr_in_pkts :: u32
  retr_out_pkts :: u32
  lost_in_pkts :: u32
  lost_out_pkts :: u32

definition updateTcpSeqIssues :: "parsed_tcp \<Rightarrow> tcp_flow \<Rightarrow> tcp_flow" where
  "updateTcpSeqIssues pf f =
     f\<lparr>tf_stats := incTcpStats False (retr_out_pkts pf) (ooo_out_pkts pf) (lost_out_pkts pf) 0
        (incTcpStats True (retr_in_pkts pf) (ooo_in_pkts pf) (lost_in_pkts pf) 0 (tf_stats f))\<rparr>"

definition processFlow_tcp ::
  "iface_env \<Rightarrow> timeval \<Rightarrow> bool \<Rightarrow> parsed_tcp \<Rightarrow> tcp_flow \<times> tcp_world \<Rightarrow> tcp_flow \<times> tcp_world" where
  "processFlow_tcp ifc now d zf s =
     (let s = (if client_tcp_flags zf \<noteq> 0 \<or> server_tcp_flags zf \<noteq> 0 then
                 let s = (if client_tcp_flags zf \<noteq> 0 then updateTcpFlags ifc now (client_tcp_flags zf) d s else s);
                     s = (if server_tcp_flags zf \<noteq> 0 then updateTcpFlags ifc now (server_tcp_flags zf) (\<not> d) s else s)
                 in if zf_tcp_flags zf \<noteq> 0 \<and> client_tcp_flags zf = 0 \<and> server_tcp_flags zf = 0
                    then updateTcpFlags ifc now (zf_tcp_flags zf) d s else s
               else s);
          (f, w) = s;
          f = (if client_tcp_flags zf \<noteq> 0 \<and> server_tcp_flags zf \<noteq> 0 then calculateConnectionState True f else f)
      in (updateTcpSeqIssues zf f, w))"

section \<open>What the steps leave alone\<close>

definition seqs :: "tcp_flow \<Rightarrow> (tcp_seq_num \<times> tcp_seq_num) option" where
  "seqs f = map_option (\<lambda>t. (tcp_seq_s2d t, tcp_seq_d2s t)) (tf_tcp f)"

lemma seqs_None: "seqs f = None \<longleftrightarrow> tf_tcp f = None"
  by (simp add: seqs_def)

lemma isTCPFlagSet_or: "isTCPFlagSet (a OR b) m \<longleftrightarrow> isTCPFlagSet a m \<or> isTCPFlagSet b m"
  by (simp add: isTCPFlagSet_def bit.conj_disj_distrib2 or_eq_0_iff)

lemma twh_end_keeps [simp]:
  "twh_over (twh_end ifc f)" "proto_tcp (twh_end ifc f) = proto_tcp f" "tf_cli (twh_end ifc f) = tf_cli f"
  "tf_srv (twh_end ifc f) = tf_srv f" "tf_tcp (twh_end ifc f) = tf_tcp f"
  "src2dst_tcp_flags (twh_end ifc f) = src2dst_tcp_flags f" "dst2src_tcp_flags (twh_end ifc f) = dst2src_tcp_flags f"
  "current_c_state (twh_end ifc f) = current_c_state f" "tf_stats (twh_end ifc f) = tf_stats f"
  "rtt_usec (twh_end ifc f) = rtt_usec f"
  by (simp_all add: twh_end_def Let_def set_hash_entry_state_flow_notyetdetected_def set_state_def)

lemma handshake_keeps:
  assumes "handshake ifc when fl (f, w) = (f', w')"
  shows "proto_tcp f' = proto_tcp f" "src2dst_tcp_flags f' = src2dst_tcp_flags f" "dst2src_tcp_flags f' = dst2src_tcp_flags f"
    "current_c_state f' = current_c_state f" "tf_stats f' = tf_stats f" "seqs f' = seqs f"
    "tf_cli f' = tf_cli f" "tf_srv f' = tf_srv f" "tw_hosts w' = tw_hosts w"
    "numFinFlows (tw_tcpFlowStats w') = numFinFlows (tw_tcpFlowStats w)"
  using assms
  by (auto simp: handshake_def seqs_def Let_def upd_flow_stats_def incEstablished_def
      split: if_splits option.splits prod.splits)

lemma handshake_twh:
  assumes "handshake ifc when fl (f, w) = (f', w')"
  shows "twh_over f \<Longrightarrow> (f', w') = (f, w)"
    and "numEstablishedFlows (tw_tcpFlowStats w') = numEstablishedFlows (tw_tcpFlowStats w)
      \<or> numEstablishedFlows (tw_tcpFlowStats w') = numEstablishedFlows (tw_tcpFlowStats w) + 1 \<and> twh_over f' \<and> \<not> twh_over f"
  using assms
  by (auto simp: handshake_def Let_def upd_flow_stats_def incEstablished_def
      split: if_splits option.splits prod.splits)

lemma upd_host_keeps [simp]:
  "tw_nets (upd_host p g w) = tw_nets w" "tw_pktStats (upd_host p g w) = tw_pktStats w"
  "tw_tcpFlowStats (upd_host p g w) = tw_tcpFlowStats w"
  "tw_hosts (upd_net p k w) = tw_hosts w" "tw_pktStats (upd_net p k w) = tw_pktStats w"
  "tw_tcpFlowStats (upd_net p k w) = tw_tcpFlowStats w"
  by (simp_all add: upd_host_def upd_net_def split: option.split)

lemma both_keeps [simp]:
  "tw_pktStats (both_hosts g d f w) = tw_pktStats w" "tw_tcpFlowStats (both_hosts g d f w) = tw_tcpFlowStats w"
  "tw_pktStats (both_nets k d f w) = tw_pktStats w" "tw_tcpFlowStats (both_nets k d f w) = tw_tcpFlowStats w"
  "tw_hosts (both_nets k d f w) = tw_hosts w" "tw_nets (both_hosts g d f w) = tw_nets w"
  by (simp_all add: both_hosts_def both_nets_def)

lemma packet_counters_established [simp]:
  "numEstablishedFlows (tw_tcpFlowStats (packet_counters now fl d f w)) = numEstablishedFlows (tw_tcpFlowStats w)"
  by (simp add: packet_counters_def rst_counters_def Let_def upd_flow_stats_def incSyn_def incReset_def incFin_def)

text \<open>The flow after the flags of a packet have been stored, before the handshake is looked at.\<close>

lemma updateTcpFlags_packet:
  assumes "isPacketInterface ifc"
  obtains w1 where
    "updateTcpFlags ifc when fl d (f, w) =
      handshake ifc when (fl AND TCP_3WH_MASK)
        (calculateConnectionState False (add_tcp_flags fl d (upd_dir_stats (count_tcp_flags fl) d f)), w1)"
    "numEstablishedFlows (tw_tcpFlowStats w1) = numEstablishedFlows (tw_tcpFlowStats w)"
    "tw_tcpFlowStats w1 = tw_tcpFlowStats (packet_counters (tv_sec when) fl d f w)"
proof -
  let ?w0 = "both_hosts (Host_incFlagStats fl False) d f (w\<lparr>tw_pktStats := incFlagStats fl False (tw_pktStats w)\<rparr>)"
  have c: "tw_tcpFlowStats (packet_counters now fl d f x) = tw_tcpFlowStats (packet_counters now fl d f y)"
    if "tw_tcpFlowStats x = tw_tcpFlowStats y" for now x y
    using that by (simp add: packet_counters_def rst_counters_def Let_def upd_flow_stats_def)
  show thesis
    by (rule that [of "packet_counters (tv_sec when) fl d f ?w0"])
      (use assms in \<open>simp_all add: updateTcpFlags_def Let_def\<close>, rule c, simp)
qed

lemma next_c_state_same:
  assumes "src2dst_tcp_flags f = src2dst_tcp_flags g" "dst2src_tcp_flags f = dst2src_tcp_flags g"
    and "current_c_state f = current_c_state g" "proto_tcp f = proto_tcp g" "tf_tcp f = tf_tcp g"
  shows "next_c_state c f = next_c_state c g"
  unfolding next_c_state_def checkS1ConnState_def assms ..

lemma updateTcpFlags_keeps:
  assumes "isPacketInterface ifc" "updateTcpFlags ifc when fl d (f, w) = (f', w')"
  shows "proto_tcp f' = proto_tcp f" "tf_stats f' = tf_stats f" "seqs f' = seqs f" "tf_cli f' = tf_cli f" "tf_srv f' = tf_srv f"
    "src2dst_tcp_flags f' = (if d then src2dst_tcp_flags f OR fl else src2dst_tcp_flags f)"
    "dst2src_tcp_flags f' = (if d then dst2src_tcp_flags f else dst2src_tcp_flags f OR fl)"
    "current_c_state f' = next_c_state False (add_tcp_flags fl d f)"
    "twh_over f \<Longrightarrow> twh_over f'"
    "numEstablishedFlows (tw_tcpFlowStats w') = numEstablishedFlows (tw_tcpFlowStats w)
      \<or> numEstablishedFlows (tw_tcpFlowStats w') = numEstablishedFlows (tw_tcpFlowStats w) + 1 \<and> twh_over f' \<and> \<not> twh_over f"
    "numFinFlows (tw_tcpFlowStats w') = numFinFlows (tw_tcpFlowStats (packet_counters (tv_sec when) fl d f w))"
proof -
  obtain w1 where e: "updateTcpFlags ifc when fl d (f, w) =
      handshake ifc when (fl AND TCP_3WH_MASK)
        (calculateConnectionState False (add_tcp_flags fl d (upd_dir_stats (count_tcp_flags fl) d f)), w1)"
    "numEstablishedFlows (tw_tcpFlowStats w1) = numEstablishedFlows (tw_tcpFlowStats w)"
    "tw_tcpFlowStats w1 = tw_tcpFlowStats (packet_counters (tv_sec when) fl d f w)"
    by (rule updateTcpFlags_packet [OF assms(1)])
  let ?f1 = "calculateConnectionState False (add_tcp_flags fl d (upd_dir_stats (count_tcp_flags fl) d f))"
  have p: "proto_tcp ?f1 = proto_tcp f" "tf_stats ?f1 = tf_stats f" "seqs ?f1 = seqs f" "tf_cli ?f1 = tf_cli f"
    "tf_srv ?f1 = tf_srv f" "twh_over ?f1 = twh_over f"
    "src2dst_tcp_flags ?f1 = (if d then src2dst_tcp_flags f OR fl else src2dst_tcp_flags f)"
    "dst2src_tcp_flags ?f1 = (if d then dst2src_tcp_flags f else dst2src_tcp_flags f OR fl)"
    "current_c_state ?f1 = next_c_state False (add_tcp_flags fl d f)"
    by (simp_all add: calculateConnectionState_def add_tcp_flags_def upd_dir_stats_def seqs_def)
      (auto intro!: next_c_state_same)
  have h: "handshake ifc when (fl AND TCP_3WH_MASK) (?f1, w1) = (f', w')" using e(1) assms(2) by simp
  note K = handshake_keeps [OF h] and T = handshake_twh [OF h]
  show "proto_tcp f' = proto_tcp f" "tf_stats f' = tf_stats f" "seqs f' = seqs f" "tf_cli f' = tf_cli f" "tf_srv f' = tf_srv f"
    "src2dst_tcp_flags f' = (if d then src2dst_tcp_flags f OR fl else src2dst_tcp_flags f)"
    "dst2src_tcp_flags f' = (if d then dst2src_tcp_flags f else dst2src_tcp_flags f OR fl)"
    "current_c_state f' = next_c_state False (add_tcp_flags fl d f)"
    using K p by simp_all
  show "twh_over f \<Longrightarrow> twh_over f'" using T(1) p(6) by auto
  show "numEstablishedFlows (tw_tcpFlowStats w') = numEstablishedFlows (tw_tcpFlowStats w)
      \<or> numEstablishedFlows (tw_tcpFlowStats w') = numEstablishedFlows (tw_tcpFlowStats w) + 1 \<and> twh_over f' \<and> \<not> twh_over f"
    using T(2) p(6) e(2) by simp
  show "numFinFlows (tw_tcpFlowStats w') = numFinFlows (tw_tcpFlowStats (packet_counters (tv_sec when) fl d f w))"
    using K(10) e(3) by simp
qed

section \<open>Streams of packets\<close>

lemma updateTcpWindow_keeps [simp]:
  "proto_tcp (updateTcpWindow win d f) = proto_tcp f" "tf_stats (updateTcpWindow win d f) = tf_stats f"
  "tf_tcp (updateTcpWindow win d f) = tf_tcp f" "seqs (updateTcpWindow win d f) = seqs f"
  "src2dst_tcp_flags (updateTcpWindow win d f) = src2dst_tcp_flags f"
  "dst2src_tcp_flags (updateTcpWindow win d f) = dst2src_tcp_flags f"
  "current_c_state (updateTcpWindow win d f) = current_c_state f" "twh_over (updateTcpWindow win d f) = twh_over f"
  by (simp_all add: updateTcpWindow_def upd_dir_stats_def seqs_def)

lemma updateTcpSeqNum_keeps [simp]:
  "proto_tcp (updateTcpSeqNum now q win fl len d f) = proto_tcp f"
  "tf_tcp (updateTcpSeqNum now q win fl len d f) = None \<longleftrightarrow> tf_tcp f = None"
  "src2dst_tcp_flags (updateTcpSeqNum now q win fl len d f) = src2dst_tcp_flags f"
  "dst2src_tcp_flags (updateTcpSeqNum now q win fl len d f) = dst2src_tcp_flags f"
  "current_c_state (updateTcpSeqNum now q win fl len d f) = current_c_state f"
  "twh_over (updateTcpSeqNum now q win fl len d f) = twh_over f"
  by (simp_all add: updateTcpSeqNum_def Let_def split: option.split prod.split)

lemma updateTcpSeqNum_seqs:
  assumes "seqs f = Some (s, r)"
  shows "seqs (updateTcpSeqNum now q win fl len d f) =
      Some (if d then (snd (seq_check q fl len s), r) else (s, snd (seq_check q fl len r)))"
    and "fst (seq_check q fl len (if d then s else r)) = Seq_ok \<Longrightarrow>
      tf_stats (updateTcpSeqNum now q win fl len d f) = tf_stats f"
  using assms by (auto simp: updateTcpSeqNum_def seqs_def Let_def split: prod.split)

text \<open>The effect of one packet on what the following proofs look at.\<close>

lemma process_tcp_packet_keeps:
  assumes "isPacketInterface ifc" "process_tcp_packet ifc p (f, w) = (f', w')"
  shows "proto_tcp f' = proto_tcp f" "tf_tcp f' = None \<longleftrightarrow> tf_tcp f = None"
    "src2dst_tcp_flags f' = (if tp_src2dst p then src2dst_tcp_flags f OR tp_flags p else src2dst_tcp_flags f)"
    "dst2src_tcp_flags f' = (if tp_src2dst p then dst2src_tcp_flags f else dst2src_tcp_flags f OR tp_flags p)"
    "current_c_state f' = next_c_state False (add_tcp_flags (tp_flags p) (tp_src2dst p) f)"
    "twh_over f \<Longrightarrow> twh_over f'"
    "numEstablishedFlows (tw_tcpFlowStats w') = numEstablishedFlows (tw_tcpFlowStats w)
      \<or> numEstablishedFlows (tw_tcpFlowStats w') = numEstablishedFlows (tw_tcpFlowStats w) + 1 \<and> twh_over f' \<and> \<not> twh_over f"
    "numFinFlows (tw_tcpFlowStats w')
      = numFinFlows (tw_tcpFlowStats (packet_counters (tv_sec (tp_when p)) (tp_flags p) (tp_src2dst p) f w))"
    "seqs f = Some (s, r) \<Longrightarrow> seqs f' =
      Some (if tp_src2dst p then (snd (seq_check (tp_seq p) (tp_flags p) (tp_len p) s), r)
            else (s, snd (seq_check (tp_seq p) (tp_flags p) (tp_len p) r)))"
    "seqs f = Some (s, r) \<Longrightarrow> fst (seq_check (tp_seq p) (tp_flags p) (tp_len p) (if tp_src2dst p then s else r)) = Seq_ok \<Longrightarrow>
      tf_stats f' = tf_stats f"
proof -
  obtain f1 w1 where u: "updateTcpFlags ifc (tp_when p) (tp_flags p) (tp_src2dst p) (f, w) = (f1, w1)" by fastforce
  note K = updateTcpFlags_keeps [OF assms(1) u]
  let ?f2 = "if tp_flags p AND (TH_RST OR TH_FIN) = 0 then updateTcpWindow (tp_window p) (tp_src2dst p) f1 else f1"
  have f': "f' = updateTcpSeqNum (tv_sec (tp_when p)) (tp_seq p) (tp_window p) (tp_flags p) (tp_len p) (tp_src2dst p) ?f2"
    and w': "w' = w1"
    using assms(2) u by (simp_all add: process_tcp_packet_def Let_def)
  have q: "seqs ?f2 = seqs f" "tf_stats ?f2 = tf_stats f" using K(2,3) by simp_all
  have n: "tf_tcp ?f2 = None \<longleftrightarrow> tf_tcp f = None" using q(1) by (metis seqs_None)
  show "proto_tcp f' = proto_tcp f" "tf_tcp f' = None \<longleftrightarrow> tf_tcp f = None"
    "src2dst_tcp_flags f' = (if tp_src2dst p then src2dst_tcp_flags f OR tp_flags p else src2dst_tcp_flags f)"
    "dst2src_tcp_flags f' = (if tp_src2dst p then dst2src_tcp_flags f else dst2src_tcp_flags f OR tp_flags p)"
    "current_c_state f' = next_c_state False (add_tcp_flags (tp_flags p) (tp_src2dst p) f)"
    "twh_over f \<Longrightarrow> twh_over f'"
    using K n by (simp_all add: f')
  show "numEstablishedFlows (tw_tcpFlowStats w') = numEstablishedFlows (tw_tcpFlowStats w)
      \<or> numEstablishedFlows (tw_tcpFlowStats w') = numEstablishedFlows (tw_tcpFlowStats w) + 1 \<and> twh_over f' \<and> \<not> twh_over f"
    using K(10) by (simp add: f' w')
  show "numFinFlows (tw_tcpFlowStats w')
      = numFinFlows (tw_tcpFlowStats (packet_counters (tv_sec (tp_when p)) (tp_flags p) (tp_src2dst p) f w))"
    using K(11) by (simp add: w')
  assume "seqs f = Some (s, r)"
  with q(1) have "seqs ?f2 = Some (s, r)" by simp
  note S = updateTcpSeqNum_seqs [OF this]
  show "seqs f' = Some (if tp_src2dst p then (snd (seq_check (tp_seq p) (tp_flags p) (tp_len p) s), r)
            else (s, snd (seq_check (tp_seq p) (tp_flags p) (tp_len p) r)))"
    unfolding f' by (rule S(1))
  show "fst (seq_check (tp_seq p) (tp_flags p) (tp_len p) (if tp_src2dst p then s else r)) = Seq_ok \<Longrightarrow>
      tf_stats f' = tf_stats f"
    unfolding f' using S(2) q(2) by simp
qed

text \<open>
  A packet is in order when its sequence number is the one that follows the previous
  packet of its direction: SYN and FIN take one number each.
\<close>

definition seq_after :: "tcp_packet \<Rightarrow> u32" where
  "seq_after p = tp_seq p + (if tp_flags p AND TH_SYN \<noteq> 0 then 1 else 0) + ucast (tp_len p)
     + (if tp_flags p AND TH_FIN \<noteq> 0 then 1 else 0)"

fun in_order :: "u32 option \<Rightarrow> u32 option \<Rightarrow> tcp_packet list \<Rightarrow> bool" where
  "in_order a b [] = True"
| "in_order a b (p # ps) =
     (if tp_src2dst p then (a = None \<or> a = Some (tp_seq p)) \<and> in_order (Some (seq_after p)) b ps
      else (b = None \<or> b = Some (tp_seq p)) \<and> in_order a (Some (seq_after p)) ps)"

definition expects :: "u32 option \<Rightarrow> tcp_seq_num \<Rightarrow> bool" where
  "expects a s \<longleftrightarrow> (case a of None \<Rightarrow> seq_next s = 0
                    | Some q \<Rightarrow> seq_next s = ucast q \<or> seq_next s = ucast (q - 1))"

lemma expects_check:
  assumes "expects a s" "a = None \<or> a = Some (tp_seq p)"
  shows "fst (seq_check (tp_seq p) (tp_flags p) (tp_len p) s) = Seq_ok"
    "expects (Some (seq_after p)) (snd (seq_check (tp_seq p) (tp_flags p) (tp_len p) s))"
proof -
  have "\<not> (seq_next s > 0 \<and> seq_next s \<noteq> ucast (tp_seq p) \<and> seq_next s \<noteq> ucast (tp_seq p - 1))"
    using assms by (auto simp: expects_def)
  then have c: "seq_check (tp_seq p) (tp_flags p) (tp_len p) s =
      (Seq_ok, \<lparr> seq_last = ucast (tp_seq p),
         seq_next = ucast (getNextTcpSeq (tp_flags p) (tp_seq p) (ucast (tp_len p))) \<rparr>)"
    by (auto simp: seq_check_def Let_def)
  then show "fst (seq_check (tp_seq p) (tp_flags p) (tp_len p) s) = Seq_ok" by simp
  have "getNextTcpSeq (tp_flags p) (tp_seq p) (ucast (tp_len p)) = seq_after p
      \<or> getNextTcpSeq (tp_flags p) (tp_seq p) (ucast (tp_len p)) = seq_after p - 1"
    by (simp add: getNextTcpSeq_def seq_after_def)
  then show "expects (Some (seq_after p)) (snd (seq_check (tp_seq p) (tp_flags p) (tp_len p) s))"
    by (auto simp: c expects_def)
qed

lemma in_order_stats:
  assumes "isPacketInterface ifc" "in_order a b ps" "seqs f = Some (s, r)" "expects a s" "expects b r"
  shows "tf_stats (fst (fold (process_tcp_packet ifc) ps (f, w))) = tf_stats f"
  using assms(2-)
proof (induction ps arbitrary: a b f w s r)
  case (Cons p ps)
  obtain f' w' where e: "process_tcp_packet ifc p (f, w) = (f', w')" by fastforce
  note K = process_tcp_packet_keeps(9,10) [OF assms(1) e Cons.prems(2)]
  show ?case
  proof (cases "tp_src2dst p")
    case True
    then have o: "a = None \<or> a = Some (tp_seq p)" "in_order (Some (seq_after p)) b ps" using Cons.prems(1) by simp_all
    note X = expects_check [OF Cons.prems(3) o(1)]
    have "tf_stats f' = tf_stats f" using K(2) X(1) True by simp
    moreover have "tf_stats (fst (fold (process_tcp_packet ifc) ps (f', w'))) = tf_stats f'"
      by (rule Cons.IH [OF o(2) _ X(2) Cons.prems(4)]) (use K(1) True in simp)
    ultimately show ?thesis by (simp add: e)
  next
    case False
    then have o: "b = None \<or> b = Some (tp_seq p)" "in_order a (Some (seq_after p)) ps" using Cons.prems(1) by simp_all
    note X = expects_check [OF Cons.prems(4) o(1)]
    have "tf_stats f' = tf_stats f" using K(2) X(1) False by simp
    moreover have "tf_stats (fst (fold (process_tcp_packet ifc) ps (f', w'))) = tf_stats f'"
      by (rule Cons.IH [OF o(2) _ Cons.prems(3) X(2)]) (use K(1) False in simp)
    ultimately show ?thesis by (simp add: e)
  qed
qed simp

section \<open>Sequence numbers of one direction\<close>

fun seq_run :: "(u32 \<times> u8 \<times> u16) list \<Rightarrow> tcp_seq_num \<Rightarrow> seq_issue list \<times> tcp_seq_num" where
  "seq_run [] s = ([], s)"
| "seq_run ((q, fl, len) # ps) s =
     (let (i, s) = seq_check q fl len s; (is, s) = seq_run ps s in (i # is, s))"

lemma unat_ucast_u32 [simp]: "unat (ucast (q :: u32) :: u64) = unat q"
proof -
  have "unat q < 2 ^ 32" using unsigned_less [of q] by simp
  then show ?thesis by (simp add: unsigned_ucast_eq take_bit_nat_eq_self)
qed

lemma word_order_unat: "(a :: u64) = b \<longleftrightarrow> unat a = unat b" "a < b \<longleftrightarrow> unat a < unat b"
  by (simp_all add: word_unat_eq_iff word_less_nat_alt)

lemma unat_pred: "unat (q - 1 :: u32) = (if q = 0 then 2 ^ 32 - 1 else unat q - 1)"
  by (simp add: unat_minus_one unsigned_minus_1_eq_mask mask_eq_exp_minus_1)

lemma unat_succ: "q + 1 \<noteq> 0 \<Longrightarrow> unat (q + 1 :: u32) = unat q + 1"
  by (metis add.commute unatSuc Suc_eq_plus1)

lemma seq_check_wrapped:
  assumes "seq_next s \<noteq> 0" "seq_next s < ucast q" "ucast q < seq_last s" "seq_next s \<noteq> ucast (q - 1)"
  shows "seq_check q fl len s = (Seq_retx, s)"
proof -
  have "unat (seq_next s - 1) < unat q"
    using assms(1,2) by (simp add: unat_minus_one word_order_unat(2))
  then have "ucast q \<noteq> seq_next s - 1" by (auto simp: word_order_unat(1))
  then show ?thesis
    using assms by (auto simp: seq_check_def Let_def word_neq_0_conv)
qed

lemma seq_check_keepalive:
  assumes "seq_next s = ucast (k + 1)" "k + 1 \<noteq> 0" "fl AND (TH_SYN OR TH_FIN OR TH_RST) = 0"
  shows "seq_check k fl 0 s = (Seq_keep_alive, \<lparr> seq_last = ucast k, seq_next = ucast k \<rparr>)"
proof -
  have n: "unat (seq_next s) = unat k + 1" using assms(1,2) by (simp add: unat_succ)
  have "unat k < 2 ^ 32" using unsigned_less [of k] by simp
  with n have "seq_next s \<noteq> ucast k" "seq_next s \<noteq> ucast (k - 1)"
    by (auto simp: word_order_unat(1) unat_pred)
  moreover have z: "seq_next s \<noteq> 0" using n by auto
  moreover have "ucast k = seq_next s - 1" using n z by (simp add: word_order_unat(1) unat_minus_one)
  moreover have "fl AND TH_SYN = 0" using assms(3) by (simp add: bit.conj_disj_distrib or_eq_0_iff)
  ultimately show ?thesis
    using assms(3) by (simp add: seq_check_def Let_def getNextTcpSeq_def word_neq_0_conv)
qed

lemma seq_check_again:
  assumes "fl AND TH_SYN = 0"
  shows "seq_check k fl 0 \<lparr> seq_last = ucast k, seq_next = ucast k \<rparr> = (Seq_ok, \<lparr> seq_last = ucast k, seq_next = ucast k \<rparr>)"
  using assms by (simp add: seq_check_def Let_def getNextTcpSeq_def)

section \<open>Connection states\<close>

lemma next_c_state_both_syn:
  assumes "proto_tcp f" "tf_tcp f \<noteq> None"
    and "isTCPFlagSet (src2dst_tcp_flags f) TH_SYN" "isTCPFlagSet (dst2src_tcp_flags f) TH_SYN"
  shows "next_c_state False f =
    (let s = isTCPFlagSet (src2dst_tcp_flags f); d = isTCPFlagSet (dst2src_tcp_flags f); c = current_c_state f
     in if c \<in> {S1, S2, S3} \<and> s TH_FIN \<and> d TH_FIN then SF
        else if c = S1 \<and> s TH_FIN then S2
        else if c = S1 \<and> d TH_FIN then S3
        else if c = S1 \<and> s TH_RST then RSTO
        else if c = S1 \<and> d TH_RST then RSTR
        else if c = S1 \<or> \<not> (s TH_FIN \<and> s TH_ACK) \<and> \<not> s TH_RST \<and> \<not> d TH_RST then S1
        else c)"
proof -
  have m: "isTCPFlagSet x TCP_3WH_MASK" if "isTCPFlagSet x TH_SYN" for x
  proof -
    have "TCP_3WH_MASK = TCP_3WH_MASK OR TH_SYN" by (simp add: TCP_3WH_MASK_def TH_defs)
    then have "isTCPFlagSet x TCP_3WH_MASK \<longleftrightarrow> isTCPFlagSet x TCP_3WH_MASK \<or> isTCPFlagSet x TH_SYN"
      using bit.conj_disj_distrib [of x TCP_3WH_MASK TH_SYN] by (metis isTCPFlagSet_def or_eq_0_iff)
    then show ?thesis using that by simp
  qed
  obtain t where "tf_tcp f = Some t" using assms(2) by auto
  then show ?thesis
    using assms m [OF assms(3)] m [OF assms(4)]
    unfolding next_c_state_def checkS1ConnState_def Let_def
    by (cases "current_c_state f") simp_all
qed

text \<open>
  A connection that was established and then closed: by the client's FIN, by both FINs, or by a RST.
\<close>

definition closed_conn :: "tcp_flow \<Rightarrow> bool" where
  "closed_conn f \<longleftrightarrow> proto_tcp f \<and> tf_tcp f \<noteq> None
     \<and> isTCPFlagSet (src2dst_tcp_flags f) TH_SYN \<and> isTCPFlagSet (dst2src_tcp_flags f) TH_SYN
     \<and> (current_c_state f \<in> {SF, S2} \<and> isTCPFlagSet (src2dst_tcp_flags f) TH_FIN
          \<and> isTCPFlagSet (src2dst_tcp_flags f) TH_ACK
        \<or> current_c_state f \<in> {RSTO, RSTR}
          \<and> (isTCPFlagSet (src2dst_tcp_flags f) TH_RST \<or> isTCPFlagSet (dst2src_tcp_flags f) TH_RST))"

lemma add_tcp_flags_keeps [simp]:
  "proto_tcp (add_tcp_flags fl d f) = proto_tcp f" "tf_tcp (add_tcp_flags fl d f) = tf_tcp f"
  "current_c_state (add_tcp_flags fl d f) = current_c_state f"
  "src2dst_tcp_flags (add_tcp_flags fl d f) = (if d then src2dst_tcp_flags f OR fl else src2dst_tcp_flags f)"
  "dst2src_tcp_flags (add_tcp_flags fl d f) = (if d then dst2src_tcp_flags f else dst2src_tcp_flags f OR fl)"
  by (simp_all add: add_tcp_flags_def)

lemma closed_conn_step:
  assumes "isPacketInterface ifc" "closed_conn f" "process_tcp_packet ifc p (f, w) = (f', w')"
  shows "closed_conn f'"
proof -
  note K = process_tcp_packet_keeps(1-5) [OF assms(1,3)]
  let ?g = "add_tcp_flags (tp_flags p) (tp_src2dst p) f"
  have c: "proto_tcp ?g" "tf_tcp ?g \<noteq> None" "isTCPFlagSet (src2dst_tcp_flags ?g) TH_SYN"
    "isTCPFlagSet (dst2src_tcp_flags ?g) TH_SYN"
    using assms(2) by (simp_all add: closed_conn_def isTCPFlagSet_or)
  show ?thesis
    using assms(2) next_c_state_both_syn [OF c]
    by (auto simp: closed_conn_def K isTCPFlagSet_or Let_def)
qed

text \<open>The server has closed its side, the client has not.\<close>

definition half_closed :: "tcp_flow \<Rightarrow> bool" where
  "half_closed f \<longleftrightarrow> proto_tcp f \<and> tf_tcp f \<noteq> None
     \<and> isTCPFlagSet (src2dst_tcp_flags f) TH_SYN \<and> isTCPFlagSet (dst2src_tcp_flags f) TH_SYN
     \<and> isTCPFlagSet (dst2src_tcp_flags f) TH_FIN \<and> \<not> isTCPFlagSet (src2dst_tcp_flags f) TH_FIN
     \<and> \<not> isTCPFlagSet (src2dst_tcp_flags f) TH_RST \<and> \<not> isTCPFlagSet (dst2src_tcp_flags f) TH_RST"

lemma half_closed_step:
  assumes "isPacketInterface ifc" "half_closed f" "process_tcp_packet ifc p (f, w) = (f', w')"
    and "tp_flags p AND (TH_FIN OR TH_RST) = 0"
  shows "half_closed f'" "current_c_state f = S3 \<Longrightarrow> current_c_state f' = S1"
    "current_c_state f = S1 \<Longrightarrow> current_c_state f' = S3"
proof -
  note K = process_tcp_packet_keeps(1-5) [OF assms(1,3)]
  have n: "\<not> isTCPFlagSet (tp_flags p) TH_FIN" "\<not> isTCPFlagSet (tp_flags p) TH_RST"
    using assms(4) by (simp_all add: isTCPFlagSet_def bit.conj_disj_distrib or_eq_0_iff)
  let ?g = "add_tcp_flags (tp_flags p) (tp_src2dst p) f"
  have c: "proto_tcp ?g" "tf_tcp ?g \<noteq> None" "isTCPFlagSet (src2dst_tcp_flags ?g) TH_SYN"
    "isTCPFlagSet (dst2src_tcp_flags ?g) TH_SYN"
    using assms(2) by (simp_all add: half_closed_def isTCPFlagSet_or)
  show "half_closed f'" using assms(2) n by (simp add: half_closed_def K isTCPFlagSet_or)
  show "current_c_state f = S3 \<Longrightarrow> current_c_state f' = S1" "current_c_state f = S1 \<Longrightarrow> current_c_state f' = S3"
    using assms(2) n next_c_state_both_syn [OF c] by (simp_all add: half_closed_def K isTCPFlagSet_or Let_def)
qed

lemma half_closed_alternates:
  assumes "isPacketInterface ifc" "half_closed f" "current_c_state f = (if b then S3 else S1)"
    and "\<forall>p \<in> set ps. tp_flags p AND (TH_FIN OR TH_RST) = 0"
  shows "current_c_state (fst (fold (process_tcp_packet ifc) ps (f, w))) = (if even (length ps) = b then S3 else S1)"
  using assms(2-)
proof (induction ps arbitrary: f w b)
  case (Cons p ps)
  obtain f' w' where e: "process_tcp_packet ifc p (f, w) = (f', w')" by fastforce
  note S = half_closed_step [OF assms(1) Cons.prems(1) e]
  have "current_c_state f' = (if \<not> b then S3 else S1)" using S(2,3) Cons.prems by (cases b) simp_all
  from Cons.IH [OF S(1) this, of w'] show ?case using Cons.prems(3) by (auto simp: e)
qed simp

section \<open>Counters over a history\<close>

lemma established_history:
  assumes "isPacketInterface ifc"
  shows "let (f', w') = fold (process_tcp_packet ifc) ps (f, w);
      n = numEstablishedFlows (tw_tcpFlowStats w); n' = numEstablishedFlows (tw_tcpFlowStats w')
    in (twh_over f \<longrightarrow> twh_over f' \<and> n' = n) \<and> (n' = n \<or> n' = n + 1 \<and> twh_over f')"
proof (induction ps arbitrary: f w)
  case (Cons p ps)
  obtain f1 w1 where e: "process_tcp_packet ifc p (f, w) = (f1, w1)" by fastforce
  obtain f2 w2 where r: "fold (process_tcp_packet ifc) ps (f1, w1) = (f2, w2)" by fastforce
  have IH: "(twh_over f1 \<longrightarrow> twh_over f2
        \<and> numEstablishedFlows (tw_tcpFlowStats w2) = numEstablishedFlows (tw_tcpFlowStats w1))
      \<and> (numEstablishedFlows (tw_tcpFlowStats w2) = numEstablishedFlows (tw_tcpFlowStats w1)
        \<or> numEstablishedFlows (tw_tcpFlowStats w2) = numEstablishedFlows (tw_tcpFlowStats w1) + 1 \<and> twh_over f2)"
    using Cons.IH [of f1 w1] r by (simp add: Let_def)
  note K = process_tcp_packet_keeps(6,7) [OF assms e]
  show ?case using IH K e r by (auto simp: Let_def)
qed (simp add: Let_def)

lemma no_fin_step:
  assumes "fl AND TH_FIN = 0" "fl AND TH_ACK \<noteq> 0" "seen_flags f AND TH_FIN = 0"
  shows "numFinFlows (tw_tcpFlowStats (packet_counters now fl d f w)) = numFinFlows (tw_tcpFlowStats w) + 1"
proof -
  have "seen_flags f AND (TH_FIN OR TH_ACK) = seen_flags f AND TH_ACK"
    using assms(3) by (simp add: bit.conj_disj_distrib)
  moreover have "x AND TH_ACK \<noteq> TH_FIN OR TH_ACK" for x
  proof
    assume "x AND TH_ACK = TH_FIN OR TH_ACK"
    then have "bit (x AND TH_ACK) 0 = bit (TH_FIN OR TH_ACK) 0" by simp
    then show False by (simp add: TH_defs bit_simps)
  qed
  ultimately have "seen_flags f AND (TH_FIN OR TH_ACK) \<noteq> TH_FIN OR TH_ACK" by simp
  moreover have "fl AND (TH_FIN OR TH_ACK) \<noteq> 0"
    using assms(2) by (simp add: bit.conj_disj_distrib or_eq_0_iff)
  ultimately show ?thesis
    using assms(1) by (simp add: packet_counters_def rst_counters_def Let_def upd_flow_stats_def incSyn_def incReset_def incFin_def)
qed

section \<open>The handshake\<close>

lemma timeval_diff_usec:
  assumes "tv_sec b \<le> tv_sec e"
  obtains r where "timeval_diff False b e = (b, r)" "timeval_usec r = timeval_usec e - timeval_usec b"
proof (cases "tv_usec e < tv_usec b")
  case True
  then show ?thesis
    using assms
    by (intro that [of "\<lparr> tv_sec = tv_sec e - tv_sec b - 1, tv_usec = 1000000 + tv_usec e - tv_usec b \<rparr>"])
      (simp_all add: timeval_diff_def timeval_usec_def algebra_simps)
next
  case False
  then show ?thesis
    using assms
    by (intro that [of "\<lparr> tv_sec = tv_sec e - tv_sec b, tv_usec = tv_usec e - tv_usec b \<rparr>"])
      (simp_all add: timeval_diff_def timeval_usec_def algebra_simps)
qed

lemma rtt_of_small: "timeval_usec r \<le> 5000000 \<Longrightarrow> rtt_of r = timeval_usec r"
  by (simp add: rtt_of_def)

lemma flags_distinct: "TH_SYN OR TH_ACK \<noteq> TH_SYN" "TH_ACK \<noteq> TH_SYN" "TH_ACK \<noteq> TH_SYN OR TH_ACK"
  by (simp_all add: TH_defs)

lemma stored_flow:
  fixes fl d f
  defines "g \<equiv> calculateConnectionState False (add_tcp_flags fl d (upd_dir_stats (count_tcp_flags fl) d f))"
  shows "tf_tcp g = tf_tcp f" "twh_over g = twh_over f" "rtt_usec g = rtt_usec f"
  by (simp_all add: g_def calculateConnectionState_def add_tcp_flags_def upd_dir_stats_def)

lemma syn_step:
  assumes "isPacketInterface ifc" "updateTcpFlags ifc t fl d (f, w) = (f', w')" "fl AND TCP_3WH_MASK = TH_SYN"
    and "tf_tcp f = Some u" "\<not> twh_over f" "tv_sec (synTime u) = 0"
  shows "tf_tcp f' = Some (u\<lparr>synTime := t\<rparr>) \<and> \<not> twh_over f'
    \<and> numEstablishedFlows (tw_tcpFlowStats w') = numEstablishedFlows (tw_tcpFlowStats w)"
proof (rule updateTcpFlags_packet [OF assms(1), of t fl d f w])
  fix w1
  assume "updateTcpFlags ifc t fl d (f, w) = handshake ifc t (fl AND TCP_3WH_MASK)
      (calculateConnectionState False (add_tcp_flags fl d (upd_dir_stats (count_tcp_flags fl) d f)), w1)"
    "numEstablishedFlows (tw_tcpFlowStats w1) = numEstablishedFlows (tw_tcpFlowStats w)"
  then show ?thesis using assms by (auto simp: handshake_def stored_flow)
qed

lemma synack_step:
  assumes "isPacketInterface ifc" "updateTcpFlags ifc t fl d (f, w) = (f', w')"
    and "fl AND TCP_3WH_MASK = TH_SYN OR TH_ACK"
    and "tf_tcp f = Some u" "\<not> twh_over f" "tv_sec (synAckTime u) = 0" "tv_sec (synTime u) > 0"
    and "tv_sec (synTime u) \<le> tv_sec t" "timeval_usec t - timeval_usec (synTime u) \<le> 5000000"
  shows "tf_tcp f' = Some (u\<lparr>synAckTime := t, serverRTT3WH := timeval_usec t - timeval_usec (synTime u)\<rparr>) \<and> \<not> twh_over f'
    \<and> numEstablishedFlows (tw_tcpFlowStats w') = numEstablishedFlows (tw_tcpFlowStats w)"
proof (rule updateTcpFlags_packet [OF assms(1), of t fl d f w])
  fix w1
  assume e: "updateTcpFlags ifc t fl d (f, w) = handshake ifc t (fl AND TCP_3WH_MASK)
      (calculateConnectionState False (add_tcp_flags fl d (upd_dir_stats (count_tcp_flags fl) d f)), w1)"
    "numEstablishedFlows (tw_tcpFlowStats w1) = numEstablishedFlows (tw_tcpFlowStats w)"
  obtain r where "timeval_diff False (synTime u) t = (synTime u, r)"
    "timeval_usec r = timeval_usec t - timeval_usec (synTime u)"
    by (rule timeval_diff_usec [OF assms(8)])
  then show ?thesis using e assms flags_distinct by (auto simp: handshake_def stored_flow rtt_of_small)
qed

lemma ack_step:
  assumes "isPacketInterface ifc" "updateTcpFlags ifc t fl d (f, w) = (f', w')"
    and "fl AND TCP_3WH_MASK = TH_ACK"
    and "tf_tcp f = Some u" "\<not> twh_over f" "tv_sec (ackTime u) = 0" "tv_sec (synAckTime u) > 0"
    and "tv_sec (synAckTime u) \<le> tv_sec t" "timeval_usec t - timeval_usec (synAckTime u) \<le> 5000000"
  shows "tf_tcp f' \<noteq> None \<and> twh_over f' \<and> rtt_usec f' = serverRTT3WH u + (timeval_usec t - timeval_usec (synAckTime u))
    \<and> numEstablishedFlows (tw_tcpFlowStats w') = numEstablishedFlows (tw_tcpFlowStats w) + 1"
proof (rule updateTcpFlags_packet [OF assms(1), of t fl d f w])
  fix w1
  assume e: "updateTcpFlags ifc t fl d (f, w) = handshake ifc t (fl AND TCP_3WH_MASK)
      (calculateConnectionState False (add_tcp_flags fl d (upd_dir_stats (count_tcp_flags fl) d f)), w1)"
    "numEstablishedFlows (tw_tcpFlowStats w1) = numEstablishedFlows (tw_tcpFlowStats w)"
  obtain r where "timeval_diff False (synAckTime u) t = (synAckTime u, r)"
    "timeval_usec r = timeval_usec t - timeval_usec (synAckTime u)"
    by (rule timeval_diff_usec [OF assms(8)])
  then show ?thesis
    using e assms flags_distinct
    by (auto simp: handshake_def stored_flow rtt_of_small upd_flow_stats_def incEstablished_def)
qed

lemma mask_flag:
  assumes "m \<in> {TH_FIN, TH_SYN, TH_RST, TH_ACK}"
  shows "isTCPFlagSet fl m \<longleftrightarrow> isTCPFlagSet (fl AND TCP_3WH_MASK) m"
proof -
  have "TCP_3WH_MASK AND m = m" using assms by (auto simp: TCP_3WH_MASK_def TH_defs)
  then show ?thesis by (simp add: isTCPFlagSet_def and.assoc)
qed

lemma handshake_flags:
  "fl AND TCP_3WH_MASK = TH_SYN \<Longrightarrow> isTCPFlagSet fl TH_SYN \<and> \<not> isTCPFlagSet fl TH_FIN \<and> \<not> isTCPFlagSet fl TH_RST"
  "fl AND TCP_3WH_MASK = TH_SYN OR TH_ACK \<Longrightarrow>
     isTCPFlagSet fl TH_SYN \<and> isTCPFlagSet fl TH_ACK \<and> \<not> isTCPFlagSet fl TH_FIN \<and> \<not> isTCPFlagSet fl TH_RST"
  "fl AND TCP_3WH_MASK = TH_ACK \<Longrightarrow> isTCPFlagSet fl TH_ACK \<and> \<not> isTCPFlagSet fl TH_FIN \<and> \<not> isTCPFlagSet fl TH_RST"
  using mask_flag [of TH_FIN fl] mask_flag [of TH_SYN fl] mask_flag [of TH_RST fl] mask_flag [of TH_ACK fl]
  by (simp_all add: isTCPFlagSet_def TH_defs)

lemma single_flag: "isTCPFlagSet x m \<longleftrightarrow> x AND m = m" if "m \<in> {TH_FIN, TH_SYN, TH_RST, TH_ACK}"
proof -
  have "m = 2 ^ 0 \<or> m = 2 ^ 1 \<or> m = 2 ^ 2 \<or> m = 2 ^ 4" using that by (auto simp: TH_defs)
  moreover have "0 < (8 :: nat)" "1 < (8 :: nat)" "2 < (8 :: nat)" "4 < (8 :: nat)" by simp_all
  ultimately obtain n where m: "m = 2 ^ n" and n: "n < 8" by blast
  show ?thesis
  proof (cases "bit x n")
    case True
    then have "x AND m = m" by (intro bit_eqI) (auto simp: m bit_simps)
    then show ?thesis using n by (simp add: isTCPFlagSet_def m)
  next
    case False
    then have "x AND m = 0" by (intro bit_eqI) (auto simp: m bit_simps)
    then show ?thesis using n by (auto simp: isTCPFlagSet_def m)
  qed
qed

lemma isTCPEstablished_intro:
  assumes "isTCPFlagSet (src2dst_tcp_flags f) TH_SYN" "isTCPFlagSet (src2dst_tcp_flags f) TH_ACK"
    and "isTCPFlagSet (dst2src_tcp_flags f) TH_SYN" "isTCPFlagSet (dst2src_tcp_flags f) TH_ACK"
    and "\<not> isTCPFlagSet (src2dst_tcp_flags f) TH_FIN"
    and "\<not> isTCPFlagSet (src2dst_tcp_flags f) TH_RST" "\<not> isTCPFlagSet (dst2src_tcp_flags f) TH_RST"
  shows "isTCPEstablished f"
proof -
  have m: "x AND (TH_SYN OR TH_ACK) = TH_SYN OR TH_ACK" if "isTCPFlagSet x TH_SYN" "isTCPFlagSet x TH_ACK" for x
    using that by (simp add: single_flag bit.conj_disj_distrib)
  let ?m = "TH_SYN OR TH_ACK OR TH_FIN"
  have "src2dst_tcp_flags f AND ?m \<noteq> ?m"
  proof
    assume "src2dst_tcp_flags f AND ?m = ?m"
    then have "src2dst_tcp_flags f AND (?m AND TH_FIN) = ?m AND TH_FIN" by (simp flip: and.assoc)
    moreover have "?m AND TH_FIN = TH_FIN" by (simp add: TH_defs)
    ultimately show False using assms(5) by (simp add: single_flag)
  qed
  then show ?thesis
    using assms(6,7) m [OF assms(1,2)] m [OF assms(3,4)]
    by (simp add: isTCPEstablished_def isTCPClosed_def isTCPReset_def isTCPFlagSet_def isThreeWayHandshakeOK_def)
qed

section \<open>Properties\<close>

text \<open>The concrete inputs of the witnesses.\<close>

definition wit_ifc :: iface_env where
  "wit_ifc = \<lparr> get_id = 1, isPacketInterface = True, isRunning = True, is_purge_idle_interface = True,
     getTimeLastPktRcvd = 100, skipDPIforCollectedFlows = False, disablePurge = False \<rparr>"

definition wit_tcp_flow :: tcp_flow where
  "wit_tcp_flow = \<lparr> ptr = 1, hash_entry_state = hash_entry_state_allocated, num_uses = 0, first_seen = 1,
     last_seen = 1, hash_entry_id = 1, creation_time = 1, is_tcp = True, src2dst_tcp_flags = 0,
     dst2src_tcp_flags = 0, proto_tcp = True, tf_cli = None, tf_srv = None, tf_tcp = Some FlowTCP_calloc,
     src2dst_tcp_zero_window = False, dst2src_tcp_zero_window = False,
     tcp_stats_cli2srv = \<lparr> num_syn = 0, num_rst = 0, num_fin = 0, num_zero_window = 0 \<rparr>,
     tcp_stats_srv2cli = \<lparr> num_syn = 0, num_rst = 0, num_fin = 0, num_zero_window = 0 \<rparr>,
     current_c_state = MINOR_NO_STATE, twh_over = False, twh_over_view = False, rtt_usec = 0,
     tf_stats = PartializableFlowTrafficStats_new \<rparr>"

definition wit_world :: tcp_world where
  "wit_world =
     (let c = AlertCounter_new; z = PacketStats_resetStats
      in \<lparr> tw_hosts = (\<lambda>_. \<lparr> syn_sent_last_min = 0, syn_recvd_last_min = 0, synack_sent_last_min = 0,
             synack_recvd_last_min = 0, fin_sent_last_min = 0, fin_recvd_last_min = 0, finack_sent_last_min = 0,
             finack_recvd_last_min = 0, rst_attacker = c, rst_victim = c, sent_pkt_stats = z, recv_pkt_stats = z,
             network_stats = None \<rparr>),
           tw_nets = (\<lambda>_. \<lparr> syn_flood_victim_alert = c, ns_syn_recvd_last_min = 0, ns_synack_sent_last_min = 0 \<rparr>),
           tw_pktStats = z, tw_tcpFlowStats = TcpFlowStats_new \<rparr>)"

definition wit_packet :: "int \<Rightarrow> bool \<Rightarrow> u8 \<Rightarrow> u32 \<Rightarrow> u16 \<Rightarrow> tcp_packet" where
  "wit_packet t d fl q len = \<lparr> tp_when = \<lparr> tv_sec = t, tv_usec = 0 \<rparr>, tp_src2dst = d, tp_flags = fl,
     tp_seq = q, tp_window = 1000, tp_len = len \<rparr>"

text \<open>
  C10: A TCP connection whose packets arrive in order in each direction, however the two
  directions interleave and wherever the sequence numbers wrap around, is never charged
  with a retransmission, a loss, an out-of-order packet or a keep-alive.
\<close>
theorem tcp_in_order_clean:
  assumes "isPacketInterface ifc" "tf_tcp f = Some FlowTCP_calloc" "in_order None None ps"
  shows "tf_stats (fst (fold (process_tcp_packet ifc) ps (f, w))) = tf_stats f"
proof -
  have "seqs f = Some (\<lparr> seq_last = 0, seq_next = 0 \<rparr>, \<lparr> seq_last = 0, seq_next = 0 \<rparr>)"
    using assms(2) by (simp add: seqs_def FlowTCP_calloc_def Let_def)
  then show ?thesis by (rule in_order_stats [OF assms(1,3)]) (simp_all add: expects_def)
qed

theorem tcp_in_order_clean_witness:
  "tf_stats (fst (fold (process_tcp_packet wit_ifc)
     [wit_packet 5 True TH_SYN 0xFFFFFFFF 0, wit_packet 5 False (TH_SYN OR TH_ACK) 70 0,
      wit_packet 6 True TH_ACK 0 100, wit_packet 6 True (TH_FIN OR TH_ACK) 100 0,
      wit_packet 7 False TH_ACK 71 0, wit_packet 7 True TH_ACK 101 0] (wit_tcp_flow, wit_world)))
   = tf_stats wit_tcp_flow"
  by (rule tcp_in_order_clean)
    (simp_all add: wit_ifc_def wit_tcp_flow_def wit_packet_def seq_after_def TH_defs)

text \<open>
  C37: Once a segment is lost while the sequence numbers wrap around (the number expected
  next is below the last one seen), every later packet between the two is charged as a
  retransmission and the expected number is never moved again, however many in-order packets
  follow.
\<close>
theorem tcp_wrap_all_retransmissions:
  assumes "seq_next s \<noteq> 0"
    and "\<forall>(q, fl, len) \<in> set ps. unat (seq_next s) + 1 < unat q \<and> ucast q < seq_last s"
  shows "seq_run ps s = (replicate (length ps) Seq_retx, s)"
  using assms(2)
proof (induction ps)
  case (Cons p ps)
  obtain q fl len where p: "p = (q, fl, len)" by (cases p)
  have q: "unat (seq_next s) + 1 < unat q" "ucast q < seq_last s" using Cons.prems p by auto
  have "unat (seq_next s) \<noteq> unat (q - 1)" using q(1) by (auto simp: unat_pred)
  then have "seq_check q fl len s = (Seq_retx, s)"
    using assms(1) q by (intro seq_check_wrapped) (auto simp: word_order_unat)
  then show ?case using Cons by (simp add: p)
qed simp

theorem tcp_wrap_all_retransmissions_witness:
  "seq_run [(0x300, TH_ACK, 256), (0x400, TH_ACK, 256), (0x500, TH_ACK, 256)]
     \<lparr> seq_last = 0xFFFFFF00, seq_next = 0x100 \<rparr>
   = ([Seq_retx, Seq_retx, Seq_retx], \<lparr> seq_last = 0xFFFFFF00, seq_next = 0x100 \<rparr>)"
  using tcp_wrap_all_retransmissions [of "\<lparr> seq_last = 0xFFFFFF00, seq_next = 0x100 \<rparr>"
      "[(0x300, TH_ACK, 256), (0x400, TH_ACK, 256), (0x500, TH_ACK, 256)]"]
  by (simp add: numeral_3_eq_3)

text \<open>
  Of a run of empty keep-alive probes (one below the expected number) only the first is counted.
\<close>
theorem tcp_keepalive_counted_once:
  assumes "seq_next s = ucast (k + 1)" "k + 1 \<noteq> 0" "fl AND (TH_SYN OR TH_FIN OR TH_RST) = 0"
  shows "seq_run (replicate (Suc n) (k, fl, 0)) s
    = (Seq_keep_alive # replicate n Seq_ok, \<lparr> seq_last = ucast k, seq_next = ucast k \<rparr>)"
proof -
  have "fl AND TH_SYN = 0" using assms(3) by (simp add: bit.conj_disj_distrib or_eq_0_iff)
  then have "seq_run (replicate n (k, fl, 0)) \<lparr> seq_last = ucast k, seq_next = ucast k \<rparr>
      = (replicate n Seq_ok, \<lparr> seq_last = ucast k, seq_next = ucast k \<rparr>)"
    by (induction n) (simp_all add: seq_check_again)
  then show ?thesis by (simp add: seq_check_keepalive [OF assms])
qed

theorem tcp_keepalive_counted_once_witness:
  "fst (seq_run (replicate (Suc 4) (999, TH_ACK, 0)) \<lparr> seq_last = 900, seq_next = 1000 \<rparr>)
   = Seq_keep_alive # replicate 4 Seq_ok"
  using tcp_keepalive_counted_once [of "\<lparr> seq_last = 900, seq_next = 1000 \<rparr>" 999 TH_ACK 4]
  by (simp add: TH_defs del: replicate.simps seq_run.simps)

text \<open>
  C15: After the packets of a handshake (ECN bits do not matter), each at most 5 s after the
  one before, the flow is in the established state, the handshake is over, the RTT is
  the time from the SYN to the final ACK and the interface has counted one more established flow.
\<close>
theorem tcp_three_way_handshake:
  assumes "isPacketInterface ifc" "proto_tcp f" "tf_tcp f = Some FlowTCP_calloc" "\<not> twh_over f"
    and "src2dst_tcp_flags f = 0" "dst2src_tcp_flags f = 0"
    and "a AND TCP_3WH_MASK = TH_SYN" "b AND TCP_3WH_MASK = TH_SYN OR TH_ACK" "c AND TCP_3WH_MASK = TH_ACK"
    and "0 < tv_sec t1" "tv_sec t1 \<le> tv_sec t2" "tv_sec t2 \<le> tv_sec t3"
    and "timeval_usec t2 - timeval_usec t1 \<le> 5000000" "timeval_usec t3 - timeval_usec t2 \<le> 5000000"
    and "updateTcpFlags ifc t1 a True (f, w) = (f1, w1)" "updateTcpFlags ifc t2 b False (f1, w1) = (f2, w2)"
    and "updateTcpFlags ifc t3 c True (f2, w2) = (f3, w3)"
  shows "current_c_state f1 = S0 \<and> current_c_state f2 = S1 \<and> current_c_state f3 = S1
    \<and> isTCPEstablished f3 \<and> twh_over f3 \<and> rtt_usec f3 = timeval_usec t3 - timeval_usec t1
    \<and> numEstablishedFlows (tw_tcpFlowStats w3) = numEstablishedFlows (tw_tcpFlowStats w) + 1"
proof -
  note F1 = updateTcpFlags_keeps [OF assms(1,15)] and F2 = updateTcpFlags_keeps [OF assms(1,16)]
    and F3 = updateTcpFlags_keeps [OF assms(1,17)]
  let ?t = "FlowTCP_calloc\<lparr>synTime := t1\<rparr>"
  let ?u = "?t\<lparr>synAckTime := t2, serverRTT3WH := timeval_usec t2 - timeval_usec t1\<rparr>"
  have z: "tv_sec (synTime FlowTCP_calloc) = 0" "tv_sec (synAckTime ?t) = 0" "tv_sec (ackTime ?u) = 0"
    by (simp_all add: FlowTCP_calloc_def Let_def)
  have s1: "tf_tcp f1 = Some ?t \<and> \<not> twh_over f1
      \<and> numEstablishedFlows (tw_tcpFlowStats w1) = numEstablishedFlows (tw_tcpFlowStats w)"
    by (rule syn_step [OF assms(1,15,7) assms(3,4) z(1)])
  have s2: "tf_tcp f2 = Some ?u \<and> \<not> twh_over f2
      \<and> numEstablishedFlows (tw_tcpFlowStats w2) = numEstablishedFlows (tw_tcpFlowStats w1)"
    using synack_step [OF assms(1,16,8), of ?t] s1 z(2) assms(10,11,13) by simp
  have s3: "tf_tcp f3 \<noteq> None \<and> twh_over f3 \<and> rtt_usec f3 = serverRTT3WH ?u + (timeval_usec t3 - timeval_usec t2)
      \<and> numEstablishedFlows (tw_tcpFlowStats w3) = numEstablishedFlows (tw_tcpFlowStats w2) + 1"
    using ack_step [OF assms(1,17,9), of ?u] s2 z(3) assms(10-12,14) by simp
  have n: "tf_tcp f \<noteq> None" "tf_tcp f1 \<noteq> None" "tf_tcp f2 \<noteq> None" using assms(3) s1 s2 by simp_all
  note fl = handshake_flags(1) [OF assms(7)] handshake_flags(2) [OF assms(8)] handshake_flags(3) [OF assms(9)]
  have z0: "\<not> isTCPFlagSet 0 m" for m by (simp add: isTCPFlagSet_def)
  have c1: "current_c_state f1 = S0"
    using assms(2,5,6) n(1) fl z0 by (simp add: F1(8) next_c_state_def isTCPFlagSet_or Let_def)
  have c2: "current_c_state f2 = S1"
    unfolding F2(8) using assms(2,5,6) n(2) fl z0 c1
    by (subst next_c_state_both_syn) (simp_all add: F1(1,6,7) isTCPFlagSet_or Let_def)
  have c3: "current_c_state f3 = S1"
    unfolding F3(8) using assms(2,5,6) n(3) fl z0 c2
    by (subst next_c_state_both_syn) (simp_all add: F1(1,6,7) F2(1,6,7) isTCPFlagSet_or Let_def)
  have "isTCPEstablished f3"
    by (rule isTCPEstablished_intro)
      (use assms(5,6) fl z0 in \<open>simp_all add: F1(6,7) F2(6,7) F3(6,7) isTCPFlagSet_or\<close>)
  then show ?thesis using c1 c2 c3 s1 s2 s3 by simp
qed

definition wit_hs :: "nat \<Rightarrow> tcp_flow \<times> tcp_world" where
  "wit_hs n = fold (\<lambda>(t, fl, d). updateTcpFlags wit_ifc t fl d)
     (take n [(\<lparr> tv_sec = 10, tv_usec = 900000 \<rparr>, TH_SYN OR TH_ECE OR TH_CWR, True),
              (\<lparr> tv_sec = 11, tv_usec = 100000 \<rparr>, TH_SYN OR TH_ACK OR TH_ECE, False),
              (\<lparr> tv_sec = 11, tv_usec = 350000 \<rparr>, TH_ACK, True)]) (wit_tcp_flow, wit_world)"

theorem tcp_three_way_handshake_witness:
  "current_c_state (fst (wit_hs 1)) = S0 \<and> current_c_state (fst (wit_hs 2)) = S1
   \<and> isTCPEstablished (fst (wit_hs 3)) \<and> rtt_usec (fst (wit_hs 3)) = 450000
   \<and> numEstablishedFlows (tw_tcpFlowStats (snd (wit_hs 3))) = 1"
proof -
  obtain f1 w1 where 1: "wit_hs 1 = (f1, w1)" by fastforce
  obtain f2 w2 where 2: "wit_hs 2 = (f2, w2)" by fastforce
  obtain f3 w3 where 3: "wit_hs 3 = (f3, w3)" by fastforce
  note e = 1 [unfolded wit_hs_def] 2 [unfolded wit_hs_def] 3 [unfolded wit_hs_def]
  have "current_c_state f1 = S0 \<and> current_c_state f2 = S1 \<and> current_c_state f3 = S1
    \<and> isTCPEstablished f3 \<and> twh_over f3
    \<and> rtt_usec f3 = timeval_usec \<lparr> tv_sec = 11, tv_usec = 350000 \<rparr> - timeval_usec \<lparr> tv_sec = 10, tv_usec = 900000 \<rparr>
    \<and> numEstablishedFlows (tw_tcpFlowStats w3) = numEstablishedFlows (tw_tcpFlowStats wit_world) + 1"
    by (rule tcp_three_way_handshake [where ifc = wit_ifc and f = wit_tcp_flow and w = wit_world
          and a = "TH_SYN OR TH_ECE OR TH_CWR" and b = "TH_SYN OR TH_ACK OR TH_ECE" and c = TH_ACK
          and ?t1.0 = "\<lparr> tv_sec = 10, tv_usec = 900000 \<rparr>" and ?t2.0 = "\<lparr> tv_sec = 11, tv_usec = 100000 \<rparr>"
          and ?t3.0 = "\<lparr> tv_sec = 11, tv_usec = 350000 \<rparr>" and ?f1.0 = f1 and ?w1.0 = w1 and ?f2.0 = f2 and ?w2.0 = w2])
      (use e in \<open>simp_all add: wit_ifc_def wit_tcp_flow_def TCP_3WH_MASK_def TH_defs timeval_usec_def\<close>)
  then show ?thesis unfolding 1 2 3 by (simp add: timeval_usec_def wit_world_def TcpFlowStats_new_def Let_def)
qed

text \<open>
  C20: An established connection that has been closed, by the client's FIN, by both FINs or by a
  RST, stays in a closed state whatever packets follow, new SYNs included.
\<close>
theorem tcp_closed_absorbing:
  assumes "isPacketInterface ifc" "closed_conn f"
  shows "getMajorConnState (current_c_state (fst (fold (process_tcp_packet ifc) ps (f, w)))) = CLOSED"
proof -
  have "closed_conn (fst (fold (process_tcp_packet ifc) ps (f, w)))"
    using assms(2)
  proof (induction ps arbitrary: f w)
    case (Cons p ps)
    obtain f' w' where e: "process_tcp_packet ifc p (f, w) = (f', w')" by fastforce
    from Cons.IH [OF closed_conn_step [OF assms(1) Cons.prems e]] show ?case by (simp add: e)
  qed simp
  then show ?thesis by (auto simp: closed_conn_def)
qed

definition wit_closed_flow :: tcp_flow where
  "wit_closed_flow = wit_tcp_flow\<lparr>src2dst_tcp_flags := TH_SYN OR TH_ACK OR TH_FIN,
     dst2src_tcp_flags := TH_SYN OR TH_ACK, current_c_state := S2\<rparr>"

theorem tcp_closed_absorbing_witness:
  "getMajorConnState (current_c_state (fst (fold (process_tcp_packet wit_ifc)
     [wit_packet 9 False (TH_FIN OR TH_ACK) 5 0, wit_packet 9 True TH_SYN 77 0, wit_packet 9 True TH_RST 78 0]
     (wit_closed_flow, wit_world)))) = CLOSED"
  by (rule tcp_closed_absorbing)
    (simp_all add: wit_ifc_def wit_closed_flow_def wit_tcp_flow_def closed_conn_def isTCPFlagSet_def TH_defs)

text \<open>
  C36: When the server has closed its side and the client keeps sending, the connection state is not
  stable: every further packet without FIN and RST flips it between S3 (closed) and S1
  (established), in either direction.
\<close>
theorem tcp_half_closed_oscillates:
  assumes "isPacketInterface ifc" "half_closed f" "current_c_state f = S3"
    and "\<forall>p \<in> set ps. tp_flags p AND (TH_FIN OR TH_RST) = 0"
  shows "getMajorConnState (current_c_state (fst (fold (process_tcp_packet ifc) ps (f, w))))
    = (if even (length ps) then CLOSED else ESTABLISHED)"
  using half_closed_alternates [where b = True, OF assms(1,2) _ assms(4), of w] assms(3) by simp

definition wit_half_flow :: tcp_flow where
  "wit_half_flow = wit_tcp_flow\<lparr>src2dst_tcp_flags := TH_SYN OR TH_ACK,
     dst2src_tcp_flags := TH_SYN OR TH_ACK OR TH_FIN, current_c_state := S3\<rparr>"

theorem tcp_half_closed_oscillates_witness:
  "map (\<lambda>n. getMajorConnState (current_c_state (fst (fold (process_tcp_packet wit_ifc)
     (replicate n (wit_packet 9 True TH_ACK 5 10)) (wit_half_flow, wit_world))))) [1, 2, 3]
   = [ESTABLISHED, CLOSED, ESTABLISHED]"
proof -
  have h: "half_closed wit_half_flow" "current_c_state wit_half_flow = S3" "isPacketInterface wit_ifc"
    by (simp_all add: wit_ifc_def wit_half_flow_def wit_tcp_flow_def half_closed_def isTCPFlagSet_def TH_defs)
  have "\<forall>p \<in> set (replicate n (wit_packet 9 True TH_ACK 5 10)). tp_flags p AND (TH_FIN OR TH_RST) = 0" for n
    by (simp add: wit_packet_def TH_defs)
  note t = tcp_half_closed_oscillates [OF h(3,1,2) this, where w = wit_world]
  show ?thesis using t [of 1] t [of 2] t [of 3] by (simp del: fold_replicate replicate.simps)
qed

text \<open>
  C22: A flow is counted as established at most once over any history of packets,
  and not again once its handshake is over.
\<close>
theorem tcp_established_once:
  assumes "isPacketInterface ifc" "fold (process_tcp_packet ifc) ps (f, w) = (f', w')"
  shows "numEstablishedFlows (tw_tcpFlowStats w') - numEstablishedFlows (tw_tcpFlowStats w)
    \<in> (if twh_over f \<or> \<not> twh_over f' then {0} else {0, 1})"
  using established_history [OF assms(1), of ps f w] by (auto simp: assms(2) Let_def)

theorem tcp_established_once_witness:
  "numEstablishedFlows (tw_tcpFlowStats (snd (fold (process_tcp_packet wit_ifc)
     (replicate 20 (wit_packet 9 True TH_ACK 5 10)) (wit_tcp_flow\<lparr>twh_over := True\<rparr>, wit_world)))) = 0"
proof -
  obtain f w where e: "fold (process_tcp_packet wit_ifc) (replicate 20 (wit_packet 9 True TH_ACK 5 10))
      (wit_tcp_flow\<lparr>twh_over := True\<rparr>, wit_world) = (f, w)" by fastforce
  have "isPacketInterface wit_ifc" by (simp add: wit_ifc_def)
  from tcp_established_once [OF this e] show ?thesis
    unfolding e by (simp add: wit_world_def TcpFlowStats_new_def Let_def)
qed

text \<open>
  C35: The counter of FIN flows counts every packet of a connection that carries ACK and no FIN,
  as long as no FIN has been seen.
\<close>
theorem tcp_fin_flows_overcounted:
  assumes "isPacketInterface ifc" "seen_flags f AND TH_FIN = 0"
    and "\<forall>p \<in> set ps. tp_flags p AND TH_FIN = 0 \<and> tp_flags p AND TH_ACK \<noteq> 0"
  shows "numFinFlows (tw_tcpFlowStats (snd (fold (process_tcp_packet ifc) ps (f, w))))
    = numFinFlows (tw_tcpFlowStats w) + of_nat (length ps)"
  using assms(2,3)
proof (induction ps arbitrary: f w)
  case (Cons p ps)
  obtain f' w' where e: "process_tcp_packet ifc p (f, w) = (f', w')" by fastforce
  note K = process_tcp_packet_keeps(3,4,8) [OF assms(1) e]
  have "seen_flags f' AND TH_FIN = 0"
    using Cons.prems by (auto simp: seen_flags_def K(1,2) bit.conj_disj_distrib2 or_eq_0_iff)
  moreover have "numFinFlows (tw_tcpFlowStats w') = numFinFlows (tw_tcpFlowStats w) + 1"
    unfolding K(3) by (rule no_fin_step) (use Cons.prems in auto)
  ultimately show ?case using Cons.IH [of f' w'] Cons.prems(2) by (simp add: e)
qed simp

theorem tcp_fin_flows_overcounted_witness:
  "numFinFlows (tw_tcpFlowStats (snd (fold (process_tcp_packet wit_ifc)
     (replicate 20 (wit_packet 9 True TH_ACK 5 10)) (wit_tcp_flow, wit_world)))) = 20"
  by (subst tcp_fin_flows_overcounted)
    (simp_all add: wit_ifc_def wit_tcp_flow_def seen_flags_def wit_packet_def TH_defs wit_world_def TcpFlowStats_new_def Let_def)

text \<open>
  C38: The flags of a collected record that come as one value for both directions are
  never used: the flow and the counters only depend on the values per direction.
\<close>
theorem collected_tcp_flags_ignored:
  "processFlow_tcp ifc now d zf s = processFlow_tcp ifc now d (zf\<lparr>zf_tcp_flags := v\<rparr>) s"
  by (auto simp: processFlow_tcp_def updateTcpSeqIssues_def Let_def split: prod.split)

end
