(* ===== verification/Packet_Dissector.thy ===== *)
theory Packet_Dissector
  imports Icmp_Info
begin

text \<open>
  The dissection of captured packets: NetworkInterface::dissectPacket in
  src/src/NetworkInterface.cpp, from the link layer through VLAN tags, MPLS labels and tunnels
  to the IP header handed to processPacket.

  The captured bytes are a list, \<open>caplen\<close> is its length and a read outside of it is
  the error \<open>Heap_overflow\<close>. The two labels of the code are the two kinds of jumps;
  \<open>eth_offset\<close>, \<open>ip_offset\<close> and the encapsulation overhead are kept in 16 bits, so each
  assignment to them is reduced modulo 65536. The layout of the Ethernet, IP, UDP and VXLAN
  headers is that of the protocols (14, 20, 40, 8 and 8 bytes). Left out: the housekeeping calls
  before the dissection, trace messages, live captures, and the exception of a failed allocation.
\<close>

section \<open>Bytes of the packet\<close>

definition be16 :: "u8 \<Rightarrow> u8 \<Rightarrow> u16" where
  "be16 a b = le16 b a"

definition be16_at :: "u8 list \<Rightarrow> nat \<Rightarrow> c_error + u16" where
  "be16_at p i = and_then (get8 p i) (\<lambda>a. and_then (get8 p (i + 1)) (\<lambda>b. Inr (be16 a b)))"

definition bytes_at :: "u8 list \<Rightarrow> nat \<Rightarrow> nat \<Rightarrow> c_error + u8 list" where
  "bytes_at p i n = (if i + n \<le> length p then Inr (take n (drop i p)) else Inl Heap_overflow)"

definition trunc16 :: "nat \<Rightarrow> nat" where
  "trunc16 n = n mod 65536"

section \<open>State\<close>

definition DLT_NULL :: nat where "DLT_NULL = 0"
definition DLT_EN10MB :: nat where "DLT_EN10MB = 1"
definition DLT_RAW :: nat where "DLT_RAW = 12"
definition DLT_PPP_ETHER :: nat where "DLT_PPP_ETHER = 51"
definition DLT_ENC :: nat where "DLT_ENC = 109"
definition DLT_LINUX_SLL :: nat where "DLT_LINUX_SLL = 113"
definition DLT_IPV4 :: nat where "DLT_IPV4 = 228"
definition DLT_LINUX_SLL2 :: nat where "DLT_LINUX_SLL2 = 276"

lemmas DLT_defs = DLT_NULL_def DLT_EN10MB_def DLT_RAW_def DLT_PPP_ETHER_def DLT_ENC_def DLT_LINUX_SLL_def
  DLT_IPV4_def DLT_LINUX_SLL2_def

definition ETHERTYPE_IP :: u16 where "ETHERTYPE_IP = 0x0800"
definition ETHERTYPE_ARP :: u16 where "ETHERTYPE_ARP = 0x0806"
definition ETHERTYPE_VLAN :: u16 where "ETHERTYPE_VLAN = 0x8100"
definition ETHERTYPE_IPV6 :: u16 where "ETHERTYPE_IPV6 = 0x86DD"
definition ETHERTYPE_MPLS :: u16 where "ETHERTYPE_MPLS = 0x8847"
definition ETHERTYPE_PPPoE :: u16 where "ETHERTYPE_PPPoE = 0x8864"
definition ETH_P_ERSPAN :: u16 where "ETH_P_ERSPAN = 0x88BE"
definition ETH_P_ERSPAN2 :: u16 where "ETH_P_ERSPAN2 = 0x22EB"

lemmas eth_defs = ETHERTYPE_IP_def ETHERTYPE_ARP_def ETHERTYPE_VLAN_def ETHERTYPE_IPV6_def ETHERTYPE_MPLS_def
  ETHERTYPE_PPPoE_def ETH_P_ERSPAN_def ETH_P_ERSPAN2_def

definition GTP_U_V1_PORT :: u16 where "GTP_U_V1_PORT = 2152"
definition EOIP_PORT :: u16 where "EOIP_PORT = 16667"
definition L2TP_PORT :: u16 where "L2TP_PORT = 1701"
definition TZSP_PORT :: u16 where "TZSP_PORT = 37008"
definition VXLAN_PORT :: u16 where "VXLAN_PORT = 4789"
definition CAPWAP_DATA_PORT :: u16 where "CAPWAP_DATA_PORT = 5247"

lemmas port_defs = GTP_U_V1_PORT_def EOIP_PORT_def L2TP_PORT_def TZSP_PORT_def VXLAN_PORT_def CAPWAP_DATA_PORT_def

definition IPPROTO_IP_IN_IP :: u8 where "IPPROTO_IP_IN_IP = 4"
definition IPPROTO_TCP :: u8 where "IPPROTO_TCP = 6"
definition IPPROTO_IPV6 :: u8 where "IPPROTO_IPV6 = 41"
definition IPPROTO_GRE :: u8 where "IPPROTO_GRE = 47"
definition IPPROTO_SCTP :: u8 where "IPPROTO_SCTP = 132"

lemmas proto_defs = IPPROTO_IP_IN_IP_def IPPROTO_TCP_def IPPROTO_IPV6_def IPPROTO_GRE_def IPPROTO_SCTP_def
  IPPROTO_UDP_def IPPROTO_ICMP_def

text \<open>The interface, its preferences and the header of the packet (\<open>h->len\<close> and the scaled length).\<close>

record dissect_env =
  datalink_type :: nat
  decode_tunnels :: bool
  do_ignore_vlans :: bool
  do_simulate_vlans :: bool
  do_ignore_macs :: bool
  do_simulate_macs :: bool
  rand_mac :: "u8 \<times> u8"
  sender_mac :: "u8 list option"
  isTrafficMirrored :: bool
  isGwMacConfigured :: bool
  areTrafficDirectionsSupported :: bool
  isGwMac :: "u8 list \<Rightarrow> bool"
  isInterfaceMac :: "u8 list \<Rightarrow> bool"
  h_len :: u32
  len_on_wire :: u32

datatype eth_ptr = Eth_null | Eth_dummy | Eth_at nat

record dstate =
  d_eth_offset :: nat
  d_ip_offset :: nat
  d_eth_type :: u16
  d_vlan_id :: u16
  d_overhead :: nat
  d_ethernet :: eth_ptr
  d_dummy_dest :: "u8 list"
  d_dummy_source :: "u8 list"
  d_ingress :: bool

text \<open>The IP header handed to processPacket: its version and where it starts.\<close>

datatype l3_hdr = IPv4_at nat | IPv6_at nat

text \<open>
  How the dissection of a packet ends: counted by incStats with an Ethernet type and a length,
  without being counted, handed to processPacket, or as a frame that is not IP, with the
  operation and the two addresses of an ARP frame.
\<close>

datatype verdict =
  Counted bool u16 u32
| Uncounted
| To_process l3_hdr dstate
| Other_eth "(u16 \<times> u32 \<times> u32) option" dstate

datatype jump = Datalink dstate | Decode dstate | Done verdict

text \<open>What the decoding of a tunnel leads to: a jump, or the header to process.\<close>

datatype tunnel = Jump jump | Pass l3_hdr dstate

definition count_end :: "dstate \<Rightarrow> u16 \<Rightarrow> u32 \<Rightarrow> jump" where
  "count_end s t n = Done (Counted (d_ingress s) t n)"

section \<open>Link layer\<close>

definition datalink_check :: "dissect_env \<Rightarrow> u8 list \<Rightarrow> dstate \<Rightarrow> c_error + jump" where
  "datalink_check env p s =
     (let e = d_eth_offset s; caplen = length p; dlt = datalink_type env;
          bad = Inr (count_end s 0 (h_len env)); unknown = Inr (count_end s 0 (len_on_wire env));
          sm = (case sender_mac env of None \<Rightarrow> s | Some m \<Rightarrow> s\<lparr>d_dummy_source := m\<rparr>)
      in if dlt = DLT_NULL then
           if caplen < 4 then bad
           else if e + 4 \<le> caplen then
             and_then (get32 p e) (\<lambda>null_type.
               if null_type = 2
               then Inr (Decode (sm\<lparr>d_eth_type := ETHERTYPE_IP, d_ethernet := Eth_dummy, d_ip_offset := trunc16 (4 + e)\<rparr>))
               else if null_type = 24 \<or> null_type = 28 \<or> null_type = 30
               then Inr (Decode (sm\<lparr>d_eth_type := ETHERTYPE_IPV6, d_ethernet := Eth_dummy, d_ip_offset := trunc16 (4 + e)\<rparr>))
               else unknown)
           else bad
         else if dlt = DLT_EN10MB then
           if e + 14 > caplen then bad
           else and_then (be16_at p (e + 12)) (\<lambda>t.
             Inr (Decode (s\<lparr>d_ethernet := Eth_at e, d_ip_offset := trunc16 (14 + e), d_eth_type := t\<rparr>)))
         else if dlt = DLT_LINUX_SLL2 then
           if e + 20 > caplen then bad
           else and_then (be16_at p e) (\<lambda>t.
             Inr (Decode (sm\<lparr>d_ethernet := Eth_dummy, d_eth_type := t, d_ip_offset := trunc16 (20 + e)\<rparr>)))
         else if dlt = DLT_LINUX_SLL then
           if e + 16 > caplen then bad
           else and_then (be16_at p (e + 14)) (\<lambda>t.
             Inr (Decode (sm\<lparr>d_ethernet := Eth_dummy, d_eth_type := t, d_ip_offset := trunc16 (16 + e)\<rparr>)))
         else if dlt = DLT_RAW \<or> dlt = 14 then
           if e + 4 > caplen then bad
           else and_then (get8 p e) (\<lambda>b.
             if drop_bit 4 b = 4
             then Inr (Decode (sm\<lparr>d_eth_type := ETHERTYPE_IP, d_ethernet := Eth_dummy, d_ip_offset := e\<rparr>))
             else if drop_bit 4 b = 6
             then Inr (Decode (sm\<lparr>d_eth_type := ETHERTYPE_IPV6, d_ethernet := Eth_dummy, d_ip_offset := e\<rparr>))
             else unknown)
         else if dlt = DLT_ENC then
           and_then (get8 p 0) (\<lambda>b.
             if b = 2
             then Inr (Decode (s\<lparr>d_eth_type := ETHERTYPE_IP, d_ethernet := Eth_dummy, d_ip_offset := 12\<rparr>))
             else Inr (Decode s))
         else if dlt = DLT_IPV4 then
           Inr (Decode (sm\<lparr>d_eth_type := ETHERTYPE_IP, d_ethernet := Eth_dummy, d_ip_offset := 0\<rparr>))
         else if dlt = DLT_PPP_ETHER then
           if caplen < 6 then bad
           else Inr (Decode (sm\<lparr>d_ethernet := Eth_dummy, d_eth_type := ETHERTYPE_PPPoE, d_ip_offset := e\<rparr>))
         else unknown)"

text \<open>\<open>p\<close> and the offset are the pointer of the code; the second result is \<open>is_ethernet\<close>.\<close>

definition guessEthType :: "u8 list \<Rightarrow> nat \<Rightarrow> nat \<Rightarrow> c_error + (u16 \<times> bool)" where
  "guessEthType p i len =
     (let ip = and_then (if len \<ge> 20 then and_then (get8 p i) (\<lambda>b. Inr (drop_bit 4 b = 4)) else Inr False) (\<lambda>is4.
                 if is4 then Inr (ETHERTYPE_IP, False)
                 else and_then (if len \<ge> 40 then and_then (get8 p i) (\<lambda>b. Inr (drop_bit 4 b = 6)) else Inr False) (\<lambda>is6.
                   if is6 then Inr (ETHERTYPE_IPV6, False) else Inr (1, False)))
      in if len \<ge> 14 then
           and_then (be16_at p (i + 12)) (\<lambda>t.
             if t = ETHERTYPE_IP \<or> t = ETHERTYPE_IPV6 \<or> t = ETHERTYPE_PPPoE \<or> t = ETHERTYPE_VLAN
             then Inr (t, True) else ip)
         else ip)"

text \<open>The Ethernet addresses of the frame: the destination at 0, the source at 6.\<close>

definition mac_at :: "u8 list \<Rightarrow> dstate \<Rightarrow> nat \<Rightarrow> c_error + u8 list" where
  "mac_at p s k =
     (case d_ethernet s of
        Eth_null \<Rightarrow> Inl Null_deref
      | Eth_dummy \<Rightarrow> Inr (if k = 0 then d_dummy_dest s else d_dummy_source s)
      | Eth_at n \<Rightarrow> bytes_at p (n + k) 6)"

definition set_direction :: "dissect_env \<Rightarrow> u8 list \<Rightarrow> dstate \<Rightarrow> c_error + dstate" where
  "set_direction env p s =
     (if d_ethernet s = Eth_null then Inr s
      else if isTrafficMirrored env \<and> isGwMacConfigured env then
        and_then (mac_at p s 0) (\<lambda>m. Inr (if isGwMac env m then s\<lparr>d_ingress := False\<rparr> else s))
      else if \<not> areTrafficDirectionsSupported env then
        and_then (mac_at p s 6) (\<lambda>m. Inr (if isInterfaceMac env m then s\<lparr>d_ingress := False\<rparr> else s))
      else Inr s)"

section \<open>Tunnels over IPv4\<close>

definition gre_offset :: "nat \<Rightarrow> u16 \<Rightarrow> nat" where
  "gre_offset g flags =
     g + 4 + (if flags AND (0x8000 OR 0x4000) \<noteq> 0 then 4 else 0)
       + (if flags AND 0x2000 \<noteq> 0 then 4 else 0) + (if flags AND 0x1000 \<noteq> 0 then 4 else 0)"

text \<open>An Ethernet frame inside of the tunnel, decoded without going through the link layer again.\<close>

definition erspan :: "u8 list \<Rightarrow> nat \<Rightarrow> dstate \<Rightarrow> c_error + jump" where
  "erspan p offset s =
     (let e = trunc16 offset
      in and_then (be16_at p (e + 12)) (\<lambda>t.
           Inr (Decode (s\<lparr>d_eth_offset := e, d_overhead := e, d_ethernet := Eth_at e,
                          d_ip_offset := trunc16 (e + 14), d_eth_type := t\<rparr>))))"

definition gre4_proto :: "u8 list \<Rightarrow> u16 \<Rightarrow> nat \<Rightarrow> dstate \<Rightarrow> c_error + tunnel" where
  "gre4_proto p proto offset s =
     (let caplen = length p; o16 = trunc16 offset
      in if caplen \<ge> offset \<and> proto = 0x6558 then Inr (Jump (Datalink (s\<lparr>d_eth_offset := o16\<rparr>)))
         else if caplen \<ge> offset \<and> proto = 0x88BE then Inr (Jump (Datalink (s\<lparr>d_eth_offset := o16\<rparr>)))
         else if caplen \<ge> offset \<and> proto = ETHERTYPE_IP
         then Inr (Jump (Decode (s\<lparr>d_ip_offset := o16, d_overhead := o16\<rparr>)))
         else if caplen \<ge> offset \<and> proto = ETHERTYPE_IPV6
         then Inr (Jump (Decode (s\<lparr>d_eth_type := ETHERTYPE_IPV6, d_ip_offset := o16, d_overhead := o16\<rparr>)))
         else if caplen \<ge> offset + 14 + 8 \<and> proto = ETH_P_ERSPAN
         then and_then (erspan p (offset + 8) s) (\<lambda>j. Inr (Jump j))
         else if caplen \<ge> offset + 14 + 8 \<and> proto = ETH_P_ERSPAN2 \<and> caplen \<ge> offset + 14 + 20
         then and_then (erspan p (offset + 20) s) (\<lambda>j. Inr (Jump j))
         else Inr (Pass (IPv4_at (d_ip_offset s)) s))"

definition gre4 :: "u8 list \<Rightarrow> nat \<Rightarrow> dstate \<Rightarrow> c_error + tunnel" where
  "gre4 p ip_len s =
     (let g = d_ip_offset s + ip_len
      in and_then (be16_at p g) (\<lambda>flags. and_then (be16_at p (g + 2)) (\<lambda>proto.
           gre4_proto p proto (gre_offset g flags) s)))"

definition gtp :: "dissect_env \<Rightarrow> u8 list \<Rightarrow> nat \<Rightarrow> dstate \<Rightarrow> c_error + tunnel" where
  "gtp env p ip_len s =
     (let offset = d_ip_offset s + ip_len + 8; caplen = length p; bad = Inr (Jump (count_end s 0 (len_on_wire env)))
      in if offset + 12 < caplen then
           and_then (get8 p offset) (\<lambda>flags. and_then (get8 p (offset + 1)) (\<lambda>message_type.
             if drop_bit 5 (flags AND 0xE0) = 1 \<and> message_type = 0xFF then
               let i = trunc16 (offset + 8);
                   i = (if flags AND 0x04 \<noteq> 0 then trunc16 (i + 8) else i);
                   i = (if flags AND 0x02 \<noteq> 0 then trunc16 (i + 4) else i);
                   i = (if flags AND 0x01 \<noteq> 0 then trunc16 (i + 1) else i)
               in if i + 20 \<ge> caplen then bad
                  else and_then (get8 p i) (\<lambda>v.
                    if drop_bit 4 v \<noteq> 4 then Inr (Jump (count_end s ETHERTYPE_IPV6 (len_on_wire env)))
                    else Inr (Pass (IPv4_at i) (s\<lparr>d_ip_offset := i\<rparr>)))
             else Inr (Pass (IPv4_at (d_ip_offset s)) s)))
         else bad)"

text \<open>The IP header announced by a PPP protocol number; \<open>other\<close> is what the code does otherwise.\<close>

definition ppp_ip :: "dissect_env \<Rightarrow> u8 list \<Rightarrow> u16 \<Rightarrow> nat \<Rightarrow> dstate \<Rightarrow> tunnel \<Rightarrow> tunnel" where
  "ppp_ip env p proto offset s other =
     (let caplen = length p; i = trunc16 offset
      in if proto = 0x0021 then
           if offset + 20 \<ge> caplen then Jump (count_end s 0 (len_on_wire env))
           else Pass (IPv4_at i) (s\<lparr>d_eth_type := ETHERTYPE_IP, d_ip_offset := i\<rparr>)
         else if proto = 0x0057 then
           if offset + 40 \<ge> caplen then Jump (count_end s 0 (len_on_wire env))
           else Pass (IPv6_at i) (s\<lparr>d_eth_type := ETHERTYPE_IPV6, d_ip_offset := i\<rparr>)
         else other)"

definition l2tp :: "dissect_env \<Rightarrow> u8 list \<Rightarrow> nat \<Rightarrow> dstate \<Rightarrow> c_error + tunnel" where
  "l2tp env p ip_len s =
     (let offset = d_ip_offset s + ip_len + 8; caplen = length p; bad = Jump (count_end s 0 (len_on_wire env))
      in if offset + 6 < caplen then
           and_then (be16_at p offset) (\<lambda>flags.
             let offset = (if flags AND 0x8002 = 0x02
                   then offset + 6 + (if flags AND 0x4000 = 0x4000 then 2 else 0)
                        + (if flags AND 0x0800 = 0x0800 then 2 else 0) + (if flags AND 0x0200 = 0x0200 then 2 else 0)
                   else offset) + 2
             in if offset + 3 \<ge> caplen then Inr bad
                else and_then (be16_at p offset) (\<lambda>proto.
                  let offset = offset + 2
                  in if proto = 0x003d then
                       let offset = offset + 4
                       in if offset + 3 \<ge> caplen then Inr bad
                          else and_then (be16_at p offset) (\<lambda>proto.
                            Inr (ppp_ip env p proto (offset + 2) s (Pass (IPv4_at (d_ip_offset s)) s)))
                     else Inr (ppp_ip env p proto offset s bad)))
         else Inr bad)"

text \<open>
  The tags of a TZSP header: where the END tag leaves the offset, the loop that runs out of bytes,
  a truncated tag (not counted) and a tag that exceeds the packet (counted).
\<close>

datatype tzsp_result = Tz_end nat | Tz_none | Tz_truncated | Tz_over

function tzsp_tags :: "u8 list \<Rightarrow> nat \<Rightarrow> c_error + tzsp_result" where
  "tzsp_tags p offset =
     (if offset < length p then
        (case get8 p offset of
           Inl e \<Rightarrow> Inl e
         | Inr tag_type \<Rightarrow>
             if tag_type = 0 then
               (if offset + 1 > length p then Inr Tz_over else tzsp_tags p (offset + 1))
             else if tag_type = 1 then
               (if offset + 1 > length p then Inr Tz_over else Inr (Tz_end (offset + 1)))
             else if offset + 1 \<ge> length p then Inr Tz_truncated
             else
               (case get8 p (offset + 1) of
                  Inl e \<Rightarrow> Inl e
                | Inr tag_data_len \<Rightarrow>
                    (if offset + 2 + unat tag_data_len > length p then Inr Tz_over
                     else tzsp_tags p (offset + 2 + unat tag_data_len))))
      else Inr Tz_none)"
  by auto
termination by (relation "measure (\<lambda>(p, offset). length p - offset)") auto

definition tzsp :: "dissect_env \<Rightarrow> u8 list \<Rightarrow> nat \<Rightarrow> dstate \<Rightarrow> c_error + tunnel" where
  "tzsp env p ip_len s =
     (let offset = d_ip_offset s + ip_len + 8; pass = Inr (Pass (IPv4_at (d_ip_offset s)) s)
      in if offset + 4 > length p then Inr (Jump (Done Uncounted))
         else and_then (get8 p offset) (\<lambda>version. and_then (get8 p (offset + 1)) (\<lambda>typ.
              and_then (be16_at p (offset + 2)) (\<lambda>encapsulates.
                if version = 1 \<and> typ = 0 \<and> encapsulates = 1 then
                  and_then (tzsp_tags p (offset + 4)) (\<lambda>r. case r of
                    Tz_end n \<Rightarrow> Inr (Jump (Datalink (s\<lparr>d_eth_offset := trunc16 n\<rparr>)))
                  | Tz_none \<Rightarrow> pass
                  | Tz_truncated \<Rightarrow> Inr (Jump (Done Uncounted))
                  | Tz_over \<Rightarrow> Inr (Jump (count_end s ETHERTYPE_IPV6 (len_on_wire env))))
                else pass))))"

text \<open>
  CAPWAP, after the offset has been moved to the header: \<open>ip_offset - 2\<close> is an \<open>int\<close> and may be
  negative.
\<close>

definition capwap_at :: "dissect_env \<Rightarrow> u8 list \<Rightarrow> dstate \<Rightarrow> c_error + tunnel" where
  "capwap_at env p s =
     (let caplen = length p; bad = Inr (Jump (count_end s 0 (len_on_wire env)))
      in and_then (get8 p (d_ip_offset s + 1)) (\<lambda>b.
           let i = trunc16 (d_ip_offset s + unat (drop_bit 3 b) * 4 + 24 + 8); s = s\<lparr>d_ip_offset := i\<rparr>
           in if i \<ge> caplen then bad
              else and_then (if i < 2 then Inl Heap_overflow else be16_at p (i - 2)) (\<lambda>t.
                if t = ETHERTYPE_IP then if i + 20 \<ge> caplen then bad else Inr (Pass (IPv4_at i) s)
                else if t = ETHERTYPE_IPV6 then if i + 40 \<ge> caplen then bad else Inr (Pass (IPv6_at i) s)
                else bad)))"

definition capwap4 :: "dissect_env \<Rightarrow> u8 list \<Rightarrow> nat \<Rightarrow> dstate \<Rightarrow> c_error + tunnel" where
  "capwap4 env p ip_len s =
     (let s = s\<lparr>d_ip_offset := trunc16 (d_ip_offset s + ip_len + 8)\<rparr>
      in if d_ip_offset s + 1 \<ge> length p then Inr (Jump (count_end s 0 (len_on_wire env)))
         else capwap_at env p s)"

text \<open>The chain of tests on the ports; the test for CAPWAP comes after it.\<close>

definition udp4_ports :: "dissect_env \<Rightarrow> u8 list \<Rightarrow> nat \<Rightarrow> u16 \<Rightarrow> u16 \<Rightarrow> dstate \<Rightarrow> c_error + tunnel" where
  "udp4_ports env p ip_len sport dport s =
     (let u = d_ip_offset s + ip_len
      in if sport = GTP_U_V1_PORT \<or> dport = GTP_U_V1_PORT then gtp env p ip_len s
         else if sport = EOIP_PORT \<and> dport = EOIP_PORT
         then Inr (Jump (Datalink (s\<lparr>d_eth_offset := trunc16 (u + 8 + 12)\<rparr>)))
         else if sport = L2TP_PORT \<and> dport = L2TP_PORT then l2tp env p ip_len s
         else if sport = TZSP_PORT \<or> dport = TZSP_PORT then tzsp env p ip_len s
         else if dport = VXLAN_PORT
         then Inr (Jump (Datalink (s\<lparr>d_eth_offset := trunc16 (u + 8 + 8)\<rparr>)))
         else Inr (Pass (IPv4_at (d_ip_offset s)) s))"

definition udp4 :: "dissect_env \<Rightarrow> u8 list \<Rightarrow> nat \<Rightarrow> dstate \<Rightarrow> c_error + tunnel" where
  "udp4 env p ip_len s =
     (let u = d_ip_offset s + ip_len
      in if u + 8 > length p then Inr (Jump (count_end s 0 (len_on_wire env)))
         else and_then (be16_at p u) (\<lambda>sport. and_then (be16_at p (u + 2)) (\<lambda>dport.
           and_then (udp4_ports env p ip_len sport dport s) (\<lambda>r. case r of
               Jump j \<Rightarrow> Inr r
             | Pass h s \<Rightarrow>
                 if sport = CAPWAP_DATA_PORT \<or> dport = CAPWAP_DATA_PORT then capwap4 env p ip_len s
                 else Inr r))))"

definition tunnel4 :: "dissect_env \<Rightarrow> u8 list \<Rightarrow> nat \<Rightarrow> u16 \<Rightarrow> u8 \<Rightarrow> dstate \<Rightarrow> c_error + tunnel" where
  "tunnel4 env p ip_len frag_off protocol s =
     (let i = d_ip_offset s; caplen = length p
      in if decode_tunnels env \<and> protocol = IPPROTO_GRE \<and> frag_off AND 0x3FFF = 0 \<and> caplen \<ge> i + ip_len + 4
         then gre4 p ip_len s
         else if decode_tunnels env \<and> protocol = IPPROTO_IPV6 \<and> caplen \<ge> i + ip_len + 40
         then let n = trunc16 (i + ip_len)
              in Inr (Jump (Decode (s\<lparr>d_ip_offset := n, d_eth_type := ETHERTYPE_IPV6, d_overhead := n\<rparr>)))
         else if decode_tunnels env \<and> protocol = IPPROTO_UDP \<and> frag_off AND 0x3FFF = 0 then udp4 env p ip_len s
         else if decode_tunnels env \<and> protocol = IPPROTO_IP_IN_IP
         then let s = s\<lparr>d_ip_offset := trunc16 (i + ip_len), d_eth_type := ETHERTYPE_IP\<rparr>
              in if ip_len = 0 \<or> d_ip_offset s > caplen then Inr (Jump (count_end s 0 (len_on_wire env)))
                 else Inr (Jump (Decode s))
         else Inr (Pass (IPv4_at i) s))"

section \<open>IP headers\<close>

definition simulated_vlan :: "u8 list \<Rightarrow> l3_hdr \<Rightarrow> c_error + u16" where
  "simulated_vlan p h =
     (case h of
        IPv6_at i \<Rightarrow> and_then (get8 p (i + 8 + 15)) (\<lambda>a. and_then (get8 p (i + 24 + 15)) (\<lambda>b.
          Inr (of_nat ((unat a + unat b) mod 10))))
      | IPv4_at i \<Rightarrow> and_then (get32 p (i + 12)) (\<lambda>a. and_then (get32 p (i + 16)) (\<lambda>b.
          Inr (ucast ((a + b) mod 10)))))"

definition set_vlan :: "dissect_env \<Rightarrow> u8 list \<Rightarrow> l3_hdr \<Rightarrow> dstate \<Rightarrow> c_error + dstate" where
  "set_vlan env p h s =
     (let s = (if d_vlan_id s \<noteq> 0 \<and> do_ignore_vlans env then s\<lparr>d_vlan_id := 0\<rparr> else s)
      in if d_vlan_id s = 0 \<and> do_simulate_vlans env
         then and_then (simulated_vlan p h) (\<lambda>v. Inr (s\<lparr>d_vlan_id := v\<rparr>)) else Inr s)"

definition set_macs :: "dissect_env \<Rightarrow> dstate \<Rightarrow> dstate" where
  "set_macs env s =
     (if do_ignore_macs env then s\<lparr>d_ethernet := Eth_dummy\<rparr>
      else if do_simulate_macs env
      then s\<lparr>d_dummy_source := [0xb8, 0x27, 0xeb, 0xfd, 0x8e, fst (rand_mac env)],
             d_dummy_dest := [0xb8, 0x27, 0xeb, 0xfd, 0x8e, snd (rand_mac env)], d_ethernet := Eth_dummy\<rparr>
      else s)"

definition ipv4_packet :: "dissect_env \<Rightarrow> u8 list \<Rightarrow> dstate \<Rightarrow> c_error + jump" where
  "ipv4_packet env p s =
     (let i = d_ip_offset s
      in if length p \<ge> i + 20 then
           and_then (get8 p i) (\<lambda>v.
             let ip_len = unat (v AND 0x0F) * 4
             in if ip_len = 0 \<or> drop_bit 4 v \<noteq> 4 then Inr (count_end s ETHERTYPE_IP (len_on_wire env))
                else and_then (be16_at p (i + 6)) (\<lambda>frag_off. and_then (get8 p (i + 9)) (\<lambda>protocol.
                  and_then (tunnel4 env p ip_len frag_off protocol s) (\<lambda>r. case r of
                    Jump j \<Rightarrow> Inr j
                  | Pass h s \<Rightarrow> and_then (set_vlan env p h s) (\<lambda>s. Inr (Done (To_process h (set_macs env s))))))))
         else Inr (Done Uncounted))"

definition gre6_proto :: "u8 list \<Rightarrow> u16 \<Rightarrow> nat \<Rightarrow> dstate \<Rightarrow> c_error + tunnel" where
  "gre6_proto p proto offset s =
     (let caplen = length p; o16 = trunc16 offset
      in if caplen \<ge> offset \<and> proto = ETHERTYPE_IP
         then Inr (Jump (Decode (s\<lparr>d_eth_type := ETHERTYPE_IP, d_ip_offset := o16, d_overhead := o16\<rparr>)))
         else if caplen \<ge> offset \<and> proto = ETHERTYPE_IPV6
         then Inr (Jump (Decode (s\<lparr>d_ip_offset := o16, d_overhead := o16\<rparr>)))
         else if caplen \<ge> offset + 14 + 8 \<and> proto = ETH_P_ERSPAN
         then and_then (erspan p (offset + 8) s) (\<lambda>j. Inr (Jump j))
         else Inr (Pass (IPv6_at (d_ip_offset s)) s))"

definition gre6 :: "u8 list \<Rightarrow> nat \<Rightarrow> dstate \<Rightarrow> c_error + tunnel" where
  "gre6 p shift s =
     (let g = d_ip_offset s + shift
      in and_then (be16_at p g) (\<lambda>flags. and_then (be16_at p (g + 2)) (\<lambda>proto.
           gre6_proto p proto (gre_offset g flags) s)))"

text \<open>The ports are compared in network order, as the code does.\<close>

definition udp6 :: "dissect_env \<Rightarrow> u8 list \<Rightarrow> nat \<Rightarrow> dstate \<Rightarrow> c_error + tunnel" where
  "udp6 env p shift s =
     (let u = d_ip_offset s + shift; pass = Pass (IPv6_at (d_ip_offset s))
      in if u + 8 > length p then Inr (Jump (count_end s ETHERTYPE_IPV6 (len_on_wire env)))
         else and_then (get16 p u) (\<lambda>sport. and_then (get16 p (u + 2)) (\<lambda>dport.
           if sport = CAPWAP_DATA_PORT \<or> dport = CAPWAP_DATA_PORT then
             let s = s\<lparr>d_ip_offset := trunc16 (u + 8)\<rparr>
             in if d_ip_offset s + 1 < length p then capwap_at env p s else Inr (pass s)
           else Inr (pass s))))"

definition tunnel6 :: "dissect_env \<Rightarrow> u8 list \<Rightarrow> nat \<Rightarrow> u8 \<Rightarrow> dstate \<Rightarrow> c_error + tunnel" where
  "tunnel6 env p shift l4_proto s =
     (if decode_tunnels env \<and> l4_proto = IPPROTO_GRE \<and> length p \<ge> d_ip_offset s + shift + 4 then gre6 p shift s
      else if decode_tunnels env \<and> l4_proto = IPPROTO_UDP then udp6 env p shift s
      else if decode_tunnels env \<and> l4_proto = IPPROTO_IP_IN_IP
      then let n = trunc16 (d_ip_offset s + 40)
           in Inr (Jump (Decode (s\<lparr>d_eth_type := ETHERTYPE_IP, d_ip_offset := n, d_overhead := n\<rparr>)))
      else Inr (Pass (IPv6_at (d_ip_offset s)) s))"

text \<open>The destination options replace the shift instead of adding to it.\<close>

definition ipv6_packet :: "dissect_env \<Rightarrow> u8 list \<Rightarrow> dstate \<Rightarrow> c_error + jump" where
  "ipv6_packet env p s =
     (let i = d_ip_offset s; bad = Inr (count_end s ETHERTYPE_IPV6 (len_on_wire env))
      in if length p \<ge> i + 40 then
           and_then (get32 p i) (\<lambda>flow.
             if ntohl flow AND 0xF0000000 \<noteq> 0x60000000 then bad
             else and_then (get8 p (i + 6)) (\<lambda>nxt.
               if nxt = 0x3C \<and> i + 40 + 2 > length p then bad
               else and_then
                 (if nxt = 0x3C
                  then and_then (get8 p (i + 40)) (\<lambda>l4_proto. and_then (get8 p (i + 41)) (\<lambda>n.
                         Inr (l4_proto, 8 * (unat n + 1))))
                  else Inr (nxt, 40)) (\<lambda>(l4_proto, shift).
                 and_then (tunnel6 env p shift l4_proto s) (\<lambda>r. case r of
                   Jump j \<Rightarrow> Inr j
                 | Pass h s \<Rightarrow> and_then (set_vlan env p h s) (\<lambda>s.
                     Inr (Done (To_process h (if do_ignore_macs env then s\<lparr>d_ethernet := Eth_dummy\<rparr> else s))))))))
         else Inr (Done Uncounted))"

definition other_packet :: "dissect_env \<Rightarrow> u8 list \<Rightarrow> dstate \<Rightarrow> c_error + jump" where
  "other_packet env p s =
     (let s = (if do_ignore_macs env then s\<lparr>d_ethernet := Eth_dummy\<rparr> else s); i = d_ip_offset s
      in if d_ethernet s = Eth_null then Inr (count_end s (d_eth_type s) (len_on_wire env))
         else and_then (mac_at p s 6) (\<lambda>_. and_then (mac_at p s 0) (\<lambda>_.
           if d_eth_type s = ETHERTYPE_ARP \<and> length p \<ge> i + 28 then
             and_then (be16_at p (i + 6)) (\<lambda>op. and_then (get32 p (i + 14)) (\<lambda>spa. and_then (get32 p (i + 24)) (\<lambda>tpa.
               Inr (Done (Other_eth (Some (op, ntohl spa, ntohl tpa)) s)))))
           else Inr (Done (Other_eth None s)))))"

definition pppoe_packet :: "dissect_env \<Rightarrow> u8 list \<Rightarrow> dstate \<Rightarrow> c_error + jump" where
  "pppoe_packet env p s =
     (let i = trunc16 (d_ip_offset s + 6)
      in if i + 1 < length p then
           and_then (get8 p i) (\<lambda>b.
             and_then (if b = 0 then and_then (get8 p (i + 1)) (\<lambda>t. Inr (t, trunc16 (i + 2)))
                       else Inr (b, trunc16 (i + 1))) (\<lambda>(t, i).
               if t = 0x21 then Inr (Decode (s\<lparr>d_ip_offset := i, d_eth_type := ETHERTYPE_IP\<rparr>))
               else if t = 0x57 then Inr (Decode (s\<lparr>d_ip_offset := i, d_eth_type := ETHERTYPE_IPV6\<rparr>))
               else Inr (count_end s ETHERTYPE_IP (len_on_wire env))))
         else Inr (Done Uncounted))"

definition dispatch :: "dissect_env \<Rightarrow> u8 list \<Rightarrow> dstate \<Rightarrow> c_error + jump" where
  "dispatch env p s =
     and_then (set_direction env p s) (\<lambda>s.
       if d_eth_type s = ETHERTYPE_PPPoE then pppoe_packet env p s
       else if d_eth_type s = ETHERTYPE_IP then ipv4_packet env p s
       else if d_eth_type s = ETHERTYPE_IPV6 then ipv6_packet env p s
       else other_packet env p s)"

text \<open>
  One round of the loop over VLAN tags and MPLS labels, which is entered again at the label
  \<open>decode_packet_eth\<close>, or what follows the loop.
\<close>

definition decode_packet_eth :: "dissect_env \<Rightarrow> u8 list \<Rightarrow> dstate \<Rightarrow> c_error + jump" where
  "decode_packet_eth env p s =
     (let i = d_ip_offset s; caplen = length p
      in if i < caplen \<and> d_eth_type s = ETHERTYPE_VLAN \<and> i + 4 < caplen then
           and_then (be16_at p i) (\<lambda>q. and_then (be16_at p (i + 2)) (\<lambda>t.
             Inr (Decode (s\<lparr>d_vlan_id := q AND 0xFFF, d_eth_type := t, d_ip_offset := trunc16 (i + 4)\<rparr>))))
         else if i < caplen \<and> d_eth_type s = ETHERTYPE_MPLS \<and> i + 2 < caplen then
           and_then (get8 p (i + 2)) (\<lambda>b.
             let i = trunc16 (i + 4); s = s\<lparr>d_ip_offset := i\<rparr>
             in if b AND 1 = 0 then Inr (Decode s)
                else if caplen > 14 + i then
                  and_then (guessEthType p i (caplen - i)) (\<lambda>(t, is_ethernet).
                    dispatch env p (s\<lparr>d_eth_type := t, d_ip_offset := (if is_ethernet then trunc16 (i + 14) else i)\<rparr>))
                else Inr (count_end s ETHERTYPE_IP (len_on_wire env)))
         else dispatch env p s)"

section \<open>The dissection of a packet\<close>

definition dissect_step :: "dissect_env \<Rightarrow> u8 list \<Rightarrow> jump \<Rightarrow> c_error + jump" where
  "dissect_step env p j =
     (case j of
        Datalink s \<Rightarrow> datalink_check env p s
      | Decode s \<Rightarrow> decode_packet_eth env p s
      | Done v \<Rightarrow> Inr (Done v))"

text \<open>At most \<open>n\<close> jumps; \<open>None\<close> when the dissection has not ended by then.\<close>

fun dissect_run :: "nat \<Rightarrow> dissect_env \<Rightarrow> u8 list \<Rightarrow> jump \<Rightarrow> (c_error + verdict) option" where
  "dissect_run n env p (Done v) = Some (Inr v)"
| "dissect_run 0 env p j = None"
| "dissect_run (Suc n) env p j =
     (case dissect_step env p j of Inl e \<Rightarrow> Some (Inl e) | Inr j \<Rightarrow> dissect_run n env p j)"

text \<open>\<open>eth_type\<close> is not initialised: \<open>g\<close> is what it holds.\<close>

definition dissect_start :: "bool \<Rightarrow> u16 \<Rightarrow> dstate" where
  "dissect_start ingress g =
     \<lparr> d_eth_offset = 0, d_ip_offset = 0, d_eth_type = g, d_vlan_id = 0, d_overhead = 0, d_ethernet = Eth_null,
       d_dummy_dest = replicate 6 0, d_dummy_source = replicate 6 0, d_ingress = ingress \<rparr>"

definition dissectPacket :: "nat \<Rightarrow> dissect_env \<Rightarrow> bool \<Rightarrow> u16 \<Rightarrow> u8 list \<Rightarrow> (c_error + verdict) option" where
  "dissectPacket n env ingress g p =
     (if h_len env = 0 \<or> length p > unat (h_len env) then Some (Inr (Counted ingress 0 0))
      else dissect_run n env p (Datalink (dissect_start ingress g)))"

section \<open>Reads that stay inside of the packet\<close>

text \<open>\<open>ok r Q\<close>: the computation \<open>r\<close> succeeds with a result that satisfies \<open>Q\<close>.\<close>

definition ok :: "c_error + 'a \<Rightarrow> ('a \<Rightarrow> bool) \<Rightarrow> bool" where
  "ok r Q = (case r of Inl _ \<Rightarrow> False | Inr x \<Rightarrow> Q x)"

lemma ok_Inr [simp]: "ok (Inr x) Q = Q x"
  by (simp add: ok_def)

lemma ok_mono: "ok r Q \<Longrightarrow> (\<And>x. Q x \<Longrightarrow> R x) \<Longrightarrow> ok r R"
  by (cases r) (simp_all add: ok_def)

lemma okE: "ok r Q \<Longrightarrow> (\<And>x. r = Inr x \<Longrightarrow> Q x \<Longrightarrow> T) \<Longrightarrow> T"
  by (cases r) (simp_all add: ok_def)

text \<open>Rules that prove \<open>ok\<close> for every content of the packet.\<close>

lemma ok_returnI: "Q x \<Longrightarrow> ok (Inr x) Q"
  by (simp add: ok_def)

lemma ok_bindI: "ok r (\<lambda>x. ok (f x) Q) \<Longrightarrow> ok (and_then r f) Q"
  by (cases r) (simp_all add: ok_def)

lemma ok_ifI: "(b \<Longrightarrow> ok r Q) \<Longrightarrow> (\<not> b \<Longrightarrow> ok r' Q) \<Longrightarrow> ok (if b then r else r') Q"
  by simp

lemma ok_prodI: "(\<And>x y. z = (x, y) \<Longrightarrow> ok (f x y) Q) \<Longrightarrow> ok (case z of (x, y) \<Rightarrow> f x y) Q"
  by (cases z) simp

lemma ok_get8: "i < length p \<Longrightarrow> (\<And>x. Q x) \<Longrightarrow> ok (get8 p i) Q"
  by (simp add: get8_def)

lemma ok_get16: "i + 2 \<le> length p \<Longrightarrow> (\<And>x. Q x) \<Longrightarrow> ok (get16 p i) Q"
  by (simp add: get16_def)

lemma ok_get32: "i + 4 \<le> length p \<Longrightarrow> (\<And>x. Q x) \<Longrightarrow> ok (get32 p i) Q"
  by (simp add: get32_def)

lemma ok_bytes_at: "i + n \<le> length p \<Longrightarrow> (\<And>x. Q x) \<Longrightarrow> ok (bytes_at p i n) Q"
  by (simp add: bytes_at_def)

lemma ok_be16_at: "i + 1 < length p \<Longrightarrow> (\<And>x. Q x) \<Longrightarrow> ok (be16_at p i) Q"
  by (auto simp: be16_at_def intro!: ok_bindI ok_get8)

lemmas ok_rules = ok_returnI ok_bindI ok_ifI ok_prodI ok_get8 ok_get16 ok_get32 ok_bytes_at ok_be16_at

lemma trunc16_small: "n < 65536 \<Longrightarrow> trunc16 n = n"
  by (simp add: trunc16_def)

lemma nibble_bound: "unat (v AND 0x0F :: u8) \<le> 15"
proof -
  have "unat (v AND mask 4) = unat v mod 16" by (simp add: unat_and_mask_mod)
  moreover have "(mask 4 :: u8) = 0x0F" by (simp add: mask_eq_exp_minus_1)
  ultimately show ?thesis by simp
qed

lemma capwap_len_bound: "unat (drop_bit 3 b :: u8) \<le> 31"
proof -
  have "unat b < 256" using unsigned_less [of b] by simp
  then show ?thesis by (simp add: unat_drop_bit_div)
qed

section \<open>Offsets stay near the packet and grow\<close>

definition dinv :: "u8 list \<Rightarrow> dstate \<Rightarrow> bool" where
  "dinv p s \<longleftrightarrow> d_eth_offset s \<le> length p + 60 \<and> d_ip_offset s \<le> length p + 60
     \<and> (case d_ethernet s of Eth_at n \<Rightarrow> n + 14 \<le> length p | _ \<Rightarrow> True)"

fun hdr_ok :: "u8 list \<Rightarrow> l3_hdr \<Rightarrow> dstate \<Rightarrow> bool" where
  "hdr_ok p (IPv4_at i) s \<longleftrightarrow> i + 20 \<le> length p \<and> d_ip_offset s = i"
| "hdr_ok p (IPv6_at i) s \<longleftrightarrow> i + 40 \<le> length p \<and> (d_ip_offset s = i \<or> length p \<le> d_ip_offset s + 1)"

fun jgood :: "u8 list \<Rightarrow> jump \<Rightarrow> bool" where
  "jgood p (Datalink s) \<longleftrightarrow> dinv p s"
| "jgood p (Decode s) \<longleftrightarrow> dinv p s"
| "jgood p (Done (To_process h s)) \<longleftrightarrow> hdr_ok p h s"
| "jgood p (Done _) \<longleftrightarrow> True"

fun rank :: "jump \<Rightarrow> nat" where
  "rank (Datalink s) = Suc (2 * (65536 - d_eth_offset s))"
| "rank (Decode s) = 2 * (65536 - d_ip_offset s)"
| "rank (Done v) = 0"

definition jump_ok :: "u8 list \<Rightarrow> nat \<Rightarrow> jump \<Rightarrow> bool" where
  "jump_ok p i j \<longleftrightarrow> jgood p j \<and> rank j < 2 * (65536 - i)"

fun tunnel_ok :: "u8 list \<Rightarrow> nat \<Rightarrow> tunnel \<Rightarrow> bool" where
  "tunnel_ok p i (Jump j) \<longleftrightarrow> jump_ok p i j"
| "tunnel_ok p i (Pass h s) \<longleftrightarrow> hdr_ok p h s \<and> i \<le> d_ip_offset s \<and> d_ip_offset s \<le> length p + 60"

lemma jump_ok_count [simp]: "jump_ok p i (count_end s t n) \<longleftrightarrow> i < 65536"
  by (simp add: jump_ok_def count_end_def)

lemma jump_ok_uncounted [simp]: "jump_ok p i (Done Uncounted) \<longleftrightarrow> i < 65536"
  by (simp add: jump_ok_def)

lemma jump_ok_jumps [simp]:
  "jump_ok p i (Datalink s) \<longleftrightarrow> dinv p s \<and> i < d_eth_offset s \<and> i < 65536"
  "jump_ok p i (Decode s) \<longleftrightarrow> dinv p s \<and> i < d_ip_offset s \<and> i < 65536"
  "jump_ok p i (Done (To_process h s)) \<longleftrightarrow> hdr_ok p h s \<and> i < 65536"
  "jump_ok p i (Done (Other_eth a s)) \<longleftrightarrow> i < 65536"
  by (auto simp: jump_ok_def)

lemmas step_simps = dinv_def trunc16_small

lemma gre_offset_bounds: "g + 4 \<le> gre_offset g fl" "gre_offset g fl \<le> g + 16"
  by (simp_all add: gre_offset_def)

lemma erspan_ok:
  assumes "dinv p s" "length p + 256 \<le> 65536" "offset + 14 \<le> length p" "d_ip_offset s < offset"
  shows "ok (erspan p offset s) (\<lambda>j. tunnel_ok p (d_ip_offset s) (Jump j))"
  unfolding erspan_def Let_def
  by (intro ok_rules) (use assms in \<open>simp_all add: step_simps\<close>)

lemma gre4_proto_ok:
  assumes "dinv p s" "length p + 256 \<le> 65536" "d_ip_offset s < offset" "d_ip_offset s + 20 \<le> length p"
  shows "ok (gre4_proto p proto offset s) (tunnel_ok p (d_ip_offset s))"
  unfolding gre4_proto_def Let_def
  by (intro ok_rules erspan_ok [THEN ok_mono]) (use assms in \<open>simp_all add: step_simps\<close>)

lemma gre4_ok:
  assumes "dinv p s" "length p + 256 \<le> 65536" "d_ip_offset s + ip_len + 4 \<le> length p" "d_ip_offset s + 20 \<le> length p"
  shows "ok (gre4 p ip_len s) (tunnel_ok p (d_ip_offset s))"
proof -
  have "d_ip_offset s < gre_offset (d_ip_offset s + ip_len) fl" for fl
    using gre_offset_bounds(1) [of "d_ip_offset s + ip_len" fl] by linarith
  then show ?thesis
    unfolding gre4_def Let_def
    by (intro ok_rules gre4_proto_ok) (use assms in simp_all)
qed

lemma gtp_ok:
  assumes "dinv p s" "length p + 256 \<le> 65536" "d_ip_offset s + 20 \<le> length p"
  shows "ok (gtp env p ip_len s) (tunnel_ok p (d_ip_offset s))"
  unfolding gtp_def Let_def
  by (intro ok_rules) (use assms in \<open>auto simp: step_simps\<close>)

lemma ppp_ip_ok:
  assumes "length p + 256 \<le> 65536" "d_ip_offset s \<le> offset" "offset \<le> length p + 60" "tunnel_ok p (d_ip_offset s) other"
  shows "tunnel_ok p (d_ip_offset s) (ppp_ip env p proto offset s other)"
  using assms by (simp add: ppp_ip_def step_simps Let_def)

lemma l2tp_ok:
  assumes "dinv p s" "length p + 256 \<le> 65536" "d_ip_offset s + 20 \<le> length p"
  shows "ok (l2tp env p ip_len s) (tunnel_ok p (d_ip_offset s))"
  unfolding l2tp_def Let_def
  by (intro ok_rules ppp_ip_ok) (use assms in \<open>simp_all\<close>)

declare tzsp_tags.simps [simp del]

lemma tzsp_tags_ok:
  "ok (tzsp_tags p offset) (\<lambda>r. \<forall>n. r = Tz_end n \<longrightarrow> offset < n \<and> n \<le> length p)"
proof (induction p offset rule: tzsp_tags.induct)
  case (1 p offset)
  show ?case
  proof (cases "offset < length p")
    case True
    then have g: "get8 p offset = Inr (p ! offset)" by (simp add: get8_def)
    show ?thesis
    proof (cases "p ! offset = 0 \<or> p ! offset = 1 \<or> offset + 1 \<ge> length p")
      case True
      then show ?thesis
        using \<open>offset < length p\<close> 1(1) [OF \<open>offset < length p\<close> g]
        by (subst tzsp_tags.simps) (auto simp: g elim!: ok_mono)
    next
      case False
      then have h: "get8 p (offset + 1) = Inr (p ! (offset + 1))" by (simp add: get8_def)
      show ?thesis
        using \<open>offset < length p\<close> False 1(2) [OF \<open>offset < length p\<close> g _ _ _ h]
        by (subst tzsp_tags.simps) (auto simp: g h [simplified] elim!: ok_mono)
    qed
  qed (subst tzsp_tags.simps, simp)
qed

lemma tzsp_ok:
  assumes "dinv p s" "length p + 256 \<le> 65536" "d_ip_offset s + 20 \<le> length p"
  shows "ok (tzsp env p ip_len s) (tunnel_ok p (d_ip_offset s))"
  unfolding tzsp_def Let_def
  by (intro ok_rules tzsp_tags_ok [THEN ok_mono])
    (use assms in \<open>auto simp: step_simps split: tzsp_result.split\<close>)

lemma capwap_at_ok:
  assumes "length p + 256 \<le> 65536" "d_ip_offset s + 1 < length p" "i \<le> d_ip_offset s"
  shows "ok (capwap_at env p s) (tunnel_ok p i)"
proof -
  have t: "trunc16 (d_ip_offset s + unat (drop_bit 3 b) * 4 + 24 + 8) = d_ip_offset s + unat (drop_bit 3 b) * 4 + 32"
    for b :: u8
  proof -
    have "unat (drop_bit 3 b) \<le> 31" by (rule capwap_len_bound)
    then have "d_ip_offset s + unat (drop_bit 3 b) * 4 + 24 + 8 < 65536" using assms(1,2) by linarith
    then show ?thesis by (simp add: trunc16_small)
  qed
  show ?thesis
    unfolding capwap_at_def Let_def t
    by (intro ok_rules) (use assms in simp_all)
qed

lemma capwap4_ok:
  assumes "length p + 256 \<le> 65536" "d_ip_offset s + ip_len + 8 < 65536" "i \<le> d_ip_offset s" "i < 65536"
  shows "ok (capwap4 env p ip_len s) (tunnel_ok p i)"
  unfolding capwap4_def Let_def
  by (intro ok_rules capwap_at_ok) (use assms in \<open>simp_all add: trunc16_small\<close>)

lemma udp4_ports_ok:
  assumes "dinv p s" "length p + 256 \<le> 65536" "d_ip_offset s + 20 \<le> length p" "d_ip_offset s + ip_len + 8 \<le> length p"
  shows "ok (udp4_ports env p ip_len sport dport s) (tunnel_ok p (d_ip_offset s))"
  unfolding udp4_ports_def Let_def
  by (intro ok_rules gtp_ok l2tp_ok tzsp_ok) (use assms in \<open>simp_all add: step_simps\<close>)

lemma udp4_ok:
  assumes "dinv p s" "length p + 256 \<le> 65536" "d_ip_offset s + 20 \<le> length p" "ip_len \<le> 60"
  shows "ok (udp4 env p ip_len s) (tunnel_ok p (d_ip_offset s))"
proof -
  have c: "ok (case r of Jump j \<Rightarrow> Inr r
      | Pass h s' \<Rightarrow> if b then capwap4 env p ip_len s' else Inr r) (tunnel_ok p (d_ip_offset s))"
    if "tunnel_ok p (d_ip_offset s) r" for r b
  proof (cases r)
    case (Pass h s')
    with that have "d_ip_offset s \<le> d_ip_offset s'" "d_ip_offset s' \<le> length p + 60" by simp_all
    then have "ok (capwap4 env p ip_len s') (tunnel_ok p (d_ip_offset s))"
      by (intro capwap4_ok) (use assms in simp_all)
    then show ?thesis using that Pass by simp
  qed (use that in simp)
  show ?thesis
    unfolding udp4_def Let_def
    by (intro ok_rules udp4_ports_ok [THEN ok_mono] c) (use assms in \<open>simp_all\<close>)
qed

lemma tunnel4_ok:
  assumes "dinv p s" "length p + 256 \<le> 65536" "d_ip_offset s + 20 \<le> length p" "0 < ip_len" "ip_len \<le> 60"
  shows "ok (tunnel4 env p ip_len frag proto s) (tunnel_ok p (d_ip_offset s))"
  unfolding tunnel4_def Let_def
  by (intro ok_rules gre4_ok udp4_ok) (use assms in \<open>simp_all add: step_simps\<close>)

lemma set_vlan_ok:
  assumes "hdr_ok p h s"
  shows "ok (set_vlan env p h s) (hdr_ok p h)"
proof -
  have v: "ok (simulated_vlan p h) (\<lambda>_. True)"
    unfolding simulated_vlan_def
    by (cases h; simp only: l3_hdr.case; intro ok_rules; use assms in simp)
  have k: "hdr_ok p h (s\<lparr>d_vlan_id := w\<rparr>)" for w using assms by (cases h) simp_all
  show ?thesis
    unfolding set_vlan_def Let_def
    by (intro ok_rules v [THEN ok_mono]) (use assms k in simp_all)
qed

lemma hdr_ok_macs [simp]:
  "hdr_ok p h (set_macs env s) = hdr_ok p h s" "hdr_ok p h (s\<lparr>d_ethernet := e\<rparr>) = hdr_ok p h s"
  by (cases h; simp add: set_macs_def)+

lemma ipv4_packet_ok:
  assumes "dinv p s" "length p + 256 \<le> 65536"
  shows "ok (ipv4_packet env p s) (jump_ok p (d_ip_offset s))"
proof -
  have l: "unat (v AND 0x0F) * 4 \<le> 60" for v :: u8 using nibble_bound [of v] by simp
  have c: "ok (case r of Jump j \<Rightarrow> Inr j
      | Pass h s' \<Rightarrow> and_then (set_vlan env p h s') (\<lambda>s. Inr (Done (To_process h (set_macs env s)))))
      (jump_ok p (d_ip_offset s))"
    if "tunnel_ok p (d_ip_offset s) r" for r
  proof (cases r)
    case (Pass h s')
    have "ok (set_vlan env p h s') (hdr_ok p h)" by (rule set_vlan_ok) (use that Pass in simp)
    then show ?thesis using that assms Pass by (auto intro!: ok_bindI elim!: ok_mono simp: dinv_def)
  qed (use that in simp)
  show ?thesis
    unfolding ipv4_packet_def Let_def
    by (intro ok_rules tunnel4_ok [THEN ok_mono] c) (use assms l in \<open>simp_all add: dinv_def\<close>)
qed

lemma gre6_proto_ok:
  assumes "dinv p s" "length p + 256 \<le> 65536" "d_ip_offset s < offset" "d_ip_offset s + 40 \<le> length p"
  shows "ok (gre6_proto p proto offset s) (tunnel_ok p (d_ip_offset s))"
  unfolding gre6_proto_def Let_def
  by (intro ok_rules erspan_ok [THEN ok_mono]) (use assms in \<open>simp_all add: step_simps\<close>)

lemma tunnel6_ok:
  assumes "dinv p s" "length p + 256 \<le> 65536" "d_ip_offset s + 40 \<le> length p"
  shows "ok (tunnel6 env p shift proto s) (tunnel_ok p (d_ip_offset s))"
proof -
  have "d_ip_offset s < gre_offset (d_ip_offset s + shift) fl" for fl
    using gre_offset_bounds(1) [of "d_ip_offset s + shift" fl] by linarith
  then show ?thesis
    unfolding tunnel6_def gre6_def udp6_def Let_def
    by (intro ok_rules gre6_proto_ok capwap_at_ok) (use assms in \<open>simp_all add: step_simps\<close>)
qed

lemma ipv6_packet_ok:
  assumes "dinv p s" "length p + 256 \<le> 65536"
  shows "ok (ipv6_packet env p s) (jump_ok p (d_ip_offset s))"
proof -
  have c: "ok (case r of Jump j \<Rightarrow> Inr j
      | Pass h s' \<Rightarrow> and_then (set_vlan env p h s')
          (\<lambda>s. Inr (Done (To_process h (if do_ignore_macs env then s\<lparr>d_ethernet := Eth_dummy\<rparr> else s)))))
      (jump_ok p (d_ip_offset s))"
    if "tunnel_ok p (d_ip_offset s) r" for r
  proof (cases r)
    case (Pass h s')
    have "ok (set_vlan env p h s') (hdr_ok p h)" by (rule set_vlan_ok) (use that Pass in simp)
    then show ?thesis using that assms Pass by (auto intro!: ok_bindI elim!: ok_mono simp: dinv_def)
  qed (use that in simp)
  show ?thesis
    unfolding ipv6_packet_def Let_def
    by (intro ok_rules tunnel6_ok [THEN ok_mono] c) (use assms in \<open>simp_all add: dinv_def\<close>)
qed

lemma mac_at_ok: "dinv p s \<Longrightarrow> d_ethernet s \<noteq> Eth_null \<Longrightarrow> k \<le> 8 \<Longrightarrow> ok (mac_at p s k) (\<lambda>_. True)"
  by (auto simp: mac_at_def dinv_def intro!: ok_bytes_at split: eth_ptr.splits)

lemma set_direction_ok: "dinv p s \<Longrightarrow> ok (set_direction env p s) (\<lambda>s'. \<exists>b. s' = s\<lparr>d_ingress := b\<rparr>)"
  unfolding set_direction_def
  by (intro ok_rules mac_at_ok [THEN ok_mono]) (auto intro: exI [of _ "d_ingress s"])

lemma other_packet_ok:
  assumes "dinv p s" "length p + 256 \<le> 65536"
  shows "ok (other_packet env p s) (jump_ok p (d_ip_offset s))"
  unfolding other_packet_def Let_def
  by (intro ok_rules mac_at_ok [THEN ok_mono]) (use assms in \<open>auto simp: dinv_def\<close>)

lemma pppoe_packet_ok:
  assumes "dinv p s" "length p + 256 \<le> 65536"
  shows "ok (pppoe_packet env p s) (jump_ok p (d_ip_offset s))"
  unfolding pppoe_packet_def Let_def
  by (intro ok_rules) (use assms in \<open>auto simp: step_simps\<close>)

lemma dispatch_ok:
  assumes "dinv p s" "length p + 256 \<le> 65536"
  shows "ok (dispatch env p s) (jump_ok p (d_ip_offset s))"
proof -
  have "dinv p (s\<lparr>d_ingress := b\<rparr>)" for b using assms(1) by (simp add: dinv_def)
  then have "ok (if d_eth_type (s\<lparr>d_ingress := b\<rparr>) = ETHERTYPE_PPPoE then pppoe_packet env p (s\<lparr>d_ingress := b\<rparr>)
       else if d_eth_type (s\<lparr>d_ingress := b\<rparr>) = ETHERTYPE_IP then ipv4_packet env p (s\<lparr>d_ingress := b\<rparr>)
       else if d_eth_type (s\<lparr>d_ingress := b\<rparr>) = ETHERTYPE_IPV6 then ipv6_packet env p (s\<lparr>d_ingress := b\<rparr>)
       else other_packet env p (s\<lparr>d_ingress := b\<rparr>)) (jump_ok p (d_ip_offset s))" for b
    using pppoe_packet_ok ipv4_packet_ok ipv6_packet_ok other_packet_ok assms(2)
    by (intro ok_ifI) (metis dstate.select_convs(2) dstate.update_convs(9) dstate.surjective)+
  then show ?thesis
    unfolding dispatch_def
    by (intro ok_bindI set_direction_ok [OF assms(1), THEN ok_mono]) auto
qed

lemma guessEthType_ok: "i + len \<le> length p \<Longrightarrow> ok (guessEthType p i len) (\<lambda>_. True)"
  unfolding guessEthType_def Let_def by (intro ok_rules) auto

lemma decode_packet_eth_ok:
  assumes "dinv p s" "length p + 256 \<le> 65536"
  shows "ok (decode_packet_eth env p s) (jump_ok p (d_ip_offset s))"
proof -
  have d: "ok (dispatch env p s') (jump_ok p (d_ip_offset s))"
    if "dinv p s'" "d_ip_offset s \<le> d_ip_offset s'" for s'
    by (rule dispatch_ok [THEN ok_mono]) (use that assms in \<open>auto simp: jump_ok_def\<close>)
  show ?thesis
    unfolding decode_packet_eth_def Let_def
    by (intro ok_rules guessEthType_ok [THEN ok_mono] d) (use assms in \<open>auto simp: step_simps\<close>)
qed

definition bounded_link :: "dissect_env \<Rightarrow> bool" where
  "bounded_link env \<longleftrightarrow> datalink_type env \<noteq> DLT_ENC \<and> datalink_type env \<noteq> DLT_IPV4"

lemma datalink_check_ok:
  assumes "bounded_link env" "dinv p s" "length p + 256 \<le> 65536"
  shows "ok (datalink_check env p s) (\<lambda>j. jgood p j \<and> rank j < rank (Datalink s))"
proof -
  have k: "dinv p (s\<lparr>d_dummy_source := m\<rparr>)" for m using assms(2) by (simp add: dinv_def)
  have c: "jgood p (count_end s' t n) \<and> rank (count_end s' t n) < rank (Datalink s)" for s' t n
    by (simp add: count_end_def)
  show ?thesis
    unfolding datalink_check_def Let_def
    by (intro ok_rules c) (use assms in \<open>auto simp: step_simps bounded_link_def split: option.split\<close>)
qed

lemma dissect_step_ok:
  assumes "bounded_link env" "jgood p j" "length p + 256 \<le> 65536" "\<forall>v. j \<noteq> Done v"
  shows "ok (dissect_step env p j) (\<lambda>j'. jgood p j' \<and> rank j' < rank j)"
proof (cases j)
  case (Datalink s)
  then show ?thesis using datalink_check_ok assms by (simp add: dissect_step_def)
next
  case (Decode s)
  then show ?thesis
    using decode_packet_eth_ok [of p s env] assms
    by (auto simp: dissect_step_def jump_ok_def elim!: ok_mono)
qed (use assms(4) in simp)

lemma dissect_run_ok:
  assumes "bounded_link env" "jgood p j" "length p + 256 \<le> 65536" "rank j \<le> n"
  shows "\<exists>v. dissect_run n env p j = Some (Inr v) \<and> jgood p (Done v)"
  using assms(2,4)
proof (induction n arbitrary: j)
  case 0
  then show ?case using assms(3) by (cases j) (auto simp: dinv_def)
next
  case (Suc n)
  show ?case
  proof (cases "\<exists>v. j = Done v")
    case False
    then obtain j' where j': "dissect_step env p j = Inr j'" "jgood p j'" "rank j' < rank j"
      using dissect_step_ok [OF assms(1) Suc.prems(1) assms(3)] by (auto elim!: okE)
    then have "rank j' \<le> n" using Suc.prems(2) by simp
    from Suc.IH [OF j'(2) this] show ?thesis using False j'(1) by (cases j) auto
  qed (use Suc.prems in auto)
qed

lemma dissect_run_mono: "dissect_run n env p j = Some r \<Longrightarrow> n \<le> m \<Longrightarrow> dissect_run m env p j = Some r"
proof (induction n arbitrary: j m)
  case 0
  then show ?case by (cases j) auto
next
  case (Suc n)
  then obtain m' where m: "m = Suc m'" "n \<le> m'" by (cases m) auto
  show ?case
  proof (cases "\<exists>v. j = Done v")
    case False
    then show ?thesis
      using Suc.prems(1) Suc.IH [OF _ m(2)] unfolding m(1) by (cases j) (auto split: sum.splits)
  qed (use Suc.prems in auto)
qed

section \<open>A raw IPv4 link does not move on\<close>

text \<open>An IPv4 packet without options that carries a VXLAN header.\<close>

definition vxlan_packet :: "u8 list \<Rightarrow> bool" where
  "vxlan_packet p \<longleftrightarrow> 28 \<le> length p \<and> p ! 0 = 0x45 \<and> be16 (p ! 6) (p ! 7) AND 0x3FFF = 0 \<and> p ! 9 = IPPROTO_UDP
     \<and> be16 (p ! 22) (p ! 23) = VXLAN_PORT
     \<and> be16 (p ! 20) (p ! 21) \<notin> {GTP_U_V1_PORT, TZSP_PORT}"

lemma read_lemmas:
  "i < length p \<Longrightarrow> get8 p i = Inr (p ! i)"
  "i + 1 < length p \<Longrightarrow> be16_at p i = Inr (be16 (p ! i) (p ! (i + 1)))"
  by (simp_all add: be16_at_def get8_def)

lemma set_direction_dummy: "d_ethernet s = Eth_dummy \<Longrightarrow> \<exists>b. set_direction env p s = Inr (s\<lparr>d_ingress := b\<rparr>)"
  by (auto simp: set_direction_def mac_at_def intro: exI [of _ "d_ingress s"])

lemma vxlan_jump:
  assumes "vxlan_packet p" "decode_tunnels env" "d_ip_offset s = 0" "d_eth_type s = ETHERTYPE_IP" "d_ethernet s = Eth_dummy"
  shows "\<exists>s'. decode_packet_eth env p s = Inr (Datalink s')"
proof -
  have r: "get8 p 0 = Inr 0x45" "be16_at p 6 = Inr (be16 (p ! 6) (p ! 7))" "get8 p 9 = Inr IPPROTO_UDP"
    "be16_at p 20 = Inr (be16 (p ! 20) (p ! 21))" "be16_at p 22 = Inr VXLAN_PORT" "28 \<le> length p"
    using assms(1) by (auto simp: vxlan_packet_def be16_at_def get8_def)
  have u: "udp4 env p 20 t = Inr (Jump (Datalink (t\<lparr>d_eth_offset := trunc16 36\<rparr>)))"
    if "d_ip_offset t = 0" for t
    using that r assms(1) by (simp add: udp4_def udp4_ports_def vxlan_packet_def port_defs Let_def)
  have t: "ipv4_packet env p t = Inr (Datalink (t\<lparr>d_eth_offset := trunc16 36\<rparr>))" if "d_ip_offset t = 0" for t
    using that r u [OF that] assms(1,2)
    by (simp add: ipv4_packet_def tunnel4_def vxlan_packet_def proto_defs Let_def)
  obtain b where b: "set_direction env p s = Inr (s\<lparr>d_ingress := b\<rparr>)"
    using set_direction_dummy [OF assms(5)] by blast
  show ?thesis
    using assms b t by (simp add: decode_packet_eth_def dispatch_def Let_def eth_defs)
qed

lemma raw_ipv4_never_ends:
  assumes "vxlan_packet p" "decode_tunnels env" "datalink_type env = DLT_IPV4"
  shows "dissect_run n env p (Datalink s) = None"
proof (induction n arbitrary: s rule: less_induct)
  case (less n)
  obtain t where t: "datalink_check env p s = Inr (Decode t)" "d_ip_offset t = 0" "d_eth_type t = ETHERTYPE_IP"
    "d_ethernet t = Eth_dummy"
    using assms(3) by (simp add: datalink_check_def DLT_defs Let_def)
  obtain s' where s': "decode_packet_eth env p t = Inr (Datalink s')"
    using vxlan_jump [OF assms(1,2) t(2-4)] by blast
  show ?case
  proof (cases n)
    case (Suc k)
    show ?thesis
      using less [of "k - 1"] t(1) s' Suc by (cases k) (simp_all add: dissect_step_def)
  qed simp
qed

section \<open>VLAN tags\<close>

text \<open>The tags of a frame with the type that follows them: each tag is announced by its own type.\<close>

definition tag_bytes :: "(u8 \<times> u8) list \<Rightarrow> u8 \<times> u8 \<Rightarrow> u8 list" where
  "tag_bytes tags t = concat (map (\<lambda>(hi, lo). [0x81, 0x00, hi, lo]) tags) @ [fst t, snd t]"

lemma tag_bytes_simps [simp]:
  "tag_bytes [] t = [fst t, snd t]" "tag_bytes ((hi, lo) # ts) t = [0x81, 0x00, hi, lo] @ tag_bytes ts t"
  "length (tag_bytes ts t) = 4 * length ts + 2"
  by (induction ts) (auto simp: tag_bytes_def)

definition last_vlan :: "u16 \<Rightarrow> (u8 \<times> u8) list \<Rightarrow> u16" where
  "last_vlan v tags = (if tags = [] then v else case last tags of (hi, lo) \<Rightarrow> be16 hi lo AND 0xFFF)"

lemma get8_append: "get8 (xs @ y # ys) (length xs) = Inr y"
  by (simp add: get8_def)

text \<open>The loop over the tags: from the tag whose type has been read to the last one.\<close>

lemma vlan_loop:
  assumes "length (pre @ tag_bytes tags t @ payload) < 65536" "payload \<noteq> []"
    and "d_ip_offset s = length pre + 2" "d_eth_type s = (if tags = [] then be16 (fst t) (snd t) else ETHERTYPE_VLAN)"
  shows "dissect_run (length tags + n) env (pre @ tag_bytes tags t @ payload) (Decode s) =
    dissect_run n env (pre @ tag_bytes tags t @ payload) (Decode (s\<lparr>d_vlan_id := last_vlan (d_vlan_id s) tags,
       d_eth_type := be16 (fst t) (snd t), d_ip_offset := length pre + 4 * length tags + 2\<rparr>))"
  using assms
proof (induction tags arbitrary: pre s)
  case Nil
  then have "s\<lparr>d_vlan_id := d_vlan_id s, d_eth_type := be16 (fst t) (snd t), d_ip_offset := length pre + 2\<rparr> = s" by simp
  then show ?case by (simp add: last_vlan_def)
next
  case (Cons x ts)
  obtain hi lo where x: "x = (hi, lo)" by (cases x)
  let ?p = "pre @ tag_bytes (x # ts) t @ payload" and ?pre = "pre @ [0x81, 0x00, hi, lo]"
  have p: "?p = ?pre @ tag_bytes ts t @ payload" by (simp add: x)
  obtain a b r where r: "tag_bytes ts t = a # b # r" "be16 a b = (if ts = [] then be16 (fst t) (snd t) else ETHERTYPE_VLAN)"
    by (cases ts) (auto simp: be16_def le16_def eth_defs)
  have "be16_at ?p (length pre + 2) = Inr (be16 hi lo)"
    using get8_append [of "pre @ [0x81, 0x00]" hi "lo # tag_bytes ts t @ payload"]
      get8_append [of "pre @ [0x81, 0x00, hi]" lo "tag_bytes ts t @ payload"]
    by (simp add: be16_at_def x)
  moreover have "be16_at ?p (Suc (Suc (Suc (Suc (length pre))))) = Inr (be16 a b)"
    using get8_append [of ?pre a "b # r @ payload"] get8_append [of "?pre @ [a]" b "r @ payload"]
    by (simp add: be16_at_def x r(1))
  moreover have "length pre + 6 < length ?p" using Cons.prems(2) by (cases payload) (simp_all add: x)
  ultimately have step: "dissect_step env ?p (Decode s) =
      Inr (Decode (s\<lparr>d_vlan_id := be16 hi lo AND 0xFFF, d_eth_type := be16 a b, d_ip_offset := 6 + length pre\<rparr>))"
    using Cons.prems by (simp add: dissect_step_def decode_packet_eth_def Let_def trunc16_small)
  let ?s = "s\<lparr>d_vlan_id := be16 hi lo AND 0xFFF, d_eth_type := be16 a b, d_ip_offset := 6 + length pre\<rparr>"
  have "dissect_run (length (x # ts) + n) env ?p (Decode s) = dissect_run (length ts + n) env ?p (Decode ?s)"
    unfolding length_Cons add_Suc dissect_run.simps step by simp
  also have "\<dots> = dissect_run n env ?p (Decode (?s\<lparr>d_vlan_id := last_vlan (d_vlan_id ?s) ts,
       d_eth_type := be16 (fst t) (snd t), d_ip_offset := length ?pre + 4 * length ts + 2\<rparr>))"
    unfolding p by (rule Cons.IH) (use Cons.prems r(2) in simp_all)
  also have "?s\<lparr>d_vlan_id := last_vlan (d_vlan_id ?s) ts, d_eth_type := be16 (fst t) (snd t),
       d_ip_offset := length ?pre + 4 * length ts + 2\<rparr>
    = s\<lparr>d_vlan_id := last_vlan (d_vlan_id s) (x # ts), d_eth_type := be16 (fst t) (snd t),
       d_ip_offset := length pre + 4 * length (x # ts) + 2\<rparr>"
    by (simp add: last_vlan_def x)
  finally show ?case .
qed

lemma tagged_frame_type:
  assumes "length macs = 12"
  shows "be16_at (macs @ tag_bytes tags (a, b) @ ip) 12 = Inr (if tags = [] then be16 a b else ETHERTYPE_VLAN)"
  using assms by (cases tags) (auto simp: be16_at_def get8_def nth_append be16_def le16_def eth_defs)

text \<open>An IPv4 header that does not start a tunnel.\<close>

lemma plain_ipv4:
  assumes "d_ip_offset s + 20 \<le> length p" "drop_bit 4 (p ! d_ip_offset s) = 4" "p ! d_ip_offset s AND 0x0F \<noteq> 0"
    and "p ! (d_ip_offset s + 9) \<notin> {IPPROTO_GRE, IPPROTO_IPV6, IPPROTO_UDP, IPPROTO_IP_IN_IP}"
    and "\<not> do_ignore_vlans env" "\<not> do_simulate_vlans env"
  shows "ipv4_packet env p s = Inr (Done (To_process (IPv4_at (d_ip_offset s)) (set_macs env s)))"
proof -
  have "unat (p ! d_ip_offset s AND 0x0F) \<noteq> 0" using assms(3) by (simp add: unat_eq_zero)
  moreover have "tunnel4 env p l f (p ! (d_ip_offset s + 9)) s = Inr (Pass (IPv4_at (d_ip_offset s)) s)" for l f
    using assms(4) by (simp add: tunnel4_def Let_def)
  moreover have "set_vlan env p h s = Inr s" for h using assms(5,6) by (simp add: set_vlan_def)
  ultimately show ?thesis
    using assms(1,2) by (simp add: ipv4_packet_def read_lemmas Let_def)
qed

lemma tagged_ipv4_dissected:
  assumes "datalink_type env = DLT_EN10MB" "length macs = 12"
    and "p = macs @ tag_bytes tags (0x08, 0x00) @ ip" "length p < 65536" "length p \<le> unat (h_len env)"
    and "20 \<le> length ip" "drop_bit 4 (ip ! 0) = 4" "ip ! 0 AND 0x0F \<noteq> 0"
    and "ip ! 9 \<notin> {IPPROTO_GRE, IPPROTO_IPV6, IPPROTO_UDP, IPPROTO_IP_IN_IP}"
    and "\<not> do_ignore_vlans env" "\<not> do_simulate_vlans env" "length tags + 2 \<le> n"
  shows "\<exists>s. dissectPacket n env ingress g p = Some (Inr (To_process (IPv4_at (14 + 4 * length tags)) s))
    \<and> d_vlan_id s = last_vlan 0 tags \<and> d_ip_offset s = 14 + 4 * length tags \<and> d_ethernet s \<noteq> Eth_null"
proof -
  let ?start = "dissect_start ingress g"
  define s0 where "s0 = ?start\<lparr>d_ethernet := Eth_at 0, d_ip_offset := 14,
    d_eth_type := (if tags = [] then be16 0x08 0x00 else ETHERTYPE_VLAN)\<rparr>"
  define s1 where "s1 = s0\<lparr>d_vlan_id := last_vlan 0 tags, d_eth_type := be16 0x08 0x00,
    d_ip_offset := 14 + 4 * length tags\<rparr>"
  have p: "p = macs @ tag_bytes tags (0x08, 0x00) @ ip" by fact
  have dl: "dissect_step env p (Datalink ?start) = Inr (Decode s0)"
    using tagged_frame_type [OF assms(2), where tags = tags and a = "0x08" and b = "0x00" and ip = ip] assms(1,2) unfolding p
    by (simp add: dissect_step_def datalink_check_def DLT_defs Let_def dissect_start_def s0_def trunc16_small)
  have "dissect_run (length tags + 1) env p (Decode s0) = dissect_run 1 env p (Decode (s0\<lparr>
      d_vlan_id := last_vlan (d_vlan_id s0) tags, d_eth_type := be16 (fst (0x08, 0x00 :: u8)) (snd (0x08 :: u8, 0x00)),
      d_ip_offset := length macs + 4 * length tags + 2\<rparr>))"
    unfolding p by (rule vlan_loop) (use assms(2,4,6) p in \<open>auto simp: s0_def\<close>)
  also have "s0\<lparr>d_vlan_id := last_vlan (d_vlan_id s0) tags, d_eth_type := be16 (fst (0x08, 0x00 :: u8)) (snd (0x08 :: u8, 0x00)),
      d_ip_offset := length macs + 4 * length tags + 2\<rparr> = s1"
    using assms(2) by (simp add: s1_def s0_def dissect_start_def)
  finally have "dissect_run (length tags + 1) env p (Decode s0) = dissect_run 1 env p (Decode s1)" .
  moreover have step: "dissect_step env p (Decode s1)
      = Inr (Done (To_process (IPv4_at (14 + 4 * length tags)) (set_macs env (s1\<lparr>d_ingress := b\<rparr>))))"
    if "set_direction env p s1 = Inr (s1\<lparr>d_ingress := b\<rparr>)" for b
  proof -
    have ip: "p ! (14 + 4 * length tags + j) = ip ! j" for j
      using assms(2) by (simp add: p nth_append)
    have "be16 0x08 0x00 = ETHERTYPE_IP" by (simp add: be16_def le16_def eth_defs)
    then have "dissect_step env p (Decode s1) = ipv4_packet env p (s1\<lparr>d_ingress := b\<rparr>)"
      using that by (simp add: dissect_step_def decode_packet_eth_def dispatch_def s1_def Let_def eth_defs)
    also have "\<dots> = Inr (Done (To_process (IPv4_at (14 + 4 * length tags)) (set_macs env (s1\<lparr>d_ingress := b\<rparr>))))"
      using plain_ipv4 [of "s1\<lparr>d_ingress := b\<rparr>" p env] ip [of 0] ip [of 9] assms(2,6-11)
      by (simp add: s1_def p)
    finally show ?thesis .
  qed
  moreover obtain b where b: "set_direction env p s1 = Inr (s1\<lparr>d_ingress := b\<rparr>)"
    using set_direction_ok [of p s1 env] assms(2)
    by (auto simp: s1_def s0_def dinv_def dissect_start_def p elim!: okE)
  ultimately have "dissect_run (length tags + 2) env p (Datalink ?start)
      = Some (Inr (To_process (IPv4_at (14 + 4 * length tags)) (set_macs env (s1\<lparr>d_ingress := b\<rparr>))))"
    by (simp add: dl)
  from dissect_run_mono [OF this assms(12)] show ?thesis
    using assms(2,5) by (auto simp: dissectPacket_def p s1_def s0_def set_macs_def)
qed

section \<open>Properties\<close>

definition wit_link :: dissect_env where
  "wit_link = \<lparr> datalink_type = DLT_EN10MB, decode_tunnels = True, do_ignore_vlans = False, do_simulate_vlans = False,
     do_ignore_macs = False, do_simulate_macs = False, rand_mac = (0, 0), sender_mac = None,
     isTrafficMirrored = False, isGwMacConfigured = False, areTrafficDirectionsSupported = True,
     isGwMac = (\<lambda>_. False), isInterfaceMac = (\<lambda>_. False), h_len = 2000, len_on_wire = 2000 \<rparr>"

text \<open>
  C5: On every link type but DLT_ENC and DLT_IPV4 the dissection of a packet of up to 65280
  captured bytes ends after a bounded number of jumps, whatever the bytes are, never reads
  outside of them, and hands to processPacket only an IP header that lies inside.
\<close>
theorem dissectPacket_safe:
  assumes "datalink_type env \<noteq> DLT_ENC" "datalink_type env \<noteq> DLT_IPV4" "length p + 256 \<le> 65536"
  shows "\<exists>v. (\<forall>n \<ge> 131073. dissectPacket n env ingress g p = Some (Inr v))
    \<and> (case v of To_process (IPv4_at i) s \<Rightarrow> i + 20 \<le> length p \<and> d_ip_offset s = i
       | To_process (IPv6_at i) s \<Rightarrow> i + 40 \<le> length p | _ \<Rightarrow> True)"
proof (cases "h_len env = 0 \<or> length p > unat (h_len env)")
  case True
  then show ?thesis by (intro exI [of _ "Counted ingress 0 0"]) (simp add: dissectPacket_def)
next
  case False
  let ?j = "Datalink (dissect_start ingress g)"
  have "\<exists>v. dissect_run 131073 env p ?j = Some (Inr v) \<and> jgood p (Done v)"
    by (rule dissect_run_ok) (use assms in \<open>simp_all add: bounded_link_def dinv_def dissect_start_def\<close>)
  then obtain v where v: "dissect_run 131073 env p ?j = Some (Inr v)" "jgood p (Done v)" by blast
  then have "dissectPacket n env ingress g p = Some (Inr v)" if "131073 \<le> n" for n
    using False dissect_run_mono [OF v(1) that] by (simp add: dissectPacket_def)
  then show ?thesis using v(2) by (intro exI [of _ v]) (auto split: verdict.split l3_hdr.split)
qed

theorem dissectPacket_safe_witness:
  "\<exists>v. dissectPacket 131073 wit_link True 0 (replicate 12 0 @ [0x81, 0x00, 0x00, 0x07, 0x08]) = Some (Inr v)"
proof -
  have "datalink_type wit_link \<noteq> DLT_ENC" "datalink_type wit_link \<noteq> DLT_IPV4"
    "length (replicate 12 0 @ [0x81, 0x00, 0x00, 0x07, 0x08] :: u8 list) + 256 \<le> 65536"
    by (simp_all add: wit_link_def DLT_defs)
  from dissectPacket_safe [OF this] show ?thesis by blast
qed

text \<open>
  C33: On a raw IPv4 link (DLT_IPV4) with tunnels decoded, a single packet with a VXLAN header
  is dissected for ever: the jump back to the link layer starts again at offset 0.
\<close>
theorem dissectPacket_raw_ipv4_loops:
  assumes "datalink_type env = DLT_IPV4" "decode_tunnels env" "vxlan_packet p" "length p \<le> unat (h_len env)" "h_len env \<noteq> 0"
  shows "dissectPacket n env ingress g p = None"
  using raw_ipv4_never_ends [OF assms(3,2,1)] assms(4,5) by (simp add: dissectPacket_def)

definition wit_vxlan :: "u8 list" where
  "wit_vxlan = [0x45, 0, 0, 36, 0, 0, 0, 0, 64, 17, 0, 0, 10, 0, 0, 1, 10, 0, 0, 2,
     0xC0, 0x00, 0x12, 0xB5, 0, 16, 0, 0, 8, 0, 0, 0, 0, 0, 7, 0]"

theorem dissectPacket_raw_ipv4_loops_witness:
  "dissectPacket 1000000 (wit_link\<lparr>datalink_type := DLT_IPV4\<rparr>) True 0 wit_vxlan = None"
proof (rule dissectPacket_raw_ipv4_loops)
  show "vxlan_packet wit_vxlan"
    by (simp add: vxlan_packet_def wit_vxlan_def be16_def le16_def port_defs proto_defs)
qed (simp_all add: wit_link_def wit_vxlan_def)

end
