(* ===== verification/Packet_Tunnels.thy ===== *)
theory Packet_Tunnels
  imports Packet_Dissector
begin

text \<open>
  Dissecting the content of a tunnel is dissecting the content alone: the offsets of every
  result are moved by the length of what precedes it. Shown for Ethernet links.
\<close>

section \<open>Moving a state\<close>

definition sh_ptr :: "nat \<Rightarrow> eth_ptr \<Rightarrow> eth_ptr" where
  "sh_ptr k e = (case e of Eth_at n \<Rightarrow> Eth_at (k + n) | _ \<Rightarrow> e)"

definition sh :: "nat \<Rightarrow> dstate \<Rightarrow> dstate" where
  "sh k s = s\<lparr>d_eth_offset := k + d_eth_offset s, d_ip_offset := k + d_ip_offset s,
     d_ethernet := sh_ptr k (d_ethernet s), d_overhead := (if d_overhead s = 0 then 0 else k + d_overhead s)\<rparr>"

fun sh_hdr :: "nat \<Rightarrow> l3_hdr \<Rightarrow> l3_hdr" where
  "sh_hdr k (IPv4_at i) = IPv4_at (k + i)"
| "sh_hdr k (IPv6_at i) = IPv6_at (k + i)"

fun sh_verdict :: "nat \<Rightarrow> verdict \<Rightarrow> verdict" where
  "sh_verdict k (To_process h s) = To_process (sh_hdr k h) (sh k s)"
| "sh_verdict k (Other_eth a s) = Other_eth a (sh k s)"
| "sh_verdict k (Counted b t n) = Counted b t n"
| "sh_verdict k Uncounted = Uncounted"

fun sh_jump :: "nat \<Rightarrow> jump \<Rightarrow> jump" where
  "sh_jump k (Datalink s) = Datalink (sh k s)"
| "sh_jump k (Decode s) = Decode (sh k s)"
| "sh_jump k (Done v) = Done (sh_verdict k v)"

fun sh_tunnel :: "nat \<Rightarrow> tunnel \<Rightarrow> tunnel" where
  "sh_tunnel k (Jump j) = Jump (sh_jump k j)"
| "sh_tunnel k (Pass h s) = Pass (sh_hdr k h) (sh k s)"

fun sh_tzsp :: "nat \<Rightarrow> tzsp_result \<Rightarrow> tzsp_result" where
  "sh_tzsp k (Tz_end n) = Tz_end (k + n)"
| "sh_tzsp k r = r"

lemma sh_simps [simp]:
  "d_eth_offset (sh k s) = k + d_eth_offset s" "d_ip_offset (sh k s) = k + d_ip_offset s"
  "d_eth_type (sh k s) = d_eth_type s" "d_vlan_id (sh k s) = d_vlan_id s" "d_ingress (sh k s) = d_ingress s"
  "d_ethernet (sh k s) = sh_ptr k (d_ethernet s)" "d_dummy_dest (sh k s) = d_dummy_dest s"
  "d_dummy_source (sh k s) = d_dummy_source s"
  "sh k (s\<lparr>d_vlan_id := v\<rparr>) = (sh k s)\<lparr>d_vlan_id := v\<rparr>" "sh k (s\<lparr>d_eth_type := t\<rparr>) = (sh k s)\<lparr>d_eth_type := t\<rparr>"
  "sh k (s\<lparr>d_ingress := b\<rparr>) = (sh k s)\<lparr>d_ingress := b\<rparr>"
  "sh k (s\<lparr>d_dummy_source := m\<rparr>) = (sh k s)\<lparr>d_dummy_source := m\<rparr>"
  "sh k (s\<lparr>d_dummy_dest := m\<rparr>) = (sh k s)\<lparr>d_dummy_dest := m\<rparr>"
  "sh k (s\<lparr>d_eth_offset := e\<rparr>) = (sh k s)\<lparr>d_eth_offset := k + e\<rparr>"
  "sh k (s\<lparr>d_ip_offset := i\<rparr>) = (sh k s)\<lparr>d_ip_offset := k + i\<rparr>"
  "sh k (s\<lparr>d_ethernet := u\<rparr>) = (sh k s)\<lparr>d_ethernet := sh_ptr k u\<rparr>"
  "q \<noteq> 0 \<Longrightarrow> sh k (s\<lparr>d_overhead := q\<rparr>) = (sh k s)\<lparr>d_overhead := k + q\<rparr>"
  by (simp_all add: sh_def)

lemma sh_ptr_simps [simp]:
  "sh_ptr k Eth_dummy = Eth_dummy" "sh_ptr k Eth_null = Eth_null" "sh_ptr k (Eth_at n) = Eth_at (k + n)"
  "sh_ptr k e = Eth_null \<longleftrightarrow> e = Eth_null"
  by (simp_all add: sh_ptr_def split: eth_ptr.split)

lemma sh_count [simp]: "sh_jump k (count_end s t n) = count_end s t n" "count_end (sh k s) t n = count_end s t n"
  by (simp_all add: count_end_def)

section \<open>Rules that compare the two dissections\<close>

definition moved :: "('a \<Rightarrow> 'b) \<Rightarrow> c_error + 'b \<Rightarrow> c_error + 'a \<Rightarrow> bool" where
  "moved h r' r \<longleftrightarrow> r' = map_sum id h r"

lemma moved_return: "y = h x \<Longrightarrow> moved h (Inr y) (Inr x)"
  by (simp add: moved_def)

lemma moved_bind: "moved g r' r \<Longrightarrow> (\<And>x. moved h (f' (g x)) (f x)) \<Longrightarrow> moved h (and_then r' f') (and_then r f)"
  by (cases r) (auto simp: moved_def)

lemma moved_bind_ok:
  "ok r Q \<Longrightarrow> moved g r' r \<Longrightarrow> (\<And>x. Q x \<Longrightarrow> moved h (f' (g x)) (f x)) \<Longrightarrow> moved h (and_then r' f') (and_then r f)"
  by (cases r) (auto simp: moved_def)

lemma moved_if:
  "b' = b \<Longrightarrow> (b \<Longrightarrow> moved h x' x) \<Longrightarrow> (\<not> b \<Longrightarrow> moved h y' y) \<Longrightarrow> moved h (if b' then x' else y') (if b then x else y)"
  by simp

lemma moved_prod: "(\<And>a b. z = (a, b) \<Longrightarrow> moved h (f' a b) (f a b)) \<Longrightarrow>
    moved h (case z of (a, b) \<Rightarrow> f' a b) (case z of (a, b) \<Rightarrow> f a b)"
  by (cases z) simp

lemma moved_same: "r' = r \<Longrightarrow> moved id r' r"
  by (simp add: moved_def sum.map_id)

lemma reads_moved:
  "i' = length pre + i \<Longrightarrow> moved id (get8 (pre @ p) i') (get8 p i)"
  "i' = length pre + i \<Longrightarrow> moved id (be16_at (pre @ p) i') (be16_at p i)"
  "i' = length pre + i \<Longrightarrow> moved id (get16 (pre @ p) i') (get16 p i)"
  "i' = length pre + i \<Longrightarrow> moved id (get32 (pre @ p) i') (get32 p i)"
  "i' = length pre + i \<Longrightarrow> moved id (bytes_at (pre @ p) i' n) (bytes_at p i n)"
  by (auto simp: moved_def get8_def be16_at_def get16_def get32_def bytes_at_def sum.map_id0 nth_append)

text \<open>The results of the two readings are the same.\<close>

lemma moved_read: "moved id r' r \<Longrightarrow> (\<And>x. moved h (f' x) (f x)) \<Longrightarrow> moved h (and_then r' f') (and_then r f)"
  by (cases r) (auto simp: moved_def)

lemmas moved_rules = moved_return moved_read moved_if moved_prod reads_moved

lemma mac_at_moved: "moved id (mac_at (pre @ p) (sh (length pre) s) k) (mac_at p s k)"
  unfolding mac_at_def by (cases "d_ethernet s") (auto intro: reads_moved moved_same simp: add.assoc)

lemma set_direction_moved: "moved (sh (length pre)) (set_direction env (pre @ p) (sh (length pre) s)) (set_direction env p s)"
  unfolding set_direction_def by (intro moved_rules mac_at_moved) simp_all

lemma simulated_vlan_moved: "moved id (simulated_vlan (pre @ p) (sh_hdr (length pre) h)) (simulated_vlan p h)"
proof (cases h)
  case (IPv4_at i)
  show ?thesis
    unfolding simulated_vlan_def IPv4_at sh_hdr.simps l3_hdr.case by (intro moved_rules) simp_all
next
  case (IPv6_at i)
  show ?thesis
    unfolding simulated_vlan_def IPv6_at sh_hdr.simps l3_hdr.case by (intro moved_rules) simp_all
qed

lemma set_vlan_moved: "moved (sh (length pre)) (set_vlan env (pre @ p) (sh_hdr (length pre) h) (sh (length pre) s)) (set_vlan env p h s)"
  unfolding set_vlan_def Let_def
  by (intro moved_rules simulated_vlan_moved) simp_all

lemma guessEthType_moved:
  "i' = length pre + i \<Longrightarrow> moved id (guessEthType (pre @ p) i' len) (guessEthType p i len)"
  unfolding guessEthType_def Let_def by (intro moved_rules) simp_all

lemma erspan_moved:
  assumes "length pre + length p + 256 \<le> 65536" "offset + 14 \<le> length p" "offset \<noteq> 0"
    and "offset' = length pre + offset"
  shows "moved (sh_jump (length pre)) (erspan (pre @ p) offset' (sh (length pre) s)) (erspan p offset s)"
  unfolding erspan_def Let_def
  by (intro moved_rules) (use assms in \<open>simp_all add: trunc16_small\<close>)

lemma gre4_proto_moved:
  assumes "length pre + length p + 256 \<le> 65536" "offset \<noteq> 0" "offset' = length pre + offset"
  shows "moved (sh_tunnel (length pre)) (gre4_proto (pre @ p) proto offset' (sh (length pre) s)) (gre4_proto p proto offset s)"
  unfolding gre4_proto_def Let_def
  by (intro moved_bind [OF erspan_moved] moved_rules) (use assms in \<open>simp_all add: trunc16_small\<close>)

lemma gre4_moved:
  assumes "length pre + length p + 256 \<le> 65536"
  shows "moved (sh_tunnel (length pre)) (gre4 (pre @ p) ip_len (sh (length pre) s)) (gre4 p ip_len s)"
proof -
  have "gre_offset g fl \<noteq> 0" for g fl using gre_offset_bounds(1) [of g fl] by simp
  moreover have "gre_offset (length pre + g) fl = length pre + gre_offset g fl" for g fl by (simp add: gre_offset_def)
  ultimately show ?thesis
    unfolding gre4_def Let_def
    by (intro gre4_proto_moved moved_rules) (use assms in \<open>simp_all add: add.assoc\<close>)
qed

lemma gtp_moved:
  assumes "length pre + length p + 256 \<le> 65536"
  shows "moved (sh_tunnel (length pre)) (gtp env (pre @ p) ip_len (sh (length pre) s)) (gtp env p ip_len s)"
  unfolding gtp_def Let_def
  by (intro moved_rules) (use assms in \<open>simp_all add: trunc16_small\<close>)

lemma ppp_ip_moved:
  assumes "length pre + length p + 256 \<le> 65536" "offset' = length pre + offset" "other' = sh_tunnel (length pre) other"
  shows "ppp_ip env (pre @ p) proto offset' (sh (length pre) s) other' = sh_tunnel (length pre) (ppp_ip env p proto offset s other)"
  using assms by (simp add: ppp_ip_def Let_def trunc16_small)

lemma l2tp_moved:
  assumes "length pre + length p + 256 \<le> 65536"
  shows "moved (sh_tunnel (length pre)) (l2tp env (pre @ p) ip_len (sh (length pre) s)) (l2tp env p ip_len s)"
  unfolding l2tp_def Let_def
  by (intro moved_rules ppp_ip_moved) (use assms in \<open>simp_all\<close>)

lemma tzsp_tags_moved:
  "offset' = length pre + offset \<Longrightarrow>
    moved (sh_tzsp (length pre)) (tzsp_tags (pre @ p) offset') (tzsp_tags p offset)"
proof (induction p offset arbitrary: offset' rule: tzsp_tags.induct)
  case (1 p offset)
  have g: "get8 (pre @ p) (length pre + i) = get8 p i" for i by (simp add: get8_def nth_append)
  show ?case
  proof (cases "offset < length p")
    case True
    then have t: "get8 p offset = Inr (p ! offset)" by (simp add: get8_def)
    note IH1 = 1(1) [OF True t, of "length pre + offset + 1"] and IH2 = 1(2) [OF True t]
    show ?thesis
      using True t IH1 IH2 g [of offset] g [of "offset + 1"] 1(3)
      by (subst (1 2) tzsp_tags.simps) (auto simp: moved_def get8_def add.assoc)
  next
    case False
    then show ?thesis using 1(3) by (subst (1 2) tzsp_tags.simps) (simp add: moved_def)
  qed
qed

lemma tzsp_moved:
  assumes "length pre + length p + 256 \<le> 65536"
  shows "moved (sh_tunnel (length pre)) (tzsp env (pre @ p) ip_len (sh (length pre) s)) (tzsp env p ip_len s)"
proof -
  have c: "moved (sh_tunnel (length pre))
      (case sh_tzsp (length pre) r of
         Tz_end n \<Rightarrow> Inr (Jump (Datalink ((sh (length pre) s)\<lparr>d_eth_offset := trunc16 n\<rparr>)))
       | Tz_none \<Rightarrow> Inr (Pass (IPv4_at (d_ip_offset (sh (length pre) s))) (sh (length pre) s))
       | Tz_truncated \<Rightarrow> Inr (Jump (Done Uncounted))
       | Tz_over \<Rightarrow> Inr (Jump (count_end (sh (length pre) s) ETHERTYPE_IPV6 (len_on_wire env))))
      (case r of
         Tz_end n \<Rightarrow> Inr (Jump (Datalink (s\<lparr>d_eth_offset := trunc16 n\<rparr>)))
       | Tz_none \<Rightarrow> Inr (Pass (IPv4_at (d_ip_offset s)) s)
       | Tz_truncated \<Rightarrow> Inr (Jump (Done Uncounted))
       | Tz_over \<Rightarrow> Inr (Jump (count_end s ETHERTYPE_IPV6 (len_on_wire env))))"
    if "\<forall>n. r = Tz_end n \<longrightarrow> n \<le> length p" for r
    using that assms by (cases r) (simp_all add: moved_def trunc16_small)
  show ?thesis
    unfolding tzsp_def Let_def
    by (intro moved_bind_ok [OF tzsp_tags_ok tzsp_tags_moved] c moved_rules) (use assms in \<open>simp_all\<close>)
qed

lemma capwap_at_moved:
  assumes "length pre + length p + 256 \<le> 65536" "d_ip_offset s + 1 < length p"
  shows "moved (sh_tunnel (length pre)) (capwap_at env (pre @ p) (sh (length pre) s)) (capwap_at env p s)"
proof -
  have l: "length pre + (d_ip_offset s + unat (drop_bit 3 b) * 4 + 24 + 8) < 65536" for b :: u8
    using capwap_len_bound [of b] assms by linarith
  have t: "trunc16 (length pre + d_ip_offset s + unat (drop_bit 3 b) * 4 + 24 + 8)
      = length pre + (d_ip_offset s + unat (drop_bit 3 b) * 4 + 32)"
    "trunc16 (d_ip_offset s + unat (drop_bit 3 b) * 4 + 24 + 8) = d_ip_offset s + unat (drop_bit 3 b) * 4 + 32"
    for b :: u8
    using l [of b] by (simp_all add: trunc16_small)
  show ?thesis
    unfolding capwap_at_def Let_def sh_simps t
    by (intro moved_rules) (use assms in \<open>simp_all add: count_end_def\<close>)
qed

lemma capwap4_moved:
  assumes "length pre + length p + 256 \<le> 65536" "d_ip_offset s + ip_len \<le> length p + 120"
  shows "moved (sh_tunnel (length pre)) (capwap4 env (pre @ p) ip_len (sh (length pre) s)) (capwap4 env p ip_len s)"
proof -
  have t: "trunc16 (d_ip_offset s + ip_len + 8) = d_ip_offset s + ip_len + 8"
    "trunc16 (length pre + d_ip_offset s + ip_len + 8) = length pre + (d_ip_offset s + ip_len + 8)"
    using assms by (simp_all add: trunc16_small)
  have "moved (sh_tunnel (length pre))
      (capwap_at env (pre @ p) ((sh (length pre) s)\<lparr>d_ip_offset := length pre + (d_ip_offset s + ip_len + 8)\<rparr>))
      (capwap_at env p (s\<lparr>d_ip_offset := d_ip_offset s + ip_len + 8\<rparr>))"
    if "d_ip_offset s + ip_len + 8 + 1 < length p"
    using capwap_at_moved [OF assms(1), of "s\<lparr>d_ip_offset := d_ip_offset s + ip_len + 8\<rparr>" env] that by simp
  then show ?thesis
    unfolding capwap4_def Let_def
    by (intro moved_rules) (use t assms in \<open>simp_all add: count_end_def\<close>)
qed

lemma udp4_ports_moved:
  assumes "length pre + length p + 256 \<le> 65536" "d_ip_offset s + ip_len + 8 \<le> length p"
  shows "moved (sh_tunnel (length pre)) (udp4_ports env (pre @ p) ip_len sport dport (sh (length pre) s))
    (udp4_ports env p ip_len sport dport s)"
  unfolding udp4_ports_def Let_def
  by (intro gtp_moved l2tp_moved tzsp_moved moved_rules) (use assms in \<open>simp_all add: trunc16_small\<close>)

lemma udp4_moved:
  assumes "length pre + length p + 256 \<le> 65536" "dinv p s" "d_ip_offset s + 20 \<le> length p" "ip_len \<le> 60"
  shows "moved (sh_tunnel (length pre)) (udp4 env (pre @ p) ip_len (sh (length pre) s)) (udp4 env p ip_len s)"
proof -
  have c: "moved (sh_tunnel (length pre))
      (case sh_tunnel (length pre) r of Jump j \<Rightarrow> Inr (sh_tunnel (length pre) r)
       | Pass h s \<Rightarrow> if b then capwap4 env (pre @ p) ip_len s else Inr (sh_tunnel (length pre) r))
      (case r of Jump j \<Rightarrow> Inr r | Pass h s \<Rightarrow> if b then capwap4 env p ip_len s else Inr r)"
    if "tunnel_ok p (d_ip_offset s) r" for r b
  proof (cases r)
    case (Pass h s')
    then have "moved (sh_tunnel (length pre)) (capwap4 env (pre @ p) ip_len (sh (length pre) s')) (capwap4 env p ip_len s')"
      by (intro capwap4_moved) (use that assms in simp_all)
    then show ?thesis using Pass by (simp add: moved_return)
  qed (simp add: moved_return)
  show ?thesis
    unfolding udp4_def Let_def
    by (intro moved_bind_ok [OF udp4_ports_ok udp4_ports_moved] c moved_rules)
      (use assms in \<open>simp_all add: add.assoc\<close>)
qed

lemma tunnel4_moved:
  assumes "length pre + length p + 256 \<le> 65536" "dinv p s" "d_ip_offset s + 20 \<le> length p" "ip_len \<le> 60" "0 < ip_len"
  shows "moved (sh_tunnel (length pre)) (tunnel4 env (pre @ p) ip_len frag proto (sh (length pre) s))
    (tunnel4 env p ip_len frag proto s)"
  unfolding tunnel4_def Let_def
  by (intro gre4_moved udp4_moved moved_rules)
    (use assms in \<open>simp_all add: trunc16_small add.assoc count_end_def\<close>)

lemma set_macs_moved: "set_macs env (sh k s) = sh k (set_macs env s)"
  by (simp add: set_macs_def)

lemma ipv4_packet_moved:
  assumes "length pre + length p + 256 \<le> 65536" "dinv p s"
  shows "moved (sh_jump (length pre)) (ipv4_packet env (pre @ p) (sh (length pre) s)) (ipv4_packet env p s)"
proof -
  have l: "unat (v AND 0x0F) * 4 \<le> 60" for v :: u8 using nibble_bound [of v] by simp
  have c: "moved (sh_jump (length pre))
      (case sh_tunnel (length pre) r of Jump j \<Rightarrow> Inr j
       | Pass h s \<Rightarrow> and_then (set_vlan env (pre @ p) h s) (\<lambda>s. Inr (Done (To_process h (set_macs env s)))))
      (case r of Jump j \<Rightarrow> Inr j
       | Pass h s \<Rightarrow> and_then (set_vlan env p h s) (\<lambda>s. Inr (Done (To_process h (set_macs env s)))))" for r
    by (cases r) (auto intro!: moved_bind [OF set_vlan_moved] moved_return simp: set_macs_moved)
  show ?thesis
    unfolding ipv4_packet_def Let_def
    by (intro moved_bind [OF tunnel4_moved] c moved_rules) (use assms l in \<open>simp_all\<close>)
qed

lemma gre6_proto_moved:
  assumes "length pre + length p + 256 \<le> 65536" "offset \<noteq> 0" "offset' = length pre + offset"
  shows "moved (sh_tunnel (length pre)) (gre6_proto (pre @ p) proto offset' (sh (length pre) s)) (gre6_proto p proto offset s)"
  unfolding gre6_proto_def Let_def
  by (intro moved_bind [OF erspan_moved] moved_rules) (use assms in \<open>simp_all add: trunc16_small\<close>)

lemma udp6_moved:
  assumes "length pre + length p + 256 \<le> 65536"
  shows "moved (sh_tunnel (length pre)) (udp6 env (pre @ p) shift (sh (length pre) s)) (udp6 env p shift s)"
proof -
  have c: "moved (sh_tunnel (length pre))
      (capwap_at env (pre @ p) ((sh (length pre) s)\<lparr>d_ip_offset := length pre + i\<rparr>))
      (capwap_at env p (s\<lparr>d_ip_offset := i\<rparr>))" if "i + 1 < length p" for i
    using capwap_at_moved [OF assms, of "s\<lparr>d_ip_offset := i\<rparr>" env] that by simp
  show ?thesis
    unfolding udp6_def Let_def
    by (intro moved_rules) (use assms c in \<open>simp_all add: trunc16_small add.assoc\<close>)
qed

lemma tunnel6_moved:
  assumes "length pre + length p + 256 \<le> 65536" "d_ip_offset s + 40 \<le> length p"
  shows "moved (sh_tunnel (length pre)) (tunnel6 env (pre @ p) shift proto (sh (length pre) s)) (tunnel6 env p shift proto s)"
proof -
  have "gre_offset g fl \<noteq> 0" for g fl using gre_offset_bounds(1) [of g fl] by simp
  moreover have "gre_offset (length pre + g) fl = length pre + gre_offset g fl" for g fl by (simp add: gre_offset_def)
  ultimately show ?thesis
    unfolding tunnel6_def gre6_def Let_def
    by (intro gre6_proto_moved udp6_moved moved_rules) (use assms in \<open>simp_all add: trunc16_small add.assoc\<close>)
qed

lemma ipv6_packet_moved:
  assumes "length pre + length p + 256 \<le> 65536"
  shows "moved (sh_jump (length pre)) (ipv6_packet env (pre @ p) (sh (length pre) s)) (ipv6_packet env p s)"
proof -
  have c: "moved (sh_jump (length pre))
      (case sh_tunnel (length pre) r of Jump j \<Rightarrow> Inr j
       | Pass h s \<Rightarrow> and_then (set_vlan env (pre @ p) h s)
           (\<lambda>s. Inr (Done (To_process h (if do_ignore_macs env then s\<lparr>d_ethernet := Eth_dummy\<rparr> else s)))))
      (case r of Jump j \<Rightarrow> Inr j
       | Pass h s \<Rightarrow> and_then (set_vlan env p h s)
           (\<lambda>s. Inr (Done (To_process h (if do_ignore_macs env then s\<lparr>d_ethernet := Eth_dummy\<rparr> else s)))))" for r
    by (cases r) (auto intro!: moved_bind [OF set_vlan_moved] moved_return)
  have x: "moved id
      (if b then and_then (get8 (pre @ p) (length pre + d_ip_offset s + 40)) (\<lambda>l4_proto.
         and_then (get8 (pre @ p) (length pre + d_ip_offset s + 41)) (\<lambda>n. Inr (l4_proto, 8 * (unat n + 1))))
       else Inr (nxt, 40))
      (if b then and_then (get8 p (d_ip_offset s + 40)) (\<lambda>l4_proto.
         and_then (get8 p (d_ip_offset s + 41)) (\<lambda>n. Inr (l4_proto, 8 * (unat n + 1))))
       else Inr (nxt, 40))" for b and nxt :: u8
    by (intro moved_rules) (simp_all add: add.assoc)
  show ?thesis
    unfolding ipv6_packet_def Let_def
    by (intro moved_bind [OF tunnel6_moved] c moved_rules x moved_read [OF x]) (use assms in \<open>simp_all add: add.assoc\<close>)
qed

lemma other_packet_moved: "moved (sh_jump (length pre)) (other_packet env (pre @ p) (sh (length pre) s)) (other_packet env p s)"
proof -
  define t where "t = (if do_ignore_macs env then s\<lparr>d_ethernet := Eth_dummy\<rparr> else s)"
  have t: "(if do_ignore_macs env then (sh (length pre) s)\<lparr>d_ethernet := Eth_dummy\<rparr> else sh (length pre) s) = sh (length pre) t"
    by (simp add: t_def)
  show ?thesis
    unfolding other_packet_def Let_def t t_def [symmetric] sh_simps
    by (intro moved_rules moved_read [OF mac_at_moved]) (simp_all add: add.assoc count_end_def t_def)
qed

lemma pppoe_packet_moved:
  assumes "length pre + length p + 256 \<le> 65536" "dinv p s"
  shows "moved (sh_jump (length pre)) (pppoe_packet env (pre @ p) (sh (length pre) s)) (pppoe_packet env p s)"
proof -
  have t: "trunc16 (d_ip_offset s + 6) = d_ip_offset s + 6"
    "trunc16 (length pre + d_ip_offset s + 6) = length pre + (d_ip_offset s + 6)"
    using assms by (simp_all add: trunc16_small dinv_def)
  let ?map = "map_prod id (\<lambda>i. length pre + i)"
  have "moved ?map
      (if b = 0 then and_then (get8 (pre @ p) (length pre + i + 1)) (\<lambda>t. Inr (t, trunc16 (length pre + i + 2)))
       else Inr (b, trunc16 (length pre + i + 1)))
      (if b = 0 then and_then (get8 p (i + 1)) (\<lambda>t. Inr (t, trunc16 (i + 2))) else Inr (b, trunc16 (i + 1)))"
    if "i + 1 < length p" for b and i
    by (intro moved_rules) (use assms(1) that in \<open>simp_all add: trunc16_small add.assoc\<close>)
  note x = this [of "d_ip_offset s + 6"]
  show ?thesis
    unfolding pppoe_packet_def Let_def sh_simps t
    by (intro moved_bind [OF x] moved_rules) (use assms in \<open>simp_all add: moved_def count_end_def add.assoc split: prod.split\<close>)
qed

lemma dispatch_moved:
  assumes "length pre + length p + 256 \<le> 65536" "dinv p s"
  shows "moved (sh_jump (length pre)) (dispatch env (pre @ p) (sh (length pre) s)) (dispatch env p s)"
proof -
  have "dinv p s'" if "\<exists>b. s' = s\<lparr>d_ingress := b\<rparr>" for s' using that assms(2) by (auto simp: dinv_def)
  then show ?thesis
    unfolding dispatch_def
    by (intro moved_bind_ok [OF set_direction_ok set_direction_moved] moved_if
        pppoe_packet_moved ipv4_packet_moved ipv6_packet_moved other_packet_moved)
      (use assms in \<open>simp_all\<close>)
qed

lemma decode_packet_eth_moved:
  assumes "length pre + length p + 256 \<le> 65536" "dinv p s"
  shows "moved (sh_jump (length pre)) (decode_packet_eth env (pre @ p) (sh (length pre) s)) (decode_packet_eth env p s)"
proof -
  define i where "i = d_ip_offset s + 4"
  have d: "moved (sh_jump (length pre))
      (dispatch env (pre @ p) ((sh (length pre) s)\<lparr>d_eth_type := t, d_ip_offset := length pre + j\<rparr>))
      (dispatch env p (s\<lparr>d_eth_type := t, d_ip_offset := j\<rparr>))" if "j \<le> length p + 60" for j t
    using dispatch_moved [OF assms(1), of "s\<lparr>d_eth_type := t, d_ip_offset := j\<rparr>" env] assms(2) that by (simp add: dinv_def)
  have i: "trunc16 (d_ip_offset s + 4) = i" "trunc16 (length pre + d_ip_offset s + 4) = length pre + i"
    if "d_ip_offset s < length p"
    using that assms(1) by (simp_all add: i_def trunc16_small)
  show ?thesis
    unfolding decode_packet_eth_def Let_def sh_simps
    by (intro moved_rules)
      (use assms i d [of i] d [of "i + 14"] dispatch_moved [OF assms] in
        \<open>simp_all add: guessEthType_moved count_end_def trunc16_small add.assoc\<close>)
qed

text \<open>
  An Ethernet link starts from \<open>eth_offset\<close> alone: the offset of the IP header, the type and the
  Ethernet pointer of the state are replaced.
\<close>

lemma datalink_check_ethernet:
  assumes "datalink_type env = DLT_EN10MB"
  shows "datalink_check env p s =
    (if d_eth_offset s + 14 > length p then Inr (count_end s 0 (h_len env))
     else and_then (be16_at p (d_eth_offset s + 12)) (\<lambda>t. Inr (Decode (s\<lparr>d_ethernet := Eth_at (d_eth_offset s),
       d_ip_offset := trunc16 (14 + d_eth_offset s), d_eth_type := t\<rparr>))))"
  using assms by (simp add: datalink_check_def DLT_defs Let_def)

lemma datalink_check_moved:
  assumes "datalink_type env = DLT_EN10MB" "length pre + length p + 256 \<le> 65536"
  shows "moved (sh_jump (length pre))
    (datalink_check env (pre @ p) ((sh (length pre) s)\<lparr>d_ip_offset := i, d_eth_type := t, d_ethernet := e\<rparr>))
    (datalink_check env p s)"
  unfolding datalink_check_ethernet [OF assms(1)]
  by (intro moved_rules) (use assms(2) in \<open>simp_all add: count_end_def trunc16_small add.assoc\<close>)

lemma dissect_step_moved:
  assumes "datalink_type env = DLT_EN10MB" "length pre + length p + 256 \<le> 65536" "jgood p j"
  shows "moved (sh_jump (length pre)) (dissect_step env (pre @ p) (sh_jump (length pre) j)) (dissect_step env p j)"
proof (cases j)
  case (Datalink s)
  have "(sh (length pre) s)\<lparr>d_ip_offset := d_ip_offset (sh (length pre) s), d_eth_type := d_eth_type s,
      d_ethernet := d_ethernet (sh (length pre) s)\<rparr> = sh (length pre) s" by (simp add: sh_def)
  then show ?thesis
    using datalink_check_moved [OF assms(1,2), where s = s and i = "d_ip_offset (sh (length pre) s)"
        and t = "d_eth_type s" and e = "d_ethernet (sh (length pre) s)"]
    by (simp add: dissect_step_def Datalink del: sh_simps)
next
  case (Decode s)
  then show ?thesis using decode_packet_eth_moved [OF assms(2), of s env] assms(3) by (simp add: dissect_step_def)
qed (simp add: dissect_step_def moved_return)

lemma dissect_run_moved:
  assumes "datalink_type env = DLT_EN10MB" "length pre + length p + 256 \<le> 65536" "jgood p j"
  shows "dissect_run n env (pre @ p) (sh_jump (length pre) j)
    = map_option (map_sum id (sh_verdict (length pre))) (dissect_run n env p j)"
  using assms(3)
proof (induction n arbitrary: j)
  case 0
  then show ?case by (cases j) auto
next
  case (Suc n)
  show ?case
  proof (cases "\<exists>v. j = Done v")
    case False
    have "bounded_link env" using assms(1) by (simp add: bounded_link_def DLT_defs)
    then obtain j' where j': "dissect_step env p j = Inr j'" "jgood p j'"
      using dissect_step_ok [of env p j] Suc.prems assms(2) False by (auto elim!: okE)
    then have "dissect_step env (pre @ p) (sh_jump (length pre) j) = Inr (sh_jump (length pre) j')"
      using dissect_step_moved [OF assms(1,2) Suc.prems] by (simp add: moved_def)
    then show ?thesis using j' Suc.IH [OF j'(2)] False by (cases j) auto
  qed auto
qed

section \<open>VXLAN\<close>

text \<open>The 50 bytes around a frame: Ethernet, IPv4 without options, UDP to the VXLAN port, VXLAN.\<close>

definition vxlan_outer :: "u8 list \<Rightarrow> bool" where
  "vxlan_outer w \<longleftrightarrow> length w = 50 \<and> be16 (w ! 12) (w ! 13) = ETHERTYPE_IP \<and> vxlan_packet (drop 14 w)"

lemma vxlan_outer_moves:
  assumes "vxlan_outer w" "datalink_type env = DLT_EN10MB" "decode_tunnels env"
    and "areTrafficDirectionsSupported env" "\<not> isTrafficMirrored env"
    and "d_eth_offset s = 0"
  shows "dissect_run (Suc (Suc n)) env (w @ p) (Datalink s) =
    dissect_run n env (w @ p) (Datalink (s\<lparr>d_ethernet := Eth_at 0, d_ip_offset := 14, d_eth_type := ETHERTYPE_IP, d_eth_offset := 50\<rparr>))"
proof -
  let ?p = "w @ p" and ?s = "s\<lparr>d_ethernet := Eth_at 0, d_ip_offset := 14, d_eth_type := ETHERTYPE_IP\<rparr>"
  have r: "be16_at ?p 12 = Inr ETHERTYPE_IP" "get8 ?p 14 = Inr 0x45" "be16_at ?p 20 = Inr (be16 (w ! 20) (w ! 21))"
    "get8 ?p 23 = Inr IPPROTO_UDP" "be16_at ?p 34 = Inr (be16 (w ! 34) (w ! 35))" "be16_at ?p 36 = Inr VXLAN_PORT"
    "50 \<le> length ?p" "be16 (w ! 20) (w ! 21) AND 0x3FFF = 0"
    "be16 (w ! 34) (w ! 35) \<notin> {GTP_U_V1_PORT, TZSP_PORT}"
    using assms(1) by (auto simp: vxlan_outer_def vxlan_packet_def be16_at_def get8_def nth_append)
  have "datalink_check env ?p s = Inr (Decode ?s)"
    using assms(2,6) r by (simp add: datalink_check_def DLT_defs Let_def trunc16_small)
  moreover have "set_direction env ?p ?s = Inr ?s" using assms(4,5) by (simp add: set_direction_def)
  moreover have "udp4 env ?p 20 ?s = Inr (Jump (Datalink (?s\<lparr>d_eth_offset := 50\<rparr>)))"
    using r by (simp add: udp4_def udp4_ports_def port_defs Let_def trunc16_small)
  ultimately show ?thesis
    using r assms(3)
    by (simp add: dissect_step_def decode_packet_eth_def dispatch_def ipv4_packet_def tunnel4_def proto_defs eth_defs Let_def)
qed

text \<open>The dissection of the frame, from the state that the outer headers leave.\<close>

lemma dissect_run_restart:
  assumes "datalink_type env = DLT_EN10MB" "length pre + length p + 256 \<le> 65536" "dinv p s"
  shows "dissect_run n env (pre @ p) (Datalink ((sh (length pre) s)\<lparr>d_ip_offset := i, d_eth_type := t, d_ethernet := e\<rparr>))
    = map_option (map_sum id (sh_verdict (length pre))) (dissect_run n env p (Datalink s))"
proof (cases n)
  case (Suc m)
  have "bounded_link env" using assms(1) by (simp add: bounded_link_def DLT_defs)
  then obtain j where j: "datalink_check env p s = Inr j" "jgood p j"
    using datalink_check_ok [of env p s] assms(2,3) by (auto elim!: okE)
  have "datalink_check env (pre @ p) ((sh (length pre) s)\<lparr>d_ip_offset := i, d_eth_type := t, d_ethernet := e\<rparr>)
      = Inr (sh_jump (length pre) j)"
    using datalink_check_moved [OF assms(1,2), where s = s and i = i and t = t and e = e] j(1) by (simp add: moved_def)
  then show ?thesis
    using dissect_run_moved [OF assms(1,2) j(2), of m] j(1) by (simp add: Suc dissect_step_def)
qed simp

section \<open>Properties\<close>


definition wit_outer :: "u8 list" where
  "wit_outer = [0, 0, 0, 0, 0, 0, 0, 0, 0, 0, 0, 0, 0x08, 0x00, 0x45, 0, 0, 50, 0, 0, 0, 0, 64, 17, 0, 0, 10, 0, 0, 1, 10, 0, 0, 2,
     0xC0, 0x00, 0x12, 0xB5, 0, 30, 0, 0, 8, 0, 0, 0, 0, 0, 7, 0]"


end
