(* ===== verification/Packet_Headers.thy ===== *)
theory Packet_Headers
  imports Packet_Dissector Tcp_Flow
begin

text \<open>
  The first part of NetworkInterface::processPacket in src/src/NetworkInterface.cpp: from the IP header
  found by dissectPacket to the ports, flags and payload with which the flow of the packet is
  looked up and updated. The lengths of the headers are forged by anybody: \<open>trusted\<close> lengths are
  those that the captured bytes confirm. Left out: sub-interfaces and the professional and nEdge
  builds.
\<close>

section \<open>IP headers\<close>

text \<open>\<open>Rejected\<close>: counted by incStats under an Ethernet type, with no flow.\<close>

datatype 'a parsed = Rejected u16 | Parsed 'a

text \<open>Where the transport header starts, its length according to the IP header and the padding behind it.\<close>

record l3_view =
  l4_proto :: u8
  l4_at :: nat
  l4_len :: u16
  frame_padding :: u16
  is_fragment :: bool
  fragment_offset :: u16
  tos :: u8

definition trusted_ip_len :: "u8 list \<Rightarrow> nat \<Rightarrow> u16" where
  "trusted_ip_len p ip_offset = of_nat (length p - ip_offset)"

definition ipv4_view :: "dissect_env \<Rightarrow> u8 list \<Rightarrow> nat \<Rightarrow> nat \<Rightarrow> c_error + l3_view parsed" where
  "ipv4_view env p i ip_offset =
     (let bad = Inr (Rejected ETHERTYPE_IP); on_wire = h_len env - of_nat ip_offset
      in if trusted_ip_len p ip_offset < 20 then bad
         else and_then (get8 p i) (\<lambda>v.
           let ip_len = unat (v AND 0x0F) * 4
           in if ip_len = 0 \<or> drop_bit 4 v \<noteq> 4 then bad
              else and_then (be16_at p (i + 2)) (\<lambda>ip_tot_len.
                if unat ip_tot_len > length p - ip_offset \<or> ip_tot_len < 20 then bad
                else and_then (get8 p (i + 1)) (\<lambda>t. and_then (be16_at p (i + 6)) (\<lambda>frag_off.
                  and_then (get8 p (i + 9)) (\<lambda>protocol.
                    let frag = of_nat ip_len > on_wire \<or> on_wire < ucast ip_tot_len
                               \<or> frag_off AND 0x1FFF \<noteq> 0 \<or> frag_off AND 0x2000 \<noteq> 0
                    in Inr (Parsed
                      \<lparr> l4_proto = protocol, l4_at = i + ip_len, l4_len = ip_tot_len - of_nat ip_len,
                        frame_padding = (if length p > i + unat ip_tot_len
                                         then of_nat (length p - i - unat ip_tot_len) else 0),
                        is_fragment = frag,
                        fragment_offset = (if frag then (frag_off AND 0x3FFF AND 0x1FFF) * 8 else 0),
                        tos = t \<rparr>)))))))"

text \<open>
  One extension header is skipped, and only when the captured bytes exceed 82: the test
  counts the 40 bytes of the header twice.
\<close>

definition ipv6_view :: "dissect_env \<Rightarrow> u8 list \<Rightarrow> nat \<Rightarrow> nat \<Rightarrow> c_error + l3_view parsed" where
  "ipv6_view env p i ip_offset =
     (let bad = Inr (Rejected ETHERTYPE_IPV6); trusted = trusted_ip_len p ip_offset
      in if trusted < 40 then bad
         else and_then (get32 p i) (\<lambda>flow.
           if ntohl flow AND 0xF0000000 \<noteq> 0x60000000 then bad
           else and_then (get8 p (i + 6)) (\<lambda>nxt.
             and_then
               (if (nxt = 0x3C \<or> nxt = 0) \<and> trusted > 40 + 40 + 2
                then and_then (get8 p (i + 40)) (\<lambda>proto. and_then (get8 p (i + 41)) (\<lambda>n.
                       Inr (proto, 40 + 8 * (unat n + 1))))
                else Inr (nxt, 40)) (\<lambda>(proto, ipv6_shift).
               if (nxt = 0x3C \<or> nxt = 0) \<and> trusted > 40 + 40 + 2 \<and> unat trusted < ipv6_shift then bad
               else Inr (Parsed
                 \<lparr> l4_proto = proto, l4_at = i + ipv6_shift,
                   l4_len = ucast (h_len env) - of_nat (i + ipv6_shift),
                   frame_padding = 0, is_fragment = False, fragment_offset = 0,
                   tos = ucast (drop_bit 20 (ntohl flow AND 0xFF00000)) AND 0xFF \<rparr>)))))"

definition l3_of :: "dissect_env \<Rightarrow> u8 list \<Rightarrow> l3_hdr \<Rightarrow> nat \<Rightarrow> c_error + l3_view parsed" where
  "l3_of env p h ip_offset =
     (case h of IPv4_at i \<Rightarrow> ipv4_view env p i ip_offset | IPv6_at i \<Rightarrow> ipv6_view env p i ip_offset)"

definition eth_of :: "l3_hdr \<Rightarrow> u16" where
  "eth_of h = (case h of IPv4_at _ \<Rightarrow> ETHERTYPE_IP | IPv6_at _ \<Rightarrow> ETHERTYPE_IPV6)"

definition trusted_l4_packet_len :: "u8 list \<Rightarrow> l3_hdr \<Rightarrow> l3_view \<Rightarrow> u16 parsed" where
  "trusted_l4_packet_len p h v =
     (if length p > l4_at v then
        let n = of_nat (length p - l4_at v)
        in if n \<ge> frame_padding v then Parsed (n - frame_padding v) else Rejected (eth_of h)
      else Rejected ETHERTYPE_IPV6)"

section \<open>Transport headers\<close>

text \<open>The ports are kept in network order, as the code does. The payload is where it starts.\<close>

record l4_view =
  src_port :: u16
  dst_port :: u16
  tcp_flags :: u8
  payload :: "nat option"
  trusted_payload_len :: u16
  icmp :: "icmp_info option"

definition no_ports :: l4_view where
  "no_ports = \<lparr> src_port = 0, dst_port = 0, tcp_flags = 0, payload = None, trusted_payload_len = 0, icmp = None \<rparr>"

definition tcp_doff :: "u8 \<Rightarrow> nat" where
  "tcp_doff b = unat (drop_bit 4 b)"

definition l4_of :: "net_env \<Rightarrow> u8 list \<Rightarrow> l3_hdr \<Rightarrow> l3_view \<Rightarrow> u16 \<Rightarrow> c_error + l4_view parsed" where
  "l4_of nets p h v trusted =
     (let at = l4_at v; short = Inr (Rejected (eth_of h));
          ports = (\<lambda>f. and_then (get16 p at) (\<lambda>sp. and_then (get16 p (at + 2)) (\<lambda>dp.
                    f (no_ports\<lparr>src_port := sp, dst_port := dp\<rparr>))))
      in if l4_proto v = IPPROTO_TCP then
           if trusted \<ge> 20 then
             ports (\<lambda>q. and_then (get8 p (at + 13)) (\<lambda>flags. and_then (get8 p (at + 12)) (\<lambda>d.
               let tcp_len = min (4 * tcp_doff d) (unat trusted)
               in Inr (Parsed (q\<lparr>tcp_flags := flags, payload := Some (at + tcp_len),
                                 trusted_payload_len := trusted - of_nat tcp_len\<rparr>)))))
           else short
         else if l4_proto v = IPPROTO_UDP then
           if trusted \<ge> 8 then
             ports (\<lambda>q. Inr (Parsed (q\<lparr>payload := Some (at + 8), trusted_payload_len := trusted - 8\<rparr>)))
           else short
         else if l4_proto v = IPPROTO_SCTP then
           if trusted \<ge> 12 then
             ports (\<lambda>q. Inr (Parsed (q\<lparr>payload := Some (at + 12), trusted_payload_len := trusted - 12\<rparr>)))
           else short
         else if l4_proto v = IPPROTO_ICMP then
           and_then (dissectICMP nets trusted (drop at p) ICMPinfo_new) (\<lambda>info.
             Inr (Parsed (no_ports\<lparr>icmp := Some info\<rparr>)))
         else Inr (Parsed no_ports))"

definition addresses :: "net_env \<Rightarrow> u8 list \<Rightarrow> l3_hdr \<Rightarrow> c_error + (IpAddress \<times> IpAddress)" where
  "addresses nets p h =
     (case h of
        IPv4_at i \<Rightarrow> and_then (get32 p (i + 12)) (\<lambda>s. and_then (get32 p (i + 16)) (\<lambda>d.
          Inr (IpAddress_set_v4 nets s (IpAddress_new nets), IpAddress_set_v4 nets d (IpAddress_new nets))))
      | IPv6_at i \<Rightarrow> and_then (bytes_at p (i + 8) 16) (\<lambda>s. and_then (bytes_at p (i + 24) 16) (\<lambda>d.
          Inr (IpAddress_set_v6 nets s False (IpAddress_new nets), IpAddress_set_v6 nets d False (IpAddress_new nets)))))"

text \<open>The transaction of a DNS message over UDP keeps the flows of different queries apart.\<close>

definition private_flow_id :: "u8 list \<Rightarrow> l3_view \<Rightarrow> l4_view \<Rightarrow> c_error + u32" where
  "private_flow_id p v q =
     (if l4_proto v = IPPROTO_UDP \<and> trusted_payload_len q > 20 \<and> (src_port q = ntohs 53 \<or> dst_port q = ntohs 53)
      then case payload q of
             None \<Rightarrow> Inl Null_deref
           | Some at \<Rightarrow> and_then (be16_at p at) (\<lambda>transaction. Inr (ucast transaction))
      else Inr 0)"

record packet_view =
  pk_l3 :: l3_view
  pk_trusted :: u16
  pk_l4 :: l4_view
  pk_src_ip :: IpAddress
  pk_dst_ip :: IpAddress
  pk_private_flow_id :: u32

definition packet_headers ::
  "dissect_env \<Rightarrow> net_env \<Rightarrow> u8 list \<Rightarrow> l3_hdr \<Rightarrow> dstate \<Rightarrow> c_error + packet_view parsed" where
  "packet_headers env nets p h s =
     (if d_ethernet s = Eth_null then Inr (Rejected ETHERTYPE_IP)
      else and_then (l3_of env p h (d_ip_offset s)) (\<lambda>r. case r of
        Rejected t \<Rightarrow> Inr (Rejected t)
      | Parsed v \<Rightarrow> (case trusted_l4_packet_len p h v of
          Rejected t \<Rightarrow> Inr (Rejected t)
        | Parsed n \<Rightarrow> and_then (l4_of nets p h v n) (\<lambda>r. case r of
            Rejected t \<Rightarrow> Inr (Rejected t)
          | Parsed q \<Rightarrow> and_then (addresses nets p h) (\<lambda>(src, dst).
              and_then (private_flow_id p v q) (\<lambda>id.
                Inr (Parsed \<lparr> pk_l3 = v, pk_trusted = n, pk_l4 = q, pk_src_ip = src, pk_dst_ip = dst,
                              pk_private_flow_id = id \<rparr>)))))))"

text \<open>What a TCP packet tells its flow: the length of its payload is computed from both headers.\<close>

definition tcp_segment :: "timeval \<Rightarrow> bool \<Rightarrow> u8 list \<Rightarrow> packet_view \<Rightarrow> c_error + tcp_packet" where
  "tcp_segment ts d p pk =
     (let at = l4_at (pk_l3 pk)
      in and_then (get32 p (at + 4)) (\<lambda>seq. and_then (get8 p (at + 12)) (\<lambda>doff. and_then (be16_at p (at + 14)) (\<lambda>win.
           Inr \<lparr> tp_when = ts, tp_src2dst = d, tp_flags = tcp_flags (pk_l4 pk), tp_seq = ntohl seq,
                 tp_window = win, tp_len = l4_len (pk_l3 pk) - of_nat (4 * tcp_doff doff) \<rparr>))))"

section \<open>Lengths that the captured bytes confirm\<close>

lemma unat_of_nat16: "n < 65536 \<Longrightarrow> unat (of_nat n :: u16) = n"
  by (simp add: unat_of_nat)

lemma trusted_ip_len_le: "unat (trusted_ip_len p off) \<le> length p - off"
  by (simp add: trusted_ip_len_def unat_of_nat)

lemma ipv4_view_ok: "i + 20 \<le> length p \<Longrightarrow> ok (ipv4_view env p i off) (\<lambda>_. True)"
  unfolding ipv4_view_def Let_def by (intro ok_rules) simp_all

lemma ipv6_view_ok:
  assumes "i + 40 \<le> length p" "off = i \<or> length p \<le> off + 1"
  shows "ok (ipv6_view env p i off) (\<lambda>_. True)"
proof -
  have "82 < length p - off" if "82 < trusted_ip_len p off"
  proof -
    have "82 < unat (trusted_ip_len p off)" using that by (simp add: word_less_nat_alt)
    then show ?thesis using trusted_ip_len_le [of p off] by linarith
  qed
  then have "i + 42 \<le> length p" if "82 < trusted_ip_len p off" using that assms by fastforce
  then show ?thesis
    unfolding ipv6_view_def Let_def by (intro ok_rules) (use assms in \<open>auto simp: add.assoc\<close>)
qed

lemma l3_of_ok: "hdr_ok p h s \<Longrightarrow> ok (l3_of env p h (d_ip_offset s)) (\<lambda>_. True)"
  by (cases h) (auto simp: l3_of_def intro!: ipv4_view_ok ipv6_view_ok)

lemma trusted_l4_bounds:
  assumes "trusted_l4_packet_len p h v = Parsed n" "length p < 65536"
  shows "l4_at v < length p" "l4_at v + unat n \<le> length p"
    "unat n + unat (frame_padding v) = length p - l4_at v"
proof -
  have l: "l4_at v < length p" using assms(1) by (simp add: trusted_l4_packet_len_def split: if_splits)
  let ?m = "of_nat (length p - l4_at v) :: u16"
  have m: "unat ?m = length p - l4_at v" using assms(2) by (simp add: unat_of_nat)
  have n: "frame_padding v \<le> ?m" "n = ?m - frame_padding v"
    using assms(1) l by (auto simp: trusted_l4_packet_len_def Let_def split: if_splits)
  then have u: "unat n = unat ?m - unat (frame_padding v)" by (simp add: unat_sub)
  moreover have "unat (frame_padding v) \<le> unat ?m" using n(1) by (simp add: word_le_nat_alt)
  ultimately show "unat n + unat (frame_padding v) = length p - l4_at v" using m by linarith
  then show "l4_at v + unat n \<le> length p" using l by linarith
  show "l4_at v < length p" by (rule l)
qed

text \<open>The payload lies between the transport header and the end of the trusted bytes.\<close>

definition payload_inside :: "u8 list \<Rightarrow> l3_view \<Rightarrow> u16 \<Rightarrow> l4_view \<Rightarrow> bool" where
  "payload_inside p v n q \<longleftrightarrow> (case payload q of
      None \<Rightarrow> trusted_payload_len q = 0
    | Some a \<Rightarrow> l4_at v \<le> a \<and> a + unat (trusted_payload_len q) = l4_at v + unat n)"

lemma payload_min: "unat (n - of_nat (min k (unat n)) :: u16) = unat n - min k (unat n)"
proof -
  have "unat n < 65536" using unsigned_less [of n] by simp
  then have b: "min k (unat n) < 65536" by linarith
  then have "unat (of_nat (min k (unat n)) :: u16) = min k (unat n)" by (simp add: unat_of_nat)
  then show ?thesis by (simp add: unat_sub word_le_nat_alt)
qed

lemma l4_of_ok:
  assumes "l4_at v + unat n \<le> length p"
  shows "ok (l4_of nets p h v n) (\<lambda>r. \<forall>q. r = Parsed q \<longrightarrow> payload_inside p v n q
    \<and> (l4_proto v = IPPROTO_TCP \<longrightarrow> 20 \<le> unat n) \<and> (l4_proto v \<noteq> IPPROTO_TCP \<longrightarrow> tcp_flags q = 0))"
proof -
  have i: "ok (dissectICMP nets n (drop (l4_at v) p) ICMPinfo_new) (\<lambda>_. True)"
  proof -
    have "unat n \<le> length (drop (l4_at v) p)" using assms by simp
    then obtain j where "dissectICMP nets n (drop (l4_at v) p) ICMPinfo_new = Inr j" using dissectICMP_total by blast
    then show ?thesis by simp
  qed
  have c: "20 \<le> unat n" if "20 \<le> n" using that by (simp add: word_le_nat_alt)
  have u: "8 \<le> unat n \<and> unat (n - 8) = unat n - 8" if "8 \<le> n" using that by (simp add: word_le_nat_alt unat_sub)
  have s: "12 \<le> unat n \<and> unat (n - 12) = unat n - 12" if "12 \<le> n" using that by (simp add: word_le_nat_alt unat_sub)
  show ?thesis
    unfolding l4_of_def Let_def
    by (intro ok_rules i [THEN ok_mono])
      (use assms c u s payload_min in \<open>auto simp: payload_inside_def no_ports_def proto_defs\<close>)
qed

lemma addresses_ok: "hdr_ok p h s \<Longrightarrow> ok (addresses nets p h) (\<lambda>_. True)"
  by (cases h) (auto simp: addresses_def intro!: ok_rules)

lemma private_flow_id_ok:
  assumes "payload_inside p v n q" "l4_at v + unat n \<le> length p"
  shows "ok (private_flow_id p v q) (\<lambda>_. True)"
proof (cases "20 < trusted_payload_len q")
  case True
  then have "20 < unat (trusted_payload_len q)" by (simp add: word_less_nat_alt)
  then show ?thesis
    using assms unfolding private_flow_id_def payload_inside_def
    by (intro ok_rules) (auto split: option.splits intro!: ok_rules)
qed (simp add: private_flow_id_def)

definition headers_ok :: "u8 list \<Rightarrow> packet_view parsed \<Rightarrow> bool" where
  "headers_ok p r \<longleftrightarrow> (\<forall>pk. r = Parsed pk \<longrightarrow>
     l4_at (pk_l3 pk) < length p \<and> l4_at (pk_l3 pk) + unat (pk_trusted pk) \<le> length p
     \<and> payload_inside p (pk_l3 pk) (pk_trusted pk) (pk_l4 pk)
     \<and> (l4_proto (pk_l3 pk) = IPPROTO_TCP \<longrightarrow> 20 \<le> unat (pk_trusted pk)))"

lemma packet_headers_ok:
  assumes "hdr_ok p h s" "length p < 65536"
  shows "ok (packet_headers env nets p h s) (headers_ok p)"
proof -
  have c: "ok (case r of Rejected t \<Rightarrow> Inr (Rejected t)
     | Parsed v \<Rightarrow> (case trusted_l4_packet_len p h v of
          Rejected t \<Rightarrow> Inr (Rejected t)
        | Parsed n \<Rightarrow> and_then (l4_of nets p h v n) (\<lambda>r. case r of
            Rejected t \<Rightarrow> Inr (Rejected t)
          | Parsed q \<Rightarrow> and_then (addresses nets p h) (\<lambda>(src, dst).
              and_then (private_flow_id p v q) (\<lambda>id.
                Inr (Parsed \<lparr> pk_l3 = v, pk_trusted = n, pk_l4 = q, pk_src_ip = src, pk_dst_ip = dst,
                              pk_private_flow_id = id \<rparr>)))))) (headers_ok p)" for r
  proof (cases r)
    case (Parsed v)
    show ?thesis
    proof (cases "trusted_l4_packet_len p h v")
      case n: (Parsed n)
      note b = trusted_l4_bounds [OF n assms(2)]
      show ?thesis
        unfolding Parsed n parsed.case
      proof (rule ok_bindI, rule l4_of_ok [OF b(2), THEN ok_mono], split parsed.split, safe)
        fix t show "ok (Inr (Rejected t)) (headers_ok p)" by (simp add: headers_ok_def)
      next
        fix q
        assume q: "\<forall>q'. Parsed q = Parsed q' \<longrightarrow> payload_inside p v n q'
          \<and> (l4_proto v = IPPROTO_TCP \<longrightarrow> 20 \<le> unat n) \<and> (l4_proto v \<noteq> IPPROTO_TCP \<longrightarrow> tcp_flags q' = 0)"
        then have "ok (private_flow_id p v q) (\<lambda>_. True)" using private_flow_id_ok b(2) by blast
        then show "ok (and_then (addresses nets p h) (\<lambda>(src, dst). and_then (private_flow_id p v q) (\<lambda>id.
            Inr (Parsed \<lparr> pk_l3 = v, pk_trusted = n, pk_l4 = q, pk_src_ip = src, pk_dst_ip = dst,
              pk_private_flow_id = id \<rparr>)))) (headers_ok p)"
          by (intro ok_bindI addresses_ok [OF assms(1), THEN ok_mono] ok_prodI)
            (use q b in \<open>auto simp: headers_ok_def elim!: ok_mono\<close>)
      qed
    qed (simp add: Parsed headers_ok_def)
  qed (simp add: headers_ok_def)
  show ?thesis
    unfolding packet_headers_def
    by (intro ok_ifI ok_bindI l3_of_ok [OF assms(1), THEN ok_mono] c) (simp add: headers_ok_def)
qed

lemma tcp_segment_ok:
  assumes "l4_at (pk_l3 pk) + unat (pk_trusted pk) \<le> length p" "20 \<le> unat (pk_trusted pk)"
  shows "ok (tcp_segment ts d p pk) (\<lambda>_. True)"
  unfolding tcp_segment_def Let_def by (intro ok_rules) (use assms in simp_all)

section \<open>Lengths of an IPv4 packet\<close>

lemma ipv4_view_Parsed:
  assumes "ipv4_view env p i i = Inr (Parsed v)" "i + 20 \<le> length p"
  shows "\<exists>tot. be16_at p (i + 2) = Inr tot \<and> i + unat tot \<le> length p \<and> l4_at v = i + unat (p ! i AND 0x0F) * 4
    \<and> l4_len v = tot - of_nat (unat (p ! i AND 0x0F) * 4)
    \<and> frame_padding v = (if length p > i + unat tot then of_nat (length p - i - unat tot) else 0)"
  using assms by (auto simp: ipv4_view_def read_lemmas Let_def split: if_splits)

lemma ipv4_lengths:
  assumes "ipv4_view env p i i = Inr (Parsed v)" "i + 20 \<le> length p" "length p < 65536"
    and "trusted_l4_packet_len p h v = Parsed n"
  shows "n = l4_len v" "\<exists>tot. be16_at p (i + 2) = Inr tot \<and> l4_at v + unat (l4_len v) = i + unat tot"
proof -
  obtain tot where t: "be16_at p (i + 2) = Inr tot" "i + unat tot \<le> length p" "l4_at v = i + unat (p ! i AND 0x0F) * 4"
    "l4_len v = tot - of_nat (unat (p ! i AND 0x0F) * 4)"
    "frame_padding v = (if length p > i + unat tot then of_nat (length p - i - unat tot) else 0)"
    using ipv4_view_Parsed [OF assms(1,2)] by blast
  define m where "m = length p - i - unat tot"
  have "frame_padding v = of_nat m" "m < 65536" using t(5) assms(3) by (auto simp: m_def)
  then have "unat (frame_padding v) = length p - i - unat tot" by (simp add: unat_of_nat) (simp add: m_def)
  then have s: "l4_at v + unat n = i + unat tot"
    using trusted_l4_bounds [OF assms(4,3)] t(2) by linarith
  have "unat (of_nat (unat (p ! i AND 0x0F) * 4) :: u16) = unat (p ! i AND 0x0F) * 4"
    by (rule unat_of_nat16) (use nibble_bound [of "p ! i"] in simp)
  then have "unat (l4_len v) = unat tot - unat (p ! i AND 0x0F) * 4"
    using s t(3,4) by (simp add: unat_sub word_le_nat_alt)
  then show "n = l4_len v" using s t(3) by (simp add: word_unat_eq_iff)
  then show "\<exists>tot. be16_at p (i + 2) = Inr tot \<and> l4_at v + unat (l4_len v) = i + unat tot"
    using s t(1) by blast
qed

section \<open>A TCP segment on the wire\<close>

definition hi8 :: "u16 \<Rightarrow> u8" where "hi8 w = ucast (drop_bit 8 w)"
definition lo8 :: "u16 \<Rightarrow> u8" where "lo8 w = ucast w"

lemma be16_hi_lo [simp]: "be16 (hi8 w) (lo8 w) = w"
  by (rule bit_word_eqI) (auto simp: be16_def le16_def hi8_def lo8_def bit_simps)

lemma le16_hi_lo [simp]: "le16 (hi8 w) (lo8 w) = ntohs w"
  by (simp add: ntohs_def hi8_def lo8_def)

text \<open>The addresses are in network order, the other fields are numbers.\<close>

record tcp_wire =
  w_src :: u32
  w_dst :: u32
  w_sport :: u16
  w_dport :: u16
  w_seq :: u32
  w_ack :: u32
  w_flags :: u8
  w_window :: u16
  w_tos :: u8
  w_payload :: "u8 list"

definition wire_total :: "tcp_wire \<Rightarrow> u16" where
  "wire_total w = of_nat (40 + length (w_payload w))"

definition wire_ip :: "tcp_wire \<Rightarrow> u8 list" where
  "wire_ip w = [0x45, w_tos w, hi8 (wire_total w), lo8 (wire_total w), 0, 0, 0x40, 0, 64, 6, 0, 0,
      byte_of 0 (w_src w), byte_of 1 (w_src w), byte_of 2 (w_src w), byte_of 3 (w_src w),
      byte_of 0 (w_dst w), byte_of 1 (w_dst w), byte_of 2 (w_dst w), byte_of 3 (w_dst w),
      hi8 (w_sport w), lo8 (w_sport w), hi8 (w_dport w), lo8 (w_dport w),
      byte_of 3 (w_seq w), byte_of 2 (w_seq w), byte_of 1 (w_seq w), byte_of 0 (w_seq w),
      byte_of 3 (w_ack w), byte_of 2 (w_ack w), byte_of 1 (w_ack w), byte_of 0 (w_ack w),
      0x50, w_flags w, hi8 (w_window w), lo8 (w_window w), 0, 0, 0, 0] @ w_payload w"

text \<open>Ethernet addresses, VLAN tags, the packet and the padding of a short frame.\<close>

definition wire_frame :: "u8 list \<Rightarrow> (u8 \<times> u8) list \<Rightarrow> tcp_wire \<Rightarrow> u8 list \<Rightarrow> u8 list" where
  "wire_frame macs tags w pad = macs @ tag_bytes tags (0x08, 0x00) @ (wire_ip w @ pad)"

lemma length_wire_ip [simp]: "length (wire_ip w) = 40 + length (w_payload w)"
  by (simp add: wire_ip_def)

lemma nth_wire_ip: "k < 40 \<Longrightarrow> (wire_ip w @ pad) ! k = wire_ip w ! k"
  by (simp add: nth_append)

lemma wire_bytes:
  "wire_ip w ! 0 = 0x45" "wire_ip w ! 1 = w_tos w" "wire_ip w ! Suc 0 = w_tos w"
  "wire_ip w ! 2 = hi8 (wire_total w)" "wire_ip w ! 3 = lo8 (wire_total w)" "wire_ip w ! 6 = 0x40" "wire_ip w ! 7 = 0"
  "wire_ip w ! 9 = 6" "wire_ip w ! 12 = byte_of 0 (w_src w)" "wire_ip w ! 13 = byte_of 1 (w_src w)"
  "wire_ip w ! 14 = byte_of 2 (w_src w)" "wire_ip w ! 15 = byte_of 3 (w_src w)"
  "wire_ip w ! 16 = byte_of 0 (w_dst w)" "wire_ip w ! 17 = byte_of 1 (w_dst w)"
  "wire_ip w ! 18 = byte_of 2 (w_dst w)" "wire_ip w ! 19 = byte_of 3 (w_dst w)"
  "wire_ip w ! 20 = hi8 (w_sport w)" "wire_ip w ! 21 = lo8 (w_sport w)"
  "wire_ip w ! 22 = hi8 (w_dport w)" "wire_ip w ! 23 = lo8 (w_dport w)"
  "wire_ip w ! 24 = byte_of 3 (w_seq w)" "wire_ip w ! 25 = byte_of 2 (w_seq w)"
  "wire_ip w ! 26 = byte_of 1 (w_seq w)" "wire_ip w ! 27 = byte_of 0 (w_seq w)"
  "wire_ip w ! 32 = 0x50" "wire_ip w ! 33 = w_flags w"
  "wire_ip w ! 34 = hi8 (w_window w)" "wire_ip w ! 35 = lo8 (w_window w)"
  by (simp_all add: wire_ip_def)

text \<open>Reading the frame behind the link layer is reading the packet.\<close>

lemma reads_wire:
  assumes "p = pre @ q" "i = length pre"
  shows "get8 p (i + k) = get8 q k" "be16_at p (i + k) = be16_at q k" "get16 p (i + k) = get16 q k"
    "get32 p (i + k) = get32 q k" "get8 p i = get8 q 0" "get16 p i = get16 q 0"
  by (auto simp: assms get8_def be16_at_def get16_def get32_def nth_append)

lemma wire_view:
  assumes "p = pre @ wire_ip w @ pad" "length p < 65536" "length p \<le> unat (h_len env)"
  shows "ipv4_view env p (length pre) (length pre) = Inr (Parsed
    \<lparr> l4_proto = 6, l4_at = length pre + 20, l4_len = of_nat (20 + length (w_payload w)),
      frame_padding = of_nat (length pad), is_fragment = False, fragment_offset = 0, tos = w_tos w \<rparr>)"
proof -
  let ?i = "length pre" and ?n = "length (w_payload w)"
  have l: "length p = ?i + 40 + ?n + length pad" by (simp add: assms(1))
  have tot: "unat (wire_total w) = 40 + ?n" unfolding wire_total_def by (rule unat_of_nat16) (use l assms(2) in simp)
  have "trusted_ip_len p ?i = of_nat (40 + ?n + length pad)" by (simp add: trusted_ip_len_def l)
  then have ti: "\<not> trusted_ip_len p ?i < 20"
    using unat_of_nat16 [of "40 + ?n + length pad"] l assms(2) by (simp add: word_less_nat_alt)
  have hw: "unat (h_len env - of_nat ?i) = unat (h_len env) - ?i"
  proof -
    have "unat (of_nat ?i :: u32) = ?i" using l assms(2) by (simp add: unat_of_nat)
    then show ?thesis using l assms(3) by (simp add: unat_sub word_le_nat_alt)
  qed
  have "unat (ucast (wire_total w) :: u32) \<le> 40 + ?n" by (simp add: unsigned_ucast_eq tot)
  then have fr: "\<not> of_nat 20 > h_len env - of_nat ?i" "\<not> h_len env - of_nat ?i < ucast (wire_total w)"
    unfolding word_less_nat_alt hw using l assms(3) by simp_all
  have "be16 0x40 0 = 0x4000" by (simp add: be16_def le16_def)
  then have r: "get8 p ?i = Inr 0x45" "be16_at p (?i + 2) = Inr (wire_total w)" "get8 p (?i + 1) = Inr (w_tos w)"
    "be16_at p (?i + 6) = Inr 0x4000" "get8 p (?i + 9) = Inr 6"
    unfolding reads_wire [OF assms(1) refl]
    by (simp_all add: read_lemmas nth_wire_ip wire_bytes)
  show ?thesis
    using r ti fr tot l
    by (simp add: ipv4_view_def Let_def word_less_nat_alt wire_total_def)
qed

definition wire_packet :: "net_env \<Rightarrow> nat \<Rightarrow> nat \<Rightarrow> tcp_wire \<Rightarrow> packet_view" where
  "wire_packet nets i pad w =
     \<lparr> pk_l3 = \<lparr> l4_proto = IPPROTO_TCP, l4_at = i + 20, l4_len = of_nat (20 + length (w_payload w)),
         frame_padding = of_nat pad, is_fragment = False, fragment_offset = 0, tos = w_tos w \<rparr>,
       pk_trusted = of_nat (20 + length (w_payload w)),
       pk_l4 = \<lparr> src_port = ntohs (w_sport w), dst_port = ntohs (w_dport w), tcp_flags = w_flags w,
         payload = Some (i + 40), trusted_payload_len = of_nat (length (w_payload w)), icmp = None \<rparr>,
       pk_src_ip = IpAddress_set_v4 nets (w_src w) (IpAddress_new nets),
       pk_dst_ip = IpAddress_set_v4 nets (w_dst w) (IpAddress_new nets), pk_private_flow_id = 0 \<rparr>"

lemma wire_headers:
  assumes p: "p = pre @ wire_ip w @ pad" and len: "length p < 65536" "length p \<le> unat (h_len env)"
    and s: "d_ip_offset s = length pre" "d_ethernet s \<noteq> Eth_null"
  shows "packet_headers env nets p (IPv4_at (length pre)) s = Inr (Parsed (wire_packet nets (length pre) (length pad) w))"
    and "tcp_segment ts d p (wire_packet nets (length pre) (length pad) w)
      = Inr \<lparr> tp_when = ts, tp_src2dst = d, tp_flags = w_flags w, tp_seq = w_seq w, tp_window = w_window w,
              tp_len = of_nat (length (w_payload w)) \<rparr>"
proof -
  let ?i = "length pre" and ?n = "length (w_payload w)" and ?v = "pk_l3 (wire_packet nets (length pre) (length pad) w)"
  have l: "length p = ?i + 40 + ?n + length pad" by (simp add: p)
  have v: "l3_of env p (IPv4_at ?i) ?i = Inr (Parsed ?v)"
    using wire_view [OF p len] by (simp add: l3_of_def wire_packet_def proto_defs)
  have rest: "length p - l4_at ?v = 20 + ?n + length pad" by (simp add: l wire_packet_def)
  have "(of_nat (20 + ?n + length pad) :: u16) \<ge> of_nat (length pad)"
    using l len(1) by (simp add: word_le_nat_alt unat_of_nat16 del: of_nat_add)
  then have n: "trusted_l4_packet_len p (IPv4_at ?i) ?v = Parsed (of_nat (20 + ?n))"
    using l by (simp add: trusted_l4_packet_len_def rest Let_def) (simp add: wire_packet_def add.assoc)
  have big: "(20 :: u16) \<le> of_nat (20 + ?n)" "unat (of_nat (20 + ?n) :: u16) = 20 + ?n"
    using l len(1) by (simp_all add: word_le_nat_alt unat_of_nat16 del: of_nat_add)
  have d: "tcp_doff 0x50 = 5" by (simp add: tcp_doff_def)
  have r: "get16 p (?i + 20) = Inr (ntohs (w_sport w))" "get16 p (?i + 22) = Inr (ntohs (w_dport w))"
    "get8 p (?i + 32) = Inr 0x50" "get8 p (?i + 33) = Inr (w_flags w)" "be16_at p (?i + 34) = Inr (w_window w)"
    "get32 p (?i + 12) = Inr (w_src w)" "get32 p (?i + 16) = Inr (w_dst w)"
    "get32 p (?i + 24) = Inr (ntohl (w_seq w))"
    unfolding reads_wire [OF p refl]
    by (simp_all add: read_lemmas get16_def get32_def nth_wire_ip wire_bytes ntohl_def)
  have q: "l4_of nets p (IPv4_at ?i) ?v (of_nat (20 + ?n)) = Inr (Parsed (pk_l4 (wire_packet nets ?i (length pad) w)))"
    using r r(2) [unfolded add.commute [of ?i 22]] big d by (simp add: l4_of_def wire_packet_def no_ports_def Let_def add.assoc)
  have "private_flow_id p ?v (pk_l4 (wire_packet nets ?i (length pad) w)) = Inr 0"
    by (simp add: private_flow_id_def wire_packet_def proto_defs)
  then show "packet_headers env nets p (IPv4_at ?i) s = Inr (Parsed (wire_packet nets ?i (length pad) w))"
    using r s by (simp add: packet_headers_def v n q addresses_def del: of_nat_add) (simp add: wire_packet_def)
  show "tcp_segment ts d' p (wire_packet nets ?i (length pad) w) = Inr \<lparr> tp_when = ts, tp_src2dst = d',
      tp_flags = w_flags w, tp_seq = w_seq w, tp_window = w_window w, tp_len = of_nat (length (w_payload w)) \<rparr>" for d'
    using r d by (simp add: tcp_segment_def wire_packet_def Let_def add.assoc)
qed

section \<open>Properties\<close>

text \<open>
  Whatever the captured bytes of a packet of up to 65280 bytes are, when the dissector hands over
  an IP header the parsing of the headers reads only inside of the packet, and so do the fields of a
  TCP segment; the payload it passes on starts behind the transport header and ends inside of the packet.
\<close>
theorem headers_memory_safe:
  assumes "datalink_type env \<noteq> DLT_ENC" "datalink_type env \<noteq> DLT_IPV4" "length p + 256 \<le> 65536"
    and "dissectPacket n env ingress g p = Some (Inr (To_process h s))"
  shows "\<exists>r. packet_headers env nets p h s = Inr r
    \<and> (case r of Rejected t \<Rightarrow> True
       | Parsed pk \<Rightarrow> (case payload (pk_l4 pk) of None \<Rightarrow> trusted_payload_len (pk_l4 pk) = 0
            | Some a \<Rightarrow> l4_at (pk_l3 pk) \<le> a \<and> a + unat (trusted_payload_len (pk_l4 pk)) \<le> length p)
          \<and> (l4_proto (pk_l3 pk) = IPPROTO_TCP \<longrightarrow> (\<exists>seg. tcp_segment ts d p pk = Inr seg)))"
proof -
  have "h_len env \<noteq> 0" "length p \<le> unat (h_len env)"
    and run: "dissect_run n env p (Datalink (dissect_start ingress g)) = Some (Inr (To_process h s))"
    using assms(4) by (auto simp: dissectPacket_def split: if_splits)
  have "\<exists>v. dissect_run 131073 env p (Datalink (dissect_start ingress g)) = Some (Inr v) \<and> jgood p (Done v)"
    by (rule dissect_run_ok) (use assms(1-3) in \<open>simp_all add: bounded_link_def dinv_def dissect_start_def\<close>)
  then obtain v where v: "dissect_run 131073 env p (Datalink (dissect_start ingress g)) = Some (Inr v)" "jgood p (Done v)"
    by blast
  have "v = To_process h s"
    using dissect_run_mono [OF v(1), of "max n 131073"] dissect_run_mono [OF run, of "max n 131073"] by simp
  then have "hdr_ok p h s" using v(2) by simp
  then have ok: "ok (packet_headers env nets p h s) (headers_ok p)"
    by (rule packet_headers_ok) (use assms(3) in simp)
  then obtain r where r: "packet_headers env nets p h s = Inr r" "headers_ok p r" by (rule okE)
  have "\<exists>seg. tcp_segment ts d p pk = Inr seg" if "r = Parsed pk" "l4_proto (pk_l3 pk) = IPPROTO_TCP" for pk
    using tcp_segment_ok [of pk p ts d] r(2) that by (auto simp: headers_ok_def elim!: okE)
  then show ?thesis
    using r by (intro exI [of _ r])
      (auto simp: headers_ok_def payload_inside_def split: parsed.split option.splits)
qed

definition wit_wire :: tcp_wire where
  "wit_wire = \<lparr> w_src = 0x0100000A, w_dst = 0x0200000A, w_sport = 50000, w_dport = 80, w_seq = 1000, w_ack = 2000,
     w_flags = 0x18, w_window = 512, w_tos = 0, w_payload = [71, 69, 84] \<rparr>"

lemma wit_wire_dissected:
  "\<exists>s. dissectPacket 3 wit_link True 0 (wire_frame (replicate 12 2) [(0, 5)] wit_wire [0, 0])
      = Some (Inr (To_process (IPv4_at 18) s))"
proof -
  have "\<exists>s. dissectPacket 3 wit_link True 0 (wire_frame (replicate 12 2) [(0, 5)] wit_wire [0, 0])
      = Some (Inr (To_process (IPv4_at (14 + 4 * length [(0, 5) :: u8 \<times> u8])) s))
    \<and> d_vlan_id s = last_vlan 0 [(0, 5)] \<and> d_ip_offset s = 14 + 4 * length [(0, 5) :: u8 \<times> u8] \<and> d_ethernet s \<noteq> Eth_null"
    by (rule tagged_ipv4_dissected [where macs = "replicate 12 2" and ip = "wire_ip wit_wire @ [0, 0]", OF _ _ wire_frame_def])
      (simp_all add: wit_link_def wit_wire_def nth_append proto_defs wire_ip_def wire_frame_def)
  then show ?thesis by auto
qed

theorem headers_memory_safe_witness:
  "\<exists>s r. dissectPacket 3 wit_link True 0 (wire_frame (replicate 12 2) [(0, 5)] wit_wire [0, 0])
       = Some (Inr (To_process (IPv4_at 18) s))
     \<and> packet_headers wit_link no_nets (wire_frame (replicate 12 2) [(0, 5)] wit_wire [0, 0]) (IPv4_at 18) s = Inr r"
proof -
  obtain s where s: "dissectPacket 3 wit_link True 0 (wire_frame (replicate 12 2) [(0, 5)] wit_wire [0, 0])
      = Some (Inr (To_process (IPv4_at 18) s))" using wit_wire_dissected by blast
  have "datalink_type wit_link \<noteq> DLT_ENC" "datalink_type wit_link \<noteq> DLT_IPV4"
    "length (wire_frame (replicate 12 2) [(0, 5)] wit_wire [0, 0]) + 256 \<le> 65536"
    by (simp_all add: wit_link_def DLT_defs wire_frame_def wit_wire_def)
  from headers_memory_safe [OF this s, of no_nets] s show ?thesis by blast
qed

text \<open>
  C13: A TCP segment over IPv4, sent in an Ethernet frame with any number of VLAN tags and any padding
  behind it, is parsed back: the dissector and the header parser return its VLAN, addresses, ports, flags,
  sequence number, window and payload, and the padding is not taken for payload. The headers have no
  options, the frame is shorter than 65536 bytes and was captured as a whole, and the preferences that ignore or
  simulate VLANs are off.
\<close>
theorem tcp_frame_roundtrip:
  assumes "datalink_type env = DLT_EN10MB" "length macs = 12" "\<not> do_ignore_vlans env" "\<not> do_simulate_vlans env"
    and "frame = wire_frame macs tags w pad" "length frame < 65536" "length frame \<le> unat (h_len env)"
    and "length tags + 2 \<le> n"
  shows "\<exists>s pk seg. dissectPacket n env ingress g frame = Some (Inr (To_process (IPv4_at (14 + 4 * length tags)) s))
    \<and> d_vlan_id s = last_vlan 0 tags
    \<and> packet_headers env nets frame (IPv4_at (14 + 4 * length tags)) s = Inr (Parsed pk)
    \<and> pk_src_ip pk = IpAddress_set_v4 nets (w_src w) (IpAddress_new nets)
    \<and> pk_dst_ip pk = IpAddress_set_v4 nets (w_dst w) (IpAddress_new nets)
    \<and> src_port (pk_l4 pk) = ntohs (w_sport w) \<and> dst_port (pk_l4 pk) = ntohs (w_dport w)
    \<and> (\<exists>a. payload (pk_l4 pk) = Some a
           \<and> take (unat (trusted_payload_len (pk_l4 pk))) (drop a frame) = w_payload w)
    \<and> tcp_segment ts d frame pk = Inr seg \<and> tp_flags seg = w_flags w \<and> tp_seq seg = w_seq w
    \<and> tp_window seg = w_window w \<and> unat (tp_len seg) = length (w_payload w)"
proof -
  let ?i = "14 + 4 * length tags" and ?pre = "macs @ tag_bytes tags (0x08, 0x00)"
  have p: "frame = macs @ tag_bytes tags (0x08, 0x00) @ wire_ip w @ pad" "frame = ?pre @ wire_ip w @ pad"
    by (simp_all add: assms(5) wire_frame_def)
  have i: "length ?pre = ?i" using assms(2) by simp
  have "\<exists>s. dissectPacket n env ingress g frame = Some (Inr (To_process (IPv4_at ?i) s))
    \<and> d_vlan_id s = last_vlan 0 tags \<and> d_ip_offset s = ?i \<and> d_ethernet s \<noteq> Eth_null"
    by (rule tagged_ipv4_dissected [OF assms(1,2) p(1) assms(6,7)])
      (use assms(3,4,8) in \<open>simp_all add: nth_append wire_bytes proto_defs\<close>)
  then obtain s where s: "dissectPacket n env ingress g frame = Some (Inr (To_process (IPv4_at ?i) s))"
    "d_vlan_id s = last_vlan 0 tags" "d_ip_offset s = ?i" "d_ethernet s \<noteq> Eth_null" by blast
  note h = wire_headers [OF p(2) assms(6,7), unfolded i, OF s(3,4)]
  have n: "unat (of_nat (length (w_payload w)) :: u16) = length (w_payload w)"
    by (rule unat_of_nat16) (use assms(6) p(1) in simp)
  have d: "drop (?i + 40) frame = w_payload w @ pad"
  proof -
    have "frame = (?pre @ take 40 (wire_ip w)) @ w_payload w @ pad" unfolding p(2) by (simp add: wire_ip_def)
    moreover have "length (?pre @ take 40 (wire_ip w)) = ?i + 40" using i by simp
    ultimately show ?thesis by (metis append_eq_conv_conj)
  qed
  show ?thesis
    by (intro exI [of _ s] exI [of _ "wire_packet nets ?i (length pad) w"] exI [of _ "\<lparr> tp_when = ts, tp_src2dst = d,
          tp_flags = w_flags w, tp_seq = w_seq w, tp_window = w_window w, tp_len = of_nat (length (w_payload w)) \<rparr>"] conjI
        s(1,2) h)
      (use n d in \<open>simp_all add: wire_packet_def\<close>)
qed

theorem tcp_frame_roundtrip_witness:
  "\<exists>s pk seg. dissectPacket 3 wit_link True 0 (wire_frame (replicate 12 2) [(0, 5)] wit_wire [0, 0])
      = Some (Inr (To_process (IPv4_at 18) s)) \<and> d_vlan_id s = last_vlan 0 [(0, 5)]
    \<and> packet_headers wit_link no_nets (wire_frame (replicate 12 2) [(0, 5)] wit_wire [0, 0]) (IPv4_at 18) s = Inr (Parsed pk)
    \<and> tcp_segment \<lparr> tv_sec = 0, tv_usec = 0 \<rparr> True (wire_frame (replicate 12 2) [(0, 5)] wit_wire [0, 0]) pk = Inr seg
    \<and> tp_seq seg = 1000 \<and> unat (tp_len seg) = 3"
proof -
  let ?frame = "wire_frame (replicate 12 2) [(0, 5)] wit_wire [0, 0]"
  have "datalink_type wit_link = DLT_EN10MB" "length (replicate 12 (2 :: u8)) = 12" "\<not> do_ignore_vlans wit_link"
    "\<not> do_simulate_vlans wit_link" "length ?frame < 65536" "length ?frame \<le> unat (h_len wit_link)"
    "length [(0, 5) :: u8 \<times> u8] + 2 \<le> 3"
    by (simp_all add: wit_link_def wire_frame_def wit_wire_def)
  from tcp_frame_roundtrip [OF this(1-4) refl this(5-7), of True 0 no_nets "\<lparr> tv_sec = 0, tv_usec = 0 \<rparr>" True]
  have "\<exists>s pk seg. dissectPacket 3 wit_link True 0 ?frame = Some (Inr (To_process (IPv4_at (14 + 4 * length [(0, 5) :: u8 \<times> u8])) s))
    \<and> d_vlan_id s = last_vlan 0 [(0, 5)]
    \<and> packet_headers wit_link no_nets ?frame (IPv4_at (14 + 4 * length [(0, 5) :: u8 \<times> u8])) s = Inr (Parsed pk)
    \<and> tcp_segment \<lparr> tv_sec = 0, tv_usec = 0 \<rparr> True ?frame pk = Inr seg
    \<and> tp_seq seg = w_seq wit_wire \<and> unat (tp_len seg) = length (w_payload wit_wire)" by blast
  moreover have "w_seq wit_wire = 1000" "length (w_payload wit_wire) = 3" "14 + 4 * length [(0, 5) :: u8 \<times> u8] = 18"
    by (simp_all add: wit_wire_def)
  ultimately show ?thesis by simp
qed

lemma packet_headers_Parsed:
  assumes "packet_headers env nets p h s = Inr (Parsed pk)"
  shows "l3_of env p h (d_ip_offset s) = Inr (Parsed (pk_l3 pk))"
    "trusted_l4_packet_len p h (pk_l3 pk) = Parsed (pk_trusted pk)"
    "l4_of nets p h (pk_l3 pk) (pk_trusted pk) = Inr (Parsed (pk_l4 pk))"
  using assms by (auto simp: packet_headers_def and_then_def split: if_splits sum.splits parsed.splits prod.splits)

text \<open>
  For IPv4 the checks on the forged lengths leave no underflow: the transport bytes that are passed on
  are those between the IP header and the total length that the header announces, they are
  captured, and the length used for the TCP sequence numbers is theirs.
\<close>
theorem ipv4_lengths_exact:
  assumes "packet_headers env nets p (IPv4_at i) s = Inr (Parsed pk)" "d_ip_offset s = i"
    and "i + 20 \<le> length p" "length p < 65536"
  shows "\<exists>tot. be16_at p (i + 2) = Inr tot \<and> i + unat tot \<le> length p
    \<and> l4_at (pk_l3 pk) = i + 4 * unat (p ! i AND 0x0F)
    \<and> l4_at (pk_l3 pk) + unat (pk_trusted pk) = i + unat tot \<and> l4_len (pk_l3 pk) = pk_trusted pk"
proof -
  note H = packet_headers_Parsed [OF assms(1)]
  have v: "ipv4_view env p i i = Inr (Parsed (pk_l3 pk))" using H(1) assms(2) by (simp add: l3_of_def)
  note L = ipv4_lengths [OF v assms(3,4) H(2)]
  obtain tot where "be16_at p (i + 2) = Inr tot" "i + unat tot \<le> length p" "l4_at (pk_l3 pk) = i + unat (p ! i AND 0x0F) * 4"
    using ipv4_view_Parsed [OF v assms(3)] by blast
  then show ?thesis using L by auto
qed

text \<open>A segment of 20 bytes whose data offset announces 60.\<close>

definition wit_forged :: "u8 list" where
  "wit_forged = [0, 0, 0, 0, 0, 0, 0, 0, 0, 0, 0, 0, 8, 0,
     0x45, 0, 0, 40, 0, 0, 0, 0, 64, 6, 0, 0, 10, 0, 0, 1, 10, 0, 0, 2,
     0xC3, 0x50, 0, 80, 0, 0, 3, 0xE8, 0, 0, 0, 0, 0xF0, 0x10, 2, 0, 0, 0, 0, 0]"

definition wit_dstate :: dstate where
  "wit_dstate = (dissect_start True 0)\<lparr>d_ip_offset := 14, d_ethernet := Eth_at 0\<rparr>"

lemma wit_forged_parsed:
  "\<exists>pk seg. packet_headers wit_link no_nets wit_forged (IPv4_at 14) wit_dstate = Inr (Parsed pk)
    \<and> l4_proto (pk_l3 pk) = 6 \<and> l4_len (pk_l3 pk) = 20 \<and> l4_at (pk_l3 pk) = 34
    \<and> tcp_segment \<lparr> tv_sec = 0, tv_usec = 0 \<rparr> True wit_forged pk = Inr seg"
proof -
  have c: "case packet_headers wit_link no_nets wit_forged (IPv4_at 14) wit_dstate of
     Inr (Parsed pk) \<Rightarrow> l4_proto (pk_l3 pk) = 6 \<and> l4_len (pk_l3 pk) = 20 \<and> l4_at (pk_l3 pk) = 34
       \<and> isl (tcp_segment \<lparr> tv_sec = 0, tv_usec = 0 \<rparr> True wit_forged pk) = False
   | _ \<Rightarrow> False"
    by code_simp
  then obtain pk where pk: "packet_headers wit_link no_nets wit_forged (IPv4_at 14) wit_dstate = Inr (Parsed pk)"
    by (auto split: sum.splits parsed.split_asm)
  show ?thesis
    using c unfolding pk
    by (cases "tcp_segment \<lparr> tv_sec = 0, tv_usec = 0 \<rparr> True wit_forged pk") auto
qed

theorem ipv4_lengths_exact_witness:
  "\<exists>pk. packet_headers wit_link no_nets wit_forged (IPv4_at 14) wit_dstate = Inr (Parsed pk)
     \<and> l4_at (pk_l3 pk) = 34 \<and> pk_trusted pk = l4_len (pk_l3 pk)"
proof -
  obtain pk where pk: "packet_headers wit_link no_nets wit_forged (IPv4_at 14) wit_dstate = Inr (Parsed pk)"
    "l4_at (pk_l3 pk) = 34"
    using wit_forged_parsed by blast
  have "d_ip_offset wit_dstate = 14" "14 + 20 \<le> length wit_forged" "length wit_forged < 65536"
    by (simp_all add: wit_dstate_def wit_forged_def)
  from ipv4_lengths_exact [OF pk(1) this] pk show ?thesis by auto
qed

text \<open>
  A TCP header that announces more bytes than the segment has is accepted with an empty payload,
  but the length given to the sequence numbers of the flow wraps around to almost 65536.
\<close>
theorem forged_data_offset_wraps:
  assumes "packet_headers env nets p (IPv4_at i) s = Inr (Parsed pk)" "d_ip_offset s = i"
    and "i + 20 \<le> length p" "length p < 65536" "l4_proto (pk_l3 pk) = IPPROTO_TCP"
    and "tcp_segment ts d p pk = Inr seg"
    and "doff = tcp_doff (p ! (l4_at (pk_l3 pk) + 12))" "unat (l4_len (pk_l3 pk)) < 4 * doff"
  shows "trusted_payload_len (pk_l4 pk) = 0 \<and> unat (tp_len seg) = 65536 + unat (l4_len (pk_l3 pk)) - 4 * doff"
proof -
  note H = packet_headers_Parsed [OF assms(1)]
  have "ipv4_view env p i i = Inr (Parsed (pk_l3 pk))" using H(1) assms(2) by (simp add: l3_of_def)
  then have n: "pk_trusted pk = l4_len (pk_l3 pk)" using ipv4_lengths(1) [OF _ assms(3,4) H(2)] by simp
  have "l4_at (pk_l3 pk) + unat (pk_trusted pk) \<le> length p" by (rule trusted_l4_bounds [OF H(2) assms(4)])
  moreover have t: "20 \<le> pk_trusted pk" using H(3) assms(5) by (auto simp: l4_of_def Let_def split: if_splits)
  ultimately have g: "get8 p (l4_at (pk_l3 pk) + 12) = Inr (p ! (l4_at (pk_l3 pk) + 12))"
    by (simp add: get8_def word_le_nat_alt)
  have "unat (p ! (l4_at (pk_l3 pk) + 12)) < 256" using unsigned_less [of "p ! (l4_at (pk_l3 pk) + 12)"] by simp
  then have "doff \<le> 15"
    using assms(7) by (simp add: tcp_doff_def unat_drop_bit_div)
  then have d: "unat (of_nat (4 * doff) :: u16) = 4 * doff" by (intro unat_of_nat16) simp
  have "trusted_payload_len (pk_l4 pk) = pk_trusted pk - of_nat (min (4 * doff) (unat (pk_trusted pk)))"
    using H(3) t g assms(5,7)
    by (auto simp: l4_of_def Let_def and_then_def split: sum.splits dest!: arg_cong [of _ "pk_l4 pk" trusted_payload_len])
  then have "trusted_payload_len (pk_l4 pk) = 0" using n assms(8) by simp
  moreover have "tp_len seg = l4_len (pk_l3 pk) - of_nat (4 * doff)"
    using assms(6) g assms(7) by (auto simp: tcp_segment_def Let_def and_then_def split: sum.splits)
  moreover have "l4_len (pk_l3 pk) - of_nat (4 * doff) = (of_nat (65536 + unat (l4_len (pk_l3 pk)) - 4 * doff) :: u16)"
    using \<open>doff \<le> 15\<close> by (simp add: of_nat_diff)
  ultimately show ?thesis
    using unat_of_nat16 [of "65536 + unat (l4_len (pk_l3 pk)) - 4 * doff"] assms(8) by simp
qed

theorem forged_data_offset_wraps_witness:
  "\<exists>pk seg. packet_headers wit_link no_nets wit_forged (IPv4_at 14) wit_dstate = Inr (Parsed pk)
     \<and> tcp_segment \<lparr> tv_sec = 0, tv_usec = 0 \<rparr> True wit_forged pk = Inr seg \<and> unat (tp_len seg) = 65496"
proof -
  obtain pk seg where pk: "packet_headers wit_link no_nets wit_forged (IPv4_at 14) wit_dstate = Inr (Parsed pk)"
    "l4_at (pk_l3 pk) = 34" "l4_len (pk_l3 pk) = 20" "l4_proto (pk_l3 pk) = IPPROTO_TCP"
    "tcp_segment \<lparr> tv_sec = 0, tv_usec = 0 \<rparr> True wit_forged pk = Inr seg"
    using wit_forged_parsed unfolding proto_defs by blast
  have "d_ip_offset wit_dstate = 14" "14 + 20 \<le> length wit_forged" "length wit_forged < 65536"
    "tcp_doff (wit_forged ! (l4_at (pk_l3 pk) + 12)) = 15"
    by (simp_all add: wit_dstate_def wit_forged_def pk(2) tcp_doff_def)
  from forged_data_offset_wraps [OF pk(1) this(1-3) pk(4,5) this(4) [symmetric]] pk show ?thesis by auto
qed

end
