(* ===== verification/Packet_Flows.thy ===== *)
theory Packet_Flows
  imports Packet_Headers Traffic_Tables
begin

text \<open>
  The flow of a packet: NetworkInterface::getFlow and findFlowHosts in
  src/src/NetworkInterface.cpp, with the part of the constructors of Flow and Host and of Flow::swap
  (src/src/Flow.cpp, Host.cpp) that decides identity: addresses, ports, hosts and key. Objects are
  allocated at fresh addresses and allocation succeeds; the counters, reference counts and statistics that
  creation and swap also change, and the tests on MAC addresses that only set flags or print, are left out.
\<close>

section \<open>State\<close>

record net_host = host +
  h_local :: bool

record net_flow = flow +
  cli_host_at :: "nat option"
  srv_host_at :: "nat option"

record flow_net =
  n_flows :: "net_flow generic_hash"
  n_hosts :: "net_host generic_hash option"
  n_next_ptr :: nat
  n_num_new_flows :: u64
  n_too_many_flows :: bool
  n_too_many_hosts :: bool

text \<open>
  Preferences, the locality of an address, the lookup of its pool (\<open>None\<close> when pools do not make
  hosts local) and the time of the last packet.
\<close>

record net_params =
  p_useMac :: bool
  p_nets :: net_env
  p_local :: "IpAddress \<Rightarrow> bool"
  p_pool :: "IpAddress \<Rightarrow> u16 \<Rightarrow> u16 option"
  p_swap_heuristic :: bool
  p_last_pkt :: int

definition NO_HOST_POOL_ID :: u16 where "NO_HOST_POOL_ID = 0"
definition DROP_HOST_POOL_ID :: u16 where "DROP_HOST_POOL_ID = 1"

section \<open>Hosts\<close>

text \<open>Adding to the table uses the key and the identifier of the entry only.\<close>

definition Host_methods :: "('m host_scheme) entry_methods" where
  "Host_methods = \<lparr> m_key = (\<lambda>e. ip_key (host_ip e)), m_set_id = (\<lambda>i e. e),
     m_stats_update = (\<lambda>e. e), m_housekeep = (\<lambda>t e. e), m_idle_ready = (\<lambda>ifc e. False),
     m_set_idle = set_hash_entry_state_idle \<rparr>"

interpretation host_class: hash_entry_class "Host_methods :: ('m host_scheme) entry_methods"
  by unfold_locales
     (simp_all add: Host_methods_def set_hash_entry_state_idle_def set_state_def idle_def)

definition host_is_local :: "net_params \<Rightarrow> IpAddress \<Rightarrow> u16 \<Rightarrow> bool" where
  "host_is_local env ip vlan \<longleftrightarrow> p_local env ip
     \<or> (case p_pool env ip vlan of None \<Rightarrow> False | Some pool \<Rightarrow> pool \<noteq> NO_HOST_POOL_ID \<and> pool \<noteq> DROP_HOST_POOL_ID)"

text \<open>Host::initialize cleans the VLAN.\<close>

definition host_vlan :: "u16 \<Rightarrow> u16" where
  "host_vlan vlan = (if vlan = -1 then 0 else vlan) AND 0xFFF"

definition Host_new ::
  "net_params \<Rightarrow> nat \<Rightarrow> u16 \<Rightarrow> nat option \<Rightarrow> IpAddress \<Rightarrow> u16 \<Rightarrow> net_host" where
  "Host_new env p vlan mac ip obs =
     \<lparr> ptr = p, hash_entry_state = hash_entry_state_active, num_uses = 0, first_seen = p_last_pkt env,
       last_seen = p_last_pkt env, host_ip = ip, host_vlan_id = host_vlan vlan, host_observation_point = obs,
       host_mac = mac, h_local = host_is_local env ip vlan \<rparr>"

text \<open>One host of findFlowHosts: found, or created when the table has room.\<close>

definition get_flow_host ::
  "net_params \<Rightarrow> u16 \<Rightarrow> u16 \<Rightarrow> nat option \<Rightarrow> IpAddress \<Rightarrow> net_host generic_hash \<Rightarrow> flow_net \<Rightarrow>
     net_host option \<times> flow_net" where
  "get_flow_host env vlan obs mac ip h n =
     (case HostHash_get (p_useMac env) vlan ip mac obs h of
        Some e \<Rightarrow> (Some e, n)
      | None \<Rightarrow>
          if \<not> hasEmptyRoom h then (None, n\<lparr>n_too_many_hosts := True\<rparr>)
          else let e = Host_new env (n_next_ptr n) vlan mac ip obs;
                   (added, h) = GenericHash_add Host_methods e h
               in if \<not> added then (None, n\<lparr>n_too_many_hosts := True, n_next_ptr := n_next_ptr n + 1\<rparr>)
                  else (Some e, n\<lparr>n_hosts := Some h, n_too_many_hosts := False, n_next_ptr := n_next_ptr n + 1\<rparr>))"

definition findFlowHosts ::
  "net_params \<Rightarrow> u16 \<Rightarrow> u16 \<Rightarrow> nat option \<Rightarrow> IpAddress \<Rightarrow> nat option \<Rightarrow> IpAddress \<Rightarrow> flow_net \<Rightarrow>
     net_host option \<times> net_host option \<times> flow_net" where
  "findFlowHosts env vlan obs src_mac src_ip dst_mac dst_ip n =
     (case n_hosts n of
        None \<Rightarrow> (None, None, n)
      | Some h \<Rightarrow>
          (case get_flow_host env vlan obs src_mac src_ip h n of
             (None, n) \<Rightarrow> (None, None, n)
           | (Some src, n) \<Rightarrow>
               (case n_hosts n of
                  None \<Rightarrow> (Some src, None, n)
                | Some h \<Rightarrow>
                    (case get_flow_host env vlan obs dst_mac dst_ip h n of (dst, n) \<Rightarrow> (Some src, dst, n)))))"

section \<open>Flows\<close>

definition peer_ip :: "net_params \<Rightarrow> net_host option \<Rightarrow> IpAddress \<Rightarrow> IpAddress" where
  "peer_ip env h ip = (case h of Some e \<Rightarrow> host_ip e | None \<Rightarrow> IpAddress_copy (p_nets env) ip (IpAddress_new (p_nets env)))"

definition Flow_create ::
  "net_params \<Rightarrow> nat \<Rightarrow> flow_tuple \<Rightarrow> net_host option \<Rightarrow> net_host option \<Rightarrow> net_flow" where
  "Flow_create env p t c s = Flow_computeKey
     \<lparr> ptr = p, hash_entry_state = (if t_protocol t = 17 then hash_entry_state_flow_notyetdetected else hash_entry_state_allocated),
       num_uses = 0, first_seen = p_last_pkt env, last_seen = p_last_pkt env, hash_entry_id = 0,
       creation_time = p_last_pkt env, is_tcp = (t_protocol t = 6), src2dst_tcp_flags = 0, dst2src_tcp_flags = 0,
       cli_ip_addr = Some (peer_ip env c (t_src_ip t)), srv_ip_addr = Some (peer_ip env s (t_dst_ip t)),
       cli_port = t_src_port t, srv_port = t_dst_port t, vlanId = t_vlanId t, privateFlowId = t_private_flow_id t,
       protocol = t_protocol t, flow_icmp = map_option ICMPinfo_copy (t_icmp t), swap_requested = False, flow_key = 0,
       cli_host = map_option host_mac c, srv_host = map_option host_mac s,
       cli_host_at = map_option ptr c, srv_host_at = map_option ptr s \<rparr>"

text \<open>The addresses change sides with the hosts, or on a view, where a flow has no hosts.\<close>

definition Flow_swap :: "net_params \<Rightarrow> net_flow \<Rightarrow> net_flow" where
  "Flow_swap env f =
     (if \<not> p_swap_heuristic env then f
      else
        let f = (if cli_host_at f \<noteq> None \<and> srv_host_at f \<noteq> None
                 then f\<lparr>cli_host_at := srv_host_at f, srv_host_at := cli_host_at f,
                        cli_host := srv_host f, srv_host := cli_host f,
                        cli_ip_addr := srv_ip_addr f, srv_ip_addr := cli_ip_addr f\<rparr>
                 else if cli_ip_addr f \<noteq> None \<and> cli_host_at f = None \<and> srv_ip_addr f \<noteq> None \<and> srv_host_at f = None
                 then f\<lparr>cli_ip_addr := srv_ip_addr f, srv_ip_addr := cli_ip_addr f\<rparr>
                 else f)
        in f\<lparr>cli_port := srv_port f, srv_port := cli_port f,
             src2dst_tcp_flags := dst2src_tcp_flags f, dst2src_tcp_flags := src2dst_tcp_flags f,
             swap_requested := False\<rparr>)"

definition request_swap :: "net_params \<Rightarrow> net_flow \<Rightarrow> net_flow" where
  "request_swap env f = (if \<not> p_swap_heuristic env then f else f\<lparr>swap_requested := True\<rparr>)"

definition update_ptr :: "nat \<Rightarrow> ('m hash_entry_scheme \<Rightarrow> 'm hash_entry_scheme) \<Rightarrow>
    ('m hash_entry_scheme) generic_hash \<Rightarrow> ('m hash_entry_scheme) generic_hash" where
  "update_ptr p g h = h\<lparr>table := map (map (\<lambda>e. if ptr e = p then g e else e)) (table h)\<rparr>"

definition net_flow_methods :: "net_flow entry_methods" where
  "net_flow_methods = Flow_methods (\<lambda>t f. f) (\<lambda>f. f)
     \<lparr> local_host_max_idle = 0, non_local_host_max_idle = 0, mac_address_cache_duration = 0, flow_max_idle = 0 \<rparr> False"

record flow_result =
  r_flow :: "net_flow option"
  r_src2dst :: bool
  r_new :: bool

text \<open>\<open>dir\<close> and \<open>new\<close> are what the variables of the caller hold before the call.\<close>

definition getFlow ::
  "net_params \<Rightarrow> flow_tuple \<Rightarrow> u16 \<Rightarrow> bool \<Rightarrow> bool \<Rightarrow> bool \<Rightarrow> flow_net \<Rightarrow> flow_result \<times> flow_net" where
  "getFlow env t obs create_if_missing dir new n =
     (let r = FlowHash_find (p_useMac env) t dir (n_flows n)
      in case found r of
           Some f \<Rightarrow> (\<lparr> r_flow = Some f, r_src2dst = src2dst_direction r, r_new = False \<rparr>, n\<lparr>n_too_many_flows := False\<rparr>)
         | None \<Rightarrow> (case unswapped r of
             Some f \<Rightarrow>
               let f' = Flow_swap env f
               in (\<lparr> r_flow = Some f', r_src2dst = (t_src_port t = cli_port f' \<and> t_dst_port t = srv_port f'), r_new = False \<rparr>,
                   n\<lparr>n_flows := update_ptr (ptr f) (Flow_swap env) (n_flows n), n_too_many_flows := False\<rparr>)
           | None \<Rightarrow>
               if \<not> create_if_missing then (\<lparr> r_flow = None, r_src2dst = src2dst_direction r, r_new = new \<rparr>, n)
               else
                 let n = n\<lparr>n_num_new_flows := n_num_new_flows n + 1\<rparr>
                 in if \<not> hasEmptyRoom (n_flows n)
                    then (\<lparr> r_flow = None, r_src2dst = src2dst_direction r, r_new = True \<rparr>, n\<lparr>n_too_many_flows := True\<rparr>)
                    else
                      let (c, s, n) = findFlowHosts env (t_vlanId t) obs (t_src_mac t) (t_src_ip t) (t_dst_mac t) (t_dst_ip t) n;
                          f = Flow_create env (n_next_ptr n) t c s;
                          (added, h) = GenericHash_add net_flow_methods f (n_flows n);
                          n = n\<lparr>n_next_ptr := n_next_ptr n + 1\<rparr>
                      in if added
                         then (\<lparr> r_flow = Some (m_set_id net_flow_methods (hash_mask (n_flows n) OR last_entry_id (n_flows n)) f),
                                 r_src2dst = True, r_new = True \<rparr>, n\<lparr>n_flows := h\<rparr>)
                         else (\<lparr> r_flow = None, r_src2dst = src2dst_direction r, r_new = True \<rparr>, n\<lparr>n_too_many_flows := True\<rparr>)))"

section \<open>Addresses of the peers\<close>

lemma IpAddress_equal_refl: "ip_wf a \<Longrightarrow> IpAddress_equal a a"
  by (simp add: IpAddress_equal_iff)

lemma IpAddress_equal_sym: "ip_wf a \<Longrightarrow> ip_wf b \<Longrightarrow> IpAddress_equal a b \<Longrightarrow> IpAddress_equal b a"
  by (auto simp: IpAddress_equal_iff)

lemma IpAddress_equal_trans:
  "ip_wf a \<Longrightarrow> ip_wf b \<Longrightarrow> ip_wf c \<Longrightarrow> IpAddress_equal a b \<Longrightarrow> IpAddress_equal b c \<Longrightarrow> IpAddress_equal a c"
  by (auto simp: IpAddress_equal_iff)

lemma IpAddress_copy_ok:
  assumes "ip_wf ip" "ip_keyed ip"
  shows "ip_wf (IpAddress_copy env ip self)" "ip_keyed (IpAddress_copy env ip self)"
    "IpAddress_equal (IpAddress_copy env ip self) ip"
proof -
  show w: "ip_wf (IpAddress_copy env ip self)"
    using assms(1) by (simp add: IpAddress_copy_def compute_key_wf) (simp add: ip_wf_def)
  show "ip_keyed (IpAddress_copy env ip self)"
    unfolding IpAddress_copy_def
    by (rule compute_key_keyed) (use assms(2) in \<open>simp add: ip_keyed_def IpAddress_set_ip_def\<close>)
  show "IpAddress_equal (IpAddress_copy env ip self) ip"
    by (subst IpAddress_equal_iff [OF w assms(1)]) (simp add: IpAddress_copy_def)
qed

section \<open>Hosts of a flow\<close>

definition host_table_ok :: "net_host generic_hash \<Rightarrow> nat \<Rightarrow> bool" where
  "host_table_ok h k \<longleftrightarrow> GenericHash_inv Host_methods h
     \<and> (\<forall>e\<in>set (concat (table h)). ip_wf (host_ip e) \<and> ip_keyed (host_ip e))
     \<and> (\<forall>e\<in>set (concat (table h) @ queued h). ptr e < k)"

text \<open>No two live hosts for one address, VLAN and observation point.\<close>

definition hosts_unique :: "net_host generic_hash \<Rightarrow> bool" where
  "hosts_unique h \<longleftrightarrow> (\<forall>e\<in>set (concat (table h)). \<forall>e'\<in>set (concat (table h)).
     \<not> idle e \<and> \<not> idle e' \<and> host_vlan_id e = host_vlan_id e' \<and> host_observation_point e = host_observation_point e'
     \<and> IpAddress_equal (host_ip e) (host_ip e') \<longrightarrow> e = e')"

lemma add_table:
  assumes "GenericHash_add m e h = (True, h')"
  shows "table h' = (table h)[unat (m_key m e mod num_hashes h) := m_set_id m (hash_mask h OR last_entry_id h) e
      # table h ! unat (m_key m e mod num_hashes h)]" "num_hashes h' = num_hashes h" "queued h' = queued h"
  using assms by (auto simp: GenericHash_add_def Let_def queued_def split: if_splits)

lemma add_set:
  assumes "GenericHash_add m e h = (True, h')" "GenericHash_inv m h"
  shows "set (concat (table h')) = insert (m_set_id m (hash_mask h OR last_entry_id h) e) (set (concat (table h)))"
proof -
  have "unat (m_key m e mod num_hashes h) < length (table h)"
    using assms(2) by (simp add: GenericHash_inv_def unat_mod word_less_nat_alt)
  from mset_concat_update [OF this, of "m_set_id m (hash_mask h OR last_entry_id h) e # table h ! unat (m_key m e mod num_hashes h)"]
  have "mset (concat (table h')) = mset (m_set_id m (hash_mask h OR last_entry_id h) e # concat (table h))"
    by (simp add: add_table(1) [OF assms(1)])
  then show ?thesis by (metis list.simps(15) set_mset_mset)
qed

lemma add_host_ok:
  assumes "host_table_ok h k" "GenericHash_add Host_methods e h = (True, h')" "ptr e = k" "ip_wf (host_ip e)" "ip_keyed (host_ip e)"
  shows "host_table_ok h' (k + 1)" "set (concat (table h')) = insert e (set (concat (table h)))"
proof -
  have inv: "GenericHash_inv Host_methods h" using assms(1) by (simp add: host_table_ok_def)
  have id: "m_set_id Host_methods i e = e" for i by (simp add: Host_methods_def)
  show t: "set (concat (table h')) = insert e (set (concat (table h)))"
    using add_set [OF assms(2) inv] by (simp add: id)
  have "ptr e \<notin> ptr ` set (concat (table h) @ queued h)"
    using assms(1,3) by (force simp: host_table_ok_def)
  from host_class.add_inv [OF inv this] have "GenericHash_inv Host_methods h'" by (simp add: assms(2))
  then show "host_table_ok h' (k + 1)"
    using assms t add_table(3) [OF assms(2)] by (auto simp: host_table_ok_def less_Suc_eq)
qed

definition net_hosts_ok :: "flow_net \<Rightarrow> bool" where
  "net_hosts_ok n \<longleftrightarrow> (\<forall>h. n_hosts n = Some h \<longrightarrow> host_table_ok h (n_next_ptr n))"

definition peer_ok :: "net_host option \<Rightarrow> IpAddress \<Rightarrow> bool" where
  "peer_ok r ip \<longleftrightarrow> (\<forall>e. r = Some e \<longrightarrow> ip_wf (host_ip e) \<and> ip_keyed (host_ip e) \<and> IpAddress_equal (host_ip e) ip)"

lemma host_table_ok_mono: "host_table_ok h k \<Longrightarrow> k \<le> j \<Longrightarrow> host_table_ok h j"
  by (force simp: host_table_ok_def)

lemma get_flow_host_ok:
  assumes "n_hosts n = Some h" "net_hosts_ok n" "ip_wf ip" "ip_keyed ip"
    and "get_flow_host env vlan obs mac ip h n = (r, n')"
  shows "net_hosts_ok n'" "peer_ok r ip" "n_flows n' = n_flows n" "n_next_ptr n \<le> n_next_ptr n'"
    and "\<exists>h'. n_hosts n' = Some h'
      \<and> (p_useMac env = False \<and> host_vlan vlan = vlan \<and> hosts_unique h \<longrightarrow> hosts_unique h')"
proof -
  have h: "host_table_ok h (n_next_ptr n)" using assms(1,2) by (simp add: net_hosts_ok_def)
  then have inv: "GenericHash_inv Host_methods h" and wf: "\<forall>e\<in>set (concat (table h)). ip_wf (host_ip e) \<and> ip_keyed (host_ip e)"
    by (simp_all add: host_table_ok_def)
  note get = HostHash_get_correct [OF inv _ assms(3,4) wf, where useMac = "p_useMac env" and vlan = vlan and mac = mac and obs = obs]
  have *: "net_hosts_ok n' \<and> peer_ok r ip \<and> n_flows n' = n_flows n \<and> n_next_ptr n \<le> n_next_ptr n'
    \<and> (\<exists>h'. n_hosts n' = Some h'
      \<and> (p_useMac env = False \<and> host_vlan vlan = vlan \<and> hosts_unique h \<longrightarrow> hosts_unique h'))"
  proof (cases "HostHash_get (p_useMac env) vlan ip mac obs h")
    case (Some e)
    then show ?thesis using assms get wf by (auto simp: get_flow_host_def peer_ok_def Host_methods_def)
  next
    case None
    show ?thesis
    proof (cases "fst (GenericHash_add Host_methods (Host_new env (n_next_ptr n) vlan mac ip obs) h)")
      case False
      then show ?thesis
        using None assms h
        by (auto simp: get_flow_host_def net_hosts_ok_def peer_ok_def GenericHash_add_def Let_def split: if_splits)
    next
      case True
      let ?e = "Host_new env (n_next_ptr n) vlan mac ip obs"
      obtain h' where a: "GenericHash_add Host_methods ?e h = (True, h')" using True by (metis prod.collapse)
      have room: "hasEmptyRoom h" using True by (auto simp: GenericHash_add_def split: if_splits)
      have e: "ptr ?e = n_next_ptr n" "host_ip ?e = ip" "host_vlan_id ?e = host_vlan vlan" "host_observation_point ?e = obs"
        by (simp_all add: Host_new_def)
      note ok = add_host_ok [OF h a e(1), unfolded e(2), OF assms(3,4)]
      have n': "n' = n\<lparr>n_hosts := Some h', n_too_many_hosts := False, n_next_ptr := n_next_ptr n + 1\<rparr>" "r = Some ?e"
        using None room a assms(5) by (simp_all add: get_flow_host_def Let_def)
      have "hosts_unique h'" if u: "p_useMac env = False" "host_vlan vlan = vlan" "hosts_unique h"
      proof -
        have new: "\<not> (\<not> idle x \<and> host_vlan_id x = vlan \<and> host_observation_point x = obs \<and> IpAddress_equal (host_ip x) ip)"
          if "x \<in> set (concat (table h))" for x
          using get None that u(1) by (auto simp: Host_methods_def)
        have sym: "IpAddress_equal (host_ip x) ip" if "x \<in> set (concat (table h))" "IpAddress_equal ip (host_ip x)" for x
          using IpAddress_equal_sym [OF assms(3) _ that(2)] wf that(1) by blast
        define S where "S = set (concat (table h))"
        show ?thesis
          using u(2,3) new sym unfolding hosts_unique_def ok(2) S_def [symmetric] by (simp add: e) blast
      qed
      then show ?thesis
        using ok(1) assms(3,4) IpAddress_equal_refl e(2) by (simp add: n' net_hosts_ok_def peer_ok_def)
    qed
  qed
  then show "net_hosts_ok n'" "peer_ok r ip" "n_flows n' = n_flows n" "n_next_ptr n \<le> n_next_ptr n'"
    "\<exists>h'. n_hosts n' = Some h' \<and> (p_useMac env = False \<and> host_vlan vlan = vlan \<and> hosts_unique h \<longrightarrow> hosts_unique h')"
    by auto
qed

definition net_hosts_unique :: "flow_net \<Rightarrow> bool" where
  "net_hosts_unique n \<longleftrightarrow> (\<forall>h. n_hosts n = Some h \<longrightarrow> hosts_unique h)"

lemma findFlowHosts_ok:
  assumes "net_hosts_ok n" "ip_wf sip" "ip_keyed sip" "ip_wf dip" "ip_keyed dip"
    and "findFlowHosts env vlan obs sm sip dm dip n = (c, s, n')"
  shows "net_hosts_ok n'" "peer_ok c sip" "peer_ok s dip" "n_flows n' = n_flows n" "n_next_ptr n \<le> n_next_ptr n'"
    "\<lbrakk>\<not> p_useMac env; host_vlan vlan = vlan; net_hosts_unique n\<rbrakk> \<Longrightarrow> net_hosts_unique n'"
proof -
  have *: "net_hosts_ok n' \<and> peer_ok c sip \<and> peer_ok s dip \<and> n_flows n' = n_flows n \<and> n_next_ptr n \<le> n_next_ptr n'
    \<and> (\<not> p_useMac env \<and> host_vlan vlan = vlan \<and> net_hosts_unique n \<longrightarrow> net_hosts_unique n')"
  proof (cases "n_hosts n")
    case None
    then show ?thesis using assms(1,6) by (auto simp: findFlowHosts_def peer_ok_def)
  next
    case (Some h)
    obtain r1 n1 where g1: "get_flow_host env vlan obs sm sip h n = (r1, n1)" by fastforce
    note G1 = get_flow_host_ok [OF Some assms(1-3) g1]
    obtain h1 where h1: "n_hosts n1 = Some h1"
      "p_useMac env = False \<and> host_vlan vlan = vlan \<and> hosts_unique h \<longrightarrow> hosts_unique h1" using G1(5) by blast
    show ?thesis
    proof (cases r1)
      case None
      then show ?thesis using assms(6) Some g1 G1 h1 by (auto simp: findFlowHosts_def peer_ok_def net_hosts_unique_def)
    next
      case r1: (Some e)
      obtain r2 n2 where g2: "get_flow_host env vlan obs dm dip h1 n1 = (r2, n2)" by fastforce
      note G2 = get_flow_host_ok [OF h1(1) G1(1) assms(4,5) g2]
      have "c = Some e" "s = r2" "n' = n2" using assms(6) Some g1 r1 h1(1) g2 by (auto simp: findFlowHosts_def)
      then show ?thesis using G1 G2 h1 r1 Some by (auto simp: net_hosts_unique_def)
    qed
  qed
  then show "net_hosts_ok n'" "peer_ok c sip" "peer_ok s dip" "n_flows n' = n_flows n" "n_next_ptr n \<le> n_next_ptr n'"
    "\<lbrakk>\<not> p_useMac env; host_vlan vlan = vlan; net_hosts_unique n\<rbrakk> \<Longrightarrow> net_hosts_unique n'"
    by auto
qed

section \<open>The flow that a lookup reaches\<close>

definition flow_bucket :: "flow_tuple \<Rightarrow> net_flow generic_hash \<Rightarrow> net_flow list" where
  "flow_bucket t h = table h ! unat (FlowHash_hash t mod num_hashes h)"

definition flow_matches :: "flow_tuple \<Rightarrow> net_flow \<Rightarrow> bool" where
  "flow_matches t f \<longleftrightarrow> \<not> idle f \<and> fst (Flow_equal False t f)"

text \<open>The same conversation seen from the other side.\<close>

definition reversed :: "flow_tuple \<Rightarrow> flow_tuple" where
  "reversed t = t\<lparr>t_src_mac := t_dst_mac t, t_dst_mac := t_src_mac t, t_src_ip := t_dst_ip t, t_dst_ip := t_src_ip t,
     t_src_port := t_dst_port t, t_dst_port := t_src_port t\<rparr>"

lemma reversed_sel:
  "t_src_ip (reversed t) = t_dst_ip t" "t_dst_ip (reversed t) = t_src_ip t" "t_src_port (reversed t) = t_dst_port t"
  "t_dst_port (reversed t) = t_src_port t" "t_vlanId (reversed t) = t_vlanId t" "t_protocol (reversed t) = t_protocol t"
  "t_private_flow_id (reversed t) = t_private_flow_id t" "t_icmp (reversed t) = t_icmp t"
  by (simp_all add: reversed_def)

lemma FlowHash_hash_reversed [simp]: "FlowHash_hash (reversed t) = FlowHash_hash t"
  by (simp add: FlowHash_hash_def reversed_def ac_simps)

lemma flow_bucket_reversed [simp]: "flow_bucket (reversed t) h = flow_bucket t h"
  by (simp add: flow_bucket_def)

lemma flow_matches_iff:
  "flow_matches t f \<longleftrightarrow> \<not> idle f \<and> privateFlowId f = t_private_flow_id t \<and> vlanId f = t_vlanId t \<and> t_protocol t = protocol f
     \<and> (opt_ip_equal (cli_ip_addr f) (t_src_ip t) \<and> opt_ip_equal (srv_ip_addr f) (t_dst_ip t)
          \<and> t_src_port t = cli_port f \<and> t_dst_port t = srv_port f
        \<or> opt_ip_equal (srv_ip_addr f) (t_src_ip t) \<and> opt_ip_equal (cli_ip_addr f) (t_dst_ip t)
          \<and> t_dst_port t = cli_port f \<and> t_src_port t = srv_port f)"
  by (simp add: flow_matches_def Flow_equal_def flow_mac_check_def)

lemma flow_matches_reversed [simp]: "flow_matches (reversed t) f = flow_matches t f"
  unfolding flow_matches_iff reversed_sel by blast

lemma flow_matches_reversed_fun [simp]: "flow_matches (reversed t) = flow_matches t"
  by (rule ext) (rule flow_matches_reversed)

lemma guarded_snd:
  "fst (if a then (False, None) else if b then (False, None) else if c then (False, None)
        else if d then (x, Some u) else if e then (y, Some v) else (False, None)) \<Longrightarrow>
   snd (if a then (False, None) else if b then (False, None) else if c then (False, None)
        else if d then (x, Some u) else if e then (y, Some v) else (False, None)) \<noteq> None"
  by (cases a; cases b; cases c; cases d; cases e) simp_all

lemma Flow_equal_snd: "fst (Flow_equal False t f) \<Longrightarrow> snd (Flow_equal False t f) \<noteq> None"
  unfolding Flow_equal_def by (rule guarded_snd)

lemma chain_first:
  "find (flow_matches t) c = Some f \<Longrightarrow> flow_find_chain False t c dir =
      (if swap_requested f
        then \<lparr> found = None, unswapped = Some f, src2dst_direction = the (snd (Flow_equal False t f)) \<rparr>
        else \<lparr> found = Some f, unswapped = None, src2dst_direction = the (snd (Flow_equal False t f)) \<rparr>)"
proof (induction c arbitrary: dir)
  case (Cons g c)
  show ?case
  proof (cases "flow_matches t g")
    case True
    then have "f = g" using Cons.prems by simp
    then show ?thesis using True Flow_equal_snd [of t g]
      by (cases "Flow_equal False t g") (auto simp: flow_matches_def)
  next
    case False
    then have "find (flow_matches t) c = Some f" using Cons.prems by simp
    note IH = Cons.IH [OF this]
    show ?thesis using False IH
      by (cases "Flow_equal False t g") (auto simp: flow_matches_def Let_def)
  qed
qed simp

lemma chain_none:
  "find (flow_matches t) c = None \<Longrightarrow>
    found (flow_find_chain False t c dir) = None \<and> unswapped (flow_find_chain False t c dir) = None"
  by (induction c arbitrary: dir) (auto simp: flow_matches_def Let_def split: prod.splits if_splits)

lemma FlowHash_find_first:
  "find (flow_matches t) (flow_bucket t h) = Some f \<Longrightarrow> FlowHash_find False t dir h =
     (if swap_requested f
      then \<lparr> found = None, unswapped = Some f, src2dst_direction = the (snd (Flow_equal False t f)) \<rparr>
      else \<lparr> found = Some f, unswapped = None, src2dst_direction = the (snd (Flow_equal False t f)) \<rparr>)"
  using chain_first [of t "flow_bucket t h" f dir] by (auto simp: FlowHash_find_def flow_bucket_def Let_def)

lemma FlowHash_find_none:
  "find (flow_matches t) (flow_bucket t h) = None \<Longrightarrow>
    found (FlowHash_find False t dir h) = None \<and> unswapped (FlowHash_find False t dir h) = None"
  using chain_none [of t "flow_bucket t h" dir] by (simp add: FlowHash_find_def flow_bucket_def Let_def)

text \<open>Once a flow is the first match of its bucket, packets of both directions reach it.\<close>

lemma getFlow_first:
  assumes "find (flow_matches t) (flow_bucket t (n_flows n)) = Some f" "\<not> p_useMac env"
  shows "\<exists>f' r n'. getFlow env t obs create dir new n = (r, n') \<and> r_flow r = Some f' \<and> ptr f' = ptr f \<and> \<not> r_new r"
proof -
  have "ptr (Flow_swap env f) = ptr f" by (simp add: Flow_swap_def Let_def)
  then show ?thesis
    using FlowHash_find_first [OF assms(1), of dir] assms(2) by (simp add: getFlow_def Let_def)
qed

section \<open>Creation\<close>

lemma opt_icmp_key_copy: "opt_icmp_key (map_option ICMPinfo_copy i) = opt_icmp_key i"
  by (auto simp: opt_icmp_key_def ICMPinfo_key_def ICMPinfo_copy_def ICMPinfo_reset_def Let_def
      IpAddress_set_ip_def split: option.splits)

lemma peer_ip_ok:
  assumes "peer_ok c ip" "ip_wf ip" "ip_keyed ip"
  shows "ip_wf (peer_ip env c ip) \<and> ip_keyed (peer_ip env c ip) \<and> IpAddress_equal (peer_ip env c ip) ip"
  using assms IpAddress_copy_ok [OF assms(2,3)] by (cases c) (simp_all add: peer_ip_def peer_ok_def)

lemma Flow_create_ok:
  assumes "peer_ok c (t_src_ip t)" "peer_ok s (t_dst_ip t)" "tuple_keyed t"
  shows "flow_matches t (Flow_create env p t c s)" "flow_key (Flow_create env p t c s) = FlowHash_hash t"
    "ptr (Flow_create env p t c s) = p"
proof -
  let ?f = "Flow_create env p t c s"
  have t: "ip_wf (t_src_ip t)" "ip_keyed (t_src_ip t)" "ip_wf (t_dst_ip t)" "ip_keyed (t_dst_ip t)"
    using assms(3) by (simp_all add: tuple_keyed_def)
  note c = peer_ip_ok [OF assms(1) t(1,2), of env] and s = peer_ip_ok [OF assms(2) t(3,4), of env]
  have sel: "cli_ip_addr ?f = Some (peer_ip env c (t_src_ip t))" "srv_ip_addr ?f = Some (peer_ip env s (t_dst_ip t))"
    "cli_port ?f = t_src_port t" "srv_port ?f = t_dst_port t" "vlanId ?f = t_vlanId t" "protocol ?f = t_protocol t"
    "privateFlowId ?f = t_private_flow_id t" "\<not> idle ?f" "flow_icmp ?f = map_option ICMPinfo_copy (t_icmp t)"
    by (simp_all add: Flow_create_def Flow_computeKey_def idle_state_iff)
  show m: "flow_matches t ?f" using c s by (simp add: flow_matches_iff sel opt_ip_equal_def)
  have "flow_keyed ?f" using c s by (auto simp: flow_keyed_def sel) (simp add: Flow_create_def Flow_computeKey_def)
  moreover have "opt_icmp_key (flow_icmp ?f) = opt_icmp_key (t_icmp t)" by (simp add: sel opt_icmp_key_copy)
  ultimately show "flow_key ?f = FlowHash_hash t"
    using Flow_equal_same_key [of False t ?f] m assms(3) by (simp add: flow_matches_def)
  show "ptr ?f = p" by (simp add: Flow_create_def Flow_computeKey_def)
qed

section \<open>Swapping in place\<close>

lemma Flow_swap_sel [simp]:
  "ptr (Flow_swap env f) = ptr f" "flow_key (Flow_swap env f) = flow_key f" "idle (Flow_swap env f) = idle f"
  "privateFlowId (Flow_swap env f) = privateFlowId f" "vlanId (Flow_swap env f) = vlanId f"
  "protocol (Flow_swap env f) = protocol f" "hash_entry_id (Flow_swap env f) = hash_entry_id f"
  by (simp_all add: Flow_swap_def Let_def idle_def)

definition peers_paired :: "net_flow \<Rightarrow> bool" where
  "peers_paired f \<longleftrightarrow> (cli_host_at f = None \<longleftrightarrow> srv_host_at f = None)"

lemma Flow_swap_matches:
  assumes "flow_matches t f" "peers_paired f"
  shows "flow_matches t (Flow_swap env f)"
proof (cases "p_swap_heuristic env")
  case True
  have "\<exists>a b. cli_ip_addr f = Some a \<and> srv_ip_addr f = Some b"
    using assms(1) by (auto simp: flow_matches_iff opt_ip_equal_def split: option.splits)
  then have "cli_ip_addr (Flow_swap env f) = srv_ip_addr f" "srv_ip_addr (Flow_swap env f) = cli_ip_addr f"
    "cli_port (Flow_swap env f) = srv_port f" "srv_port (Flow_swap env f) = cli_port f"
    using True assms(2) by (auto simp: Flow_swap_def Let_def peers_paired_def)
  then show ?thesis using assms(1) unfolding flow_matches_iff Flow_swap_sel by auto
next
  case False
  then show ?thesis using assms(1) by (simp add: Flow_swap_def)
qed

lemma find_updated:
  assumes "find P c = Some f" "P (g f)" "\<forall>e\<in>set c. ptr e = ptr f \<longrightarrow> e = f"
  shows "find P (map (\<lambda>e. if ptr e = ptr f then g e else e) c) = Some (g f)"
  using assms by (induction c) (auto split: if_splits)

lemma map_map_concat: "concat (map (map g) xss) = map g (concat xss)"
  by (induction xss) simp_all

lemma update_ptr_ptrs:
  assumes "\<And>e. ptr (g e) = ptr e"
  shows "map ptr (concat (table (update_ptr p g h)) @ queued (update_ptr p g h)) = map ptr (concat (table h) @ queued h)"
proof -
  let ?g = "\<lambda>e. if ptr e = p then g e else e"
  have q: "queued (update_ptr p g h) = queued h" "concat (table (update_ptr p g h)) = map ?g (concat (table h))"
    by (simp_all add: update_ptr_def queued_def map_map_concat)
  have same: "map ptr (map ?g xs) = map ptr xs" for xs by (simp add: assms)
  show ?thesis unfolding q map_append same by simp
qed

lemma map_ptr_bounded: "map ptr xs = map ptr ys \<Longrightarrow> \<forall>f\<in>set ys. ptr f < k \<Longrightarrow> \<forall>f\<in>set xs. ptr f < k"
  by (metis (no_types, lifting) image_eqI imageE list.set_map)

lemma update_ptr_inv:
  assumes "GenericHash_inv m h" "\<And>e. ptr (g e) = ptr e" "\<And>e. m_key m (g e) = m_key m e"
  shows "GenericHash_inv m (update_ptr p g h)"
proof -
  let ?g = "\<lambda>e. if ptr e = p then g e else e"
  have "distinct (map ptr (concat (table (update_ptr p g h)) @ queued (update_ptr p g h)))"
    unfolding update_ptr_ptrs [OF assms(2)] using assms(1) unfolding GenericHash_inv_def by simp
  moreover have "placed m (num_hashes h) (map (map ?g) (table h))"
    using assms(1) by (auto simp: placed_def GenericHash_inv_def assms(3))
  moreover have "length (concat (map (map ?g) (table h))) = length (concat (table h))"
    by (simp add: map_map_concat)
  ultimately show ?thesis
    using assms(1) unfolding GenericHash_inv_def by (simp add: update_ptr_def queued_def)
qed

section \<open>The tables after a packet\<close>

definition net_ok :: "flow_net \<Rightarrow> bool" where
  "net_ok n \<longleftrightarrow> net_hosts_ok n \<and> GenericHash_inv net_flow_methods (n_flows n)
     \<and> (\<forall>f\<in>set (concat (table (n_flows n)) @ queued (n_flows n)). ptr f < n_next_ptr n)"

lemma getFlow_found:
  assumes "\<not> p_useMac env" "find (flow_matches t) (flow_bucket t (n_flows n)) = Some f"
    and "getFlow env t obs create dir new n = (r, n')"
  shows "\<not> swap_requested f \<Longrightarrow> r_flow r = Some f \<and> n' = n\<lparr>n_too_many_flows := False\<rparr>"
    "swap_requested f \<Longrightarrow> r_flow r = Some (Flow_swap env f)
       \<and> n' = n\<lparr>n_flows := update_ptr (ptr f) (Flow_swap env) (n_flows n), n_too_many_flows := False\<rparr>"
  using FlowHash_find_first [OF assms(2), of dir] assms(1,3) by (auto simp: getFlow_def Let_def)

lemma getFlow_missing:
  assumes "\<not> p_useMac env" "find (flow_matches t) (flow_bucket t (n_flows n)) = None"
    and "getFlow env t obs create dir new n = (r, n')"
  obtains (absent) "r_flow r = None" "n_flows n' = n_flows n" "n_hosts n' = n_hosts n" "n_next_ptr n' = n_next_ptr n"
  | (created) c s n1 h where
      "findFlowHosts env (t_vlanId t) obs (t_src_mac t) (t_src_ip t) (t_dst_mac t) (t_dst_ip t)
         (n\<lparr>n_num_new_flows := n_num_new_flows n + 1\<rparr>) = (c, s, n1)"
      "GenericHash_add net_flow_methods (Flow_create env (n_next_ptr n1) t c s) (n_flows n1) = (True, h)"
      "r_flow r = Some (m_set_id net_flow_methods (hash_mask (n_flows n1) OR last_entry_id (n_flows n1))
         (Flow_create env (n_next_ptr n1) t c s))"
      "n' = n1\<lparr>n_next_ptr := n_next_ptr n1 + 1, n_flows := h\<rparr>" "r_new r"
  | (full) c s n1 where
      "findFlowHosts env (t_vlanId t) obs (t_src_mac t) (t_src_ip t) (t_dst_mac t) (t_dst_ip t)
         (n\<lparr>n_num_new_flows := n_num_new_flows n + 1\<rparr>) = (c, s, n1)"
      "r_flow r = None" "n' = n1\<lparr>n_next_ptr := n_next_ptr n1 + 1, n_too_many_flows := True\<rparr>"
proof -
  let ?n = "n\<lparr>n_num_new_flows := n_num_new_flows n + 1\<rparr>"
  have miss: "found (FlowHash_find (p_useMac env) t dir (n_flows n)) = None"
    "unswapped (FlowHash_find (p_useMac env) t dir (n_flows n)) = None"
    using FlowHash_find_none [OF assms(2)] assms(1) by auto
  note get = assms(3) [unfolded getFlow_def Let_def miss option.case]
  show ?thesis
  proof (cases "create \<and> hasEmptyRoom (n_flows n)")
    case False
    then show ?thesis using get absent by (auto split: if_splits)
  next
    case True
    obtain c s n1 where hosts: "findFlowHosts env (t_vlanId t) obs (t_src_mac t) (t_src_ip t) (t_dst_mac t) (t_dst_ip t) ?n
        = (c, s, n1)" by (metis prod_cases3)
    obtain a h where add: "GenericHash_add net_flow_methods (Flow_create env (n_next_ptr n1) t c s) (n_flows n1) = (a, h)"
      by fastforce
    show ?thesis using get True hosts add created [OF hosts] full [OF hosts] by (cases a) auto
  qed
qed

interpretation net_flow_class: hash_entry_class net_flow_methods
  unfolding net_flow_methods_def by (rule quiet_flow_class.hash_entry_class_axioms)

lemma net_flow_methods_sel [simp]:
  "m_key net_flow_methods = flow_key" "m_set_id net_flow_methods = Flow_set_hash_entry_id"
  by (simp_all add: net_flow_methods_def Flow_methods_def)

lemma update_ptr_net_ok:
  assumes "net_ok n" "\<And>f. ptr (g f) = ptr f" "\<And>f. flow_key (g f) = flow_key f"
  shows "net_ok (n\<lparr>n_flows := update_ptr p g (n_flows n)\<rparr>)"
proof -
  have "GenericHash_inv net_flow_methods (update_ptr p g (n_flows n))"
    by (rule update_ptr_inv) (use assms in \<open>simp_all add: net_ok_def\<close>)
  moreover have "\<forall>e\<in>set (concat (table (update_ptr p g (n_flows n))) @ queued (update_ptr p g (n_flows n))). ptr e < n_next_ptr n"
    by (rule map_ptr_bounded [OF update_ptr_ptrs [OF assms(2)]]) (use assms(1) in \<open>simp add: net_ok_def\<close>)
  ultimately show ?thesis using assms(1) by (simp add: net_ok_def net_hosts_ok_def del: set_append)
qed

lemma created_ok:
  assumes "net_ok n" "tuple_keyed t"
    and "findFlowHosts env (t_vlanId t) obs (t_src_mac t) (t_src_ip t) (t_dst_mac t) (t_dst_ip t)
         (n\<lparr>n_num_new_flows := n_num_new_flows n + 1\<rparr>) = (c, s, n1)"
  shows "net_ok n1" "peer_ok c (t_src_ip t)" "peer_ok s (t_dst_ip t)"
    "\<lbrakk>\<not> p_useMac env; host_vlan (t_vlanId t) = t_vlanId t; net_hosts_unique n\<rbrakk> \<Longrightarrow> net_hosts_unique n1"
    "n_next_ptr n \<le> n_next_ptr n1"
proof -
  have n: "net_hosts_ok (n\<lparr>n_num_new_flows := n_num_new_flows n + 1\<rparr>)"
    using assms(1) by (simp add: net_ok_def net_hosts_ok_def)
  have t: "ip_wf (t_src_ip t)" "ip_keyed (t_src_ip t)" "ip_wf (t_dst_ip t)" "ip_keyed (t_dst_ip t)"
    using assms(2) by (simp_all add: tuple_keyed_def)
  note ok = findFlowHosts_ok [OF n t assms(3)]
  have le: "n_next_ptr n \<le> n_next_ptr n1" "n_flows n1 = n_flows n" using ok(4,5) by simp_all
  show "net_ok n1" using assms(1) ok(1) le unfolding net_ok_def by (metis order_less_le_trans)
  show "peer_ok c (t_src_ip t)" "peer_ok s (t_dst_ip t)" by (rule ok(2,3))+
  show "\<lbrakk>\<not> p_useMac env; host_vlan (t_vlanId t) = t_vlanId t; net_hosts_unique n\<rbrakk> \<Longrightarrow> net_hosts_unique n1"
    using ok(6) by (simp add: net_hosts_unique_def)
  show "n_next_ptr n \<le> n_next_ptr n1" by (rule le(1))
qed

lemma net_ok_later:
  assumes "net_ok n" "n_hosts n' = n_hosts n" "n_flows n' = n_flows n" "n_next_ptr n \<le> n_next_ptr n'"
  shows "net_ok n'"
  using assms host_table_ok_mono unfolding net_ok_def net_hosts_ok_def by (metis order_less_le_trans)

lemma getFlow_ok:
  assumes "net_ok n" "\<not> p_useMac env" "tuple_keyed t" "getFlow env t obs create dir new n = (r, n')"
  shows "net_ok n'"
    "\<lbrakk>host_vlan (t_vlanId t) = t_vlanId t; net_hosts_unique n\<rbrakk> \<Longrightarrow> net_hosts_unique n'"
proof -
  have inv: "GenericHash_inv net_flow_methods (n_flows n)" using assms(1) by (simp add: net_ok_def)
  have "net_ok n' \<and> (host_vlan (t_vlanId t) = t_vlanId t \<and> net_hosts_unique n \<longrightarrow> net_hosts_unique n')"
  proof (cases "find (flow_matches t) (flow_bucket t (n_flows n))")
    case (Some f)
    note found = getFlow_found [OF assms(2) Some assms(4)]
    have "net_ok (n\<lparr>n_flows := update_ptr (ptr f) (Flow_swap env) (n_flows n)\<rparr>)"
      by (rule update_ptr_net_ok [OF assms(1)]) simp_all
    then show ?thesis
      using assms(1) found
      by (cases "swap_requested f") (auto simp: net_hosts_unique_def intro: net_ok_later)
  next
    case None
    show ?thesis
    proof (cases rule: getFlow_missing [OF assms(2) None assms(4), case_names absent created full])
      case absent
      then show ?thesis using net_ok_later [OF assms(1)] by (simp add: net_hosts_unique_def)
    next
      case (created c s n1 h)
      note ok = created_ok [OF assms(1,3) created(1)]
      let ?f = "Flow_create env (n_next_ptr n1) t c s"
      have p: "ptr ?f = n_next_ptr n1" by (rule Flow_create_ok(3) [OF ok(2,3) assms(3)])
      have inv1: "GenericHash_inv net_flow_methods (n_flows n1)"
        and lt: "\<forall>e\<in>set (concat (table (n_flows n1)) @ queued (n_flows n1)). ptr e < n_next_ptr n1"
        using ok(1) by (simp_all add: net_ok_def)
      have "ptr ?f \<notin> ptr ` set (concat (table (n_flows n1)) @ queued (n_flows n1))" using lt p by force
      from net_flow_class.add_inv [OF inv1 this] have "GenericHash_inv net_flow_methods h" by (simp add: created(2))
      moreover have "\<forall>e\<in>set (concat (table h) @ queued h). ptr e < n_next_ptr n1 + 1"
        using lt add_set [OF created(2) inv1] add_table(3) [OF created(2)] p
        by (auto simp: Flow_set_hash_entry_id_def less_Suc_eq)
      moreover have "net_hosts_ok n'"
        using ok(1) host_table_ok_mono by (auto simp: created(4) net_ok_def net_hosts_ok_def)
      ultimately show ?thesis using ok(4) assms(2) by (auto simp: created(4) net_ok_def net_hosts_unique_def)
    next
      case (full c s n1)
      note ok = created_ok [OF assms(1,3) full(1)]
      show ?thesis
        using net_ok_later [OF ok(1), of n'] ok(4) assms(2) by (auto simp: full net_hosts_unique_def)
    qed
  qed
  then show "net_ok n'" "\<lbrakk>host_vlan (t_vlanId t) = t_vlanId t; net_hosts_unique n\<rbrakk> \<Longrightarrow> net_hosts_unique n'" by auto
qed

lemma bucket_unique:
  assumes "GenericHash_inv net_flow_methods h" "g \<in> set (flow_bucket t h)"
  shows "set (flow_bucket t h) \<subseteq> set (concat (table h))" "\<forall>e\<in>set (flow_bucket t h). ptr e = ptr g \<longrightarrow> e = g"
proof -
  have i: "unat (FlowHash_hash t mod num_hashes h) < length (table h)"
    by (rule net_flow_class.bucket_index_less [OF assms(1)])
  show sub: "set (flow_bucket t h) \<subseteq> set (concat (table h))"
    using nth_mem [OF i] unfolding flow_bucket_def set_concat by blast
  have "inj_on ptr (set (concat (table h)))"
    using assms(1) unfolding GenericHash_inv_def map_append distinct_append by (simp add: distinct_map)
  then show "\<forall>e\<in>set (flow_bucket t h). ptr e = ptr g \<longrightarrow> e = g" using sub assms(2) unfolding inj_on_def by blast
qed

lemma flow_bucket_update:
  assumes "GenericHash_inv net_flow_methods h"
  shows "flow_bucket t (update_ptr p g h) = map (\<lambda>e. if ptr e = p then g e else e) (flow_bucket t h)"
  using net_flow_class.bucket_index_less [OF assms, of "FlowHash_hash t"] by (simp add: flow_bucket_def update_ptr_def)

lemma half_known_swap:
  assumes "flow_matches t f" "\<not> peers_paired f" "p_swap_heuristic env" "flow_keyed f" "tuple_keyed t"
    and "t_src_port t \<noteq> t_dst_port t" "\<not> IpAddress_equal (t_src_ip t) (t_dst_ip t)"
  shows "\<not> flow_matches t (Flow_swap env f)"
proof -
  have wf: "ip_wf (t_src_ip t)" "ip_wf (t_dst_ip t)" "\<And>i. cli_ip_addr f = Some i \<or> srv_ip_addr f = Some i \<Longrightarrow> ip_wf i"
    using assms(4,5) by (auto simp: tuple_keyed_def flow_keyed_def)
  have both: "\<not> (opt_ip_equal ip (t_src_ip t) \<and> opt_ip_equal ip (t_dst_ip t))"
    if "ip = cli_ip_addr f \<or> ip = srv_ip_addr f" for ip
  proof (cases ip)
    case (Some a)
    then have "ip_wf a" using that wf(3) by metis
    then show ?thesis
      using assms(7) IpAddress_equal_trans [OF wf(1) _ wf(2)] IpAddress_equal_sym [OF _ wf(1)] Some
      by (auto simp: opt_ip_equal_def)
  qed (simp add: opt_ip_equal_def)
  have "cli_ip_addr (Flow_swap env f) = cli_ip_addr f" "srv_ip_addr (Flow_swap env f) = srv_ip_addr f"
    "cli_port (Flow_swap env f) = srv_port f" "srv_port (Flow_swap env f) = cli_port f"
    using assms(2,3) by (auto simp: Flow_swap_def Let_def peers_paired_def)
  then show ?thesis
    using assms(1,6) both [of "cli_ip_addr f"] both [of "srv_ip_addr f"] unfolding flow_matches_iff by metis
qed

lemma find_updated_none:
  assumes "\<forall>e\<in>set c. P e \<longrightarrow> e = f" "\<not> P (g f)" "\<forall>e\<in>set c. ptr e = ptr f \<longrightarrow> e = f"
  shows "find P (map (\<lambda>e. if ptr e = ptr f then g e else e) c) = None"
  using assms by (induction c) auto

section \<open>Runs of packets\<close>

definition flow_net_new :: "iface_env \<Rightarrow> u32 \<Rightarrow> u32 \<Rightarrow> u32 \<Rightarrow> u32 \<Rightarrow> flow_net" where
  "flow_net_new ifc flow_buckets max_flows host_buckets max_hosts =
     \<lparr> n_flows = GenericHash_new ifc flow_buckets max_flows, n_hosts = Some (GenericHash_new ifc host_buckets max_hosts),
       n_next_ptr = 0, n_num_new_flows = 0, n_too_many_flows = False, n_too_many_hosts = False \<rparr>"

text \<open>The packets of a run, each with its observation point and whether it may create a flow.\<close>

fun net_run :: "net_params \<Rightarrow> (flow_tuple \<times> u16 \<times> bool) list \<Rightarrow> flow_net \<Rightarrow> flow_net" where
  "net_run env [] n = n"
| "net_run env ((t, obs, create) # ps) n = net_run env ps (snd (getFlow env t obs create True False n))"

definition tuple_clean :: "flow_tuple \<Rightarrow> bool" where
  "tuple_clean t \<longleftrightarrow> tuple_keyed t \<and> host_vlan (t_vlanId t) = t_vlanId t"

lemma GenericHash_new_empty [simp]: "concat (table (GenericHash_new ifc b mx)) = []" "queued (GenericHash_new ifc b mx) = []"
  by (simp_all add: GenericHash_new_def Let_def queued_def)

lemma flow_net_new_ok:
  assumes "0 < fb" "0 < hb" "unat mf * 13 div 10 < 2 ^ 32 - 1" "unat mh * 13 div 10 < 2 ^ 32 - 1"
  shows "net_ok (flow_net_new ifc fb mf hb mh)" "net_hosts_unique (flow_net_new ifc fb mf hb mh)"
proof -
  note inv = GenericHash_new_inv [OF assms(1,3)] GenericHash_new_inv [OF assms(2,4)]
  show "net_ok (flow_net_new ifc fb mf hb mh)" "net_hosts_unique (flow_net_new ifc fb mf hb mh)"
    by (simp_all add: net_ok_def net_hosts_ok_def host_table_ok_def flow_net_new_def inv net_hosts_unique_def hosts_unique_def
        del: set_concat)
qed

lemma net_run_ok:
  assumes "\<not> p_useMac env" "\<forall>(t, obs, create)\<in>set ps. tuple_clean t" "net_ok n" "net_hosts_unique n"
  shows "net_ok (net_run env ps n) \<and> net_hosts_unique (net_run env ps n)"
  using assms
proof (induction env ps n rule: net_run.induct)
  case (2 env t obs create ps n)
  obtain r n' where g: "getFlow env t obs create True False n = (r, n')" by fastforce
  have t: "tuple_keyed t" "host_vlan (t_vlanId t) = t_vlanId t"
    using "2.prems" by (simp_all add: tuple_clean_def)
  have "net_ok n'" "net_hosts_unique n'"
    using getFlow_ok [OF _ _ t(1) g] t(2) "2.prems" by blast+
  then show ?case using "2.IH" "2.prems" g by simp
qed simp

section \<open>Properties\<close>

text \<open>
  No duplicate hosts. Whatever packets arrive on an interface that starts with empty tables, the
  lookups and creations of getFlow and findFlowHosts leave at most one live host for an address, a
  VLAN and an observation point, keep every flow and host in the bucket of its key with the entry
  count right, and never give an address in memory to two objects. The VLAN of a packet must fit
  its 12 bits: Host::initialize cleans the VLAN that the search compares as it is.
\<close>
theorem packets_keep_hosts_unique:
  assumes "0 < fb" "0 < hb" "unat mf * 13 div 10 < 2 ^ 32 - 1" "unat mh * 13 div 10 < 2 ^ 32 - 1"
    and "\<not> p_useMac env" "\<forall>(t, obs, create)\<in>set ps. tuple_clean t"
    and "n = net_run env ps (flow_net_new ifc fb mf hb mh)"
  shows "net_ok n \<and> net_hosts_unique n"
  using net_run_ok [OF assms(5,6) flow_net_new_ok [OF assms(1-4)]] by (simp add: assms(7))

text \<open>
  C2: One flow for both directions. When getFlow has returned a flow for a packet, created, found or
  swapped, the next packet of the conversation in either direction gets the flow at the same
  address, as an existing one, whatever its MAC addresses, observation point and the rest of the
  table are. The flows in the table have both peer hosts or, as on a view, none (else
  \<open>half_known_flow_split_by_swap\<close>); MAC addresses are not part of the identity of hosts and flows, as with the
  default preferences; both packets carry the same private flow id, and no purge comes in between.
\<close>
theorem one_flow_per_conversation:
  assumes "net_ok n" "\<not> p_useMac env" "tuple_keyed t"
    and "\<forall>f\<in>set (concat (table (n_flows n))). peers_paired f"
    and "getFlow env t obs create dir new n = (r, n')" "r_flow r = Some f"
    and "u = t \<or> u = reversed t"
  shows "\<exists>f' r' n''. getFlow env u obs' create' dir' new' n' = (r', n'') \<and> r_flow r' = Some f' \<and> ptr f' = ptr f \<and> \<not> r_new r'"
proof -
  have inv: "GenericHash_inv net_flow_methods (n_flows n)" using assms(1) by (simp add: net_ok_def)
  have "\<exists>g. find (flow_matches t) (flow_bucket t (n_flows n')) = Some g \<and> ptr g = ptr f"
  proof (cases "find (flow_matches t) (flow_bucket t (n_flows n))")
    case (Some g)
    note found = getFlow_found [OF assms(2) Some assms(5)]
    show ?thesis
    proof (cases "swap_requested g")
      case False
      then show ?thesis using found(1) Some assms(6) by simp
    next
      case True
      have g: "g \<in> set (flow_bucket t (n_flows n))" "flow_matches t g" using Some by (auto simp: find_Some_iff)
      note u = bucket_unique [OF inv g(1)]
      have "flow_matches t (Flow_swap env g)"
        by (rule Flow_swap_matches [OF g(2)]) (use assms(4) u(1) g(1) in blast)
      from find_updated [where g = "Flow_swap env", OF Some this u(2)]
      have "find (flow_matches t) (flow_bucket t (n_flows n')) = Some (Flow_swap env g)"
        using found(2) [OF True] by (simp add: flow_bucket_update [OF inv])
      then show ?thesis using found(2) [OF True] assms(6) by auto
    qed
  next
    case None
    show ?thesis
    proof (cases rule: getFlow_missing [OF assms(2) None assms(5), case_names absent created full])
      case (created c s n1 h)
      note ok = created_ok [OF assms(1,3) created(1)]
      let ?f = "Flow_create env (n_next_ptr n1) t c s" and ?i = "unat (FlowHash_hash t mod num_hashes (n_flows n1))"
      note f = Flow_create_ok [OF ok(2,3) assms(3), of env "n_next_ptr n1"]
      have "?i < length (table (n_flows n1))"
        using net_flow_class.bucket_index_less ok(1) by (simp add: net_ok_def)
      then have "flow_bucket t (n_flows n') = Flow_set_hash_entry_id (hash_mask (n_flows n1) OR last_entry_id (n_flows n1)) ?f
          # table (n_flows n1) ! ?i"
        using add_table [OF created(2)] f(2) by (simp add: flow_bucket_def created(4))
      moreover have "flow_matches t (Flow_set_hash_entry_id i ?f)" for i
        using f(1) by (simp add: flow_matches_iff Flow_set_hash_entry_id_def idle_state_iff)
      ultimately show ?thesis using created(3) assms(6) by simp
    qed (use assms(6) in simp_all)
  qed
  then obtain g where g: "find (flow_matches u) (flow_bucket u (n_flows n')) = Some g" "ptr g = ptr f"
    using assms(7) flow_matches_reversed_fun by auto
  from getFlow_first [OF g(1) assms(2), of obs' create' dir' new'] show ?thesis by (simp add: g(2))
qed

text \<open>
  A flow with one known host is split by its swap. When the table of hosts is full, a flow can have one
  of its two hosts. Its swap exchanges the ports and not the addresses, so that it no longer equals
  its own packets: after the packet that swaps the only flow of a conversation, no packet of
  either direction reaches that flow again; the flow it gets, if any, is a new one.
\<close>
theorem half_known_flow_split_by_swap:
  assumes "net_ok n" "\<not> p_useMac env" "p_swap_heuristic env" "tuple_keyed t"
    and "t_src_port t \<noteq> t_dst_port t" "\<not> IpAddress_equal (t_src_ip t) (t_dst_ip t)"
    and "f \<in> set (flow_bucket t (n_flows n))" "flow_matches t f" "flow_keyed f" "swap_requested f" "\<not> peers_paired f"
    and "\<forall>e\<in>set (flow_bucket t (n_flows n)). flow_matches t e \<longrightarrow> e = f"
    and "getFlow env t obs create dir new n = (r, n')"
    and "u = t \<or> u = reversed t" "getFlow env u obs' create' dir' new' n' = (r', n'')" "r_flow r' = Some f'"
  shows "r_new r' \<and> ptr f' \<noteq> ptr f"
proof -
  have inv: "GenericHash_inv net_flow_methods (n_flows n)" using assms(1) by (simp add: net_ok_def)
  note uniq = bucket_unique [OF inv assms(7)]
  obtain g where "find (flow_matches t) (flow_bucket t (n_flows n)) = Some g"
    using assms(7,8) by (metis find_None_iff option.exhaust)
  moreover from this have "g = f" using assms(12) by (auto simp: find_Some_iff)
  ultimately have found: "find (flow_matches t) (flow_bucket t (n_flows n)) = Some f" by simp
  note swap = getFlow_found(2) [OF assms(2) found assms(13,10)]
  have "find (flow_matches t) (flow_bucket t (n_flows n')) = None"
    using find_updated_none [where g = "Flow_swap env", OF assms(12) half_known_swap [OF assms(8,11,3,9,4-6)] uniq(2)] swap
    by (simp add: flow_bucket_update [OF inv])
  then have none: "find (flow_matches u) (flow_bucket u (n_flows n')) = None" using assms(14) by auto
  have lt: "ptr f < n_next_ptr n'" using assms(1,7) uniq(1) swap unfolding net_ok_def by auto
  have n': "net_ok n'" by (rule getFlow_ok(1) [OF assms(1,2,4,13)])
  have u: "tuple_keyed u" using assms(4,14) by (auto simp: tuple_keyed_def reversed_sel)
  show ?thesis
  proof (cases rule: getFlow_missing [OF assms(2) none assms(15), case_names absent created full])
    case (created c s n1 h)
    note ok = created_ok [OF n' u created(1)]
    have "n_next_ptr n' \<le> n_next_ptr n1" using created_ok(5) [OF n' u created(1)] .
    then show ?thesis
      using lt assms(16) created(3,5) Flow_create_ok(3) [OF ok(2,3) u] by (auto simp: Flow_set_hash_entry_id_def)
  qed (use assms(16) in simp_all)
qed

section \<open>Witnesses\<close>

definition wit_params :: net_params where
  "wit_params = \<lparr> p_useMac = False, p_nets = no_nets, p_local = (\<lambda>_. False), p_pool = (\<lambda>_ _. None),
     p_swap_heuristic = True, p_last_pkt = 1000 \<rparr>"

definition wit_first :: "u32 \<Rightarrow> flow_result \<times> flow_net" where
  "wit_first max_hosts = getFlow wit_params wit_reply 0 True True False (flow_net_new wit_iface 4 100 4 max_hosts)"

text \<open>The first packet has left a flow whose swap is then requested.\<close>

definition wit_requested :: "nat \<Rightarrow> u32 \<Rightarrow> flow_net" where
  "wit_requested p max_hosts =
     (let n = snd (wit_first max_hosts) in n\<lparr>n_flows := update_ptr p (request_swap wit_params) (n_flows n)\<rparr>)"

lemma wit_reply_clean: "tuple_clean wit_reply" "tuple_clean (reversed wit_reply)"
  using wit_ip_ok by (simp_all add: tuple_clean_def tuple_keyed_def wit_reply_def reversed_def host_vlan_def)

theorem packets_keep_hosts_unique_witness:
  "net_ok (net_run wit_params [(wit_reply, 0, True), (reversed wit_reply, 0, True)] (flow_net_new wit_iface 4 100 4 100))
   \<and> net_hosts_unique (net_run wit_params [(wit_reply, 0, True), (reversed wit_reply, 0, True)] (flow_net_new wit_iface 4 100 4 100))"
proof -
  have "\<not> p_useMac wit_params" by (simp add: wit_params_def)
  then show ?thesis
    by (intro packets_keep_hosts_unique [where ps = "[(wit_reply, 0, True), (reversed wit_reply, 0, True)]" and fb = 4 and hb = 4
          and mf = 100 and mh = 100 and ifc = wit_iface])
      (simp_all add: wit_reply_clean)
qed

lemma wit_start_ok: "mh = 0 \<or> mh = 100 \<Longrightarrow> net_ok (flow_net_new wit_iface 4 100 4 mh)"
  by (rule flow_net_new_ok(1)) auto

lemma wit_requested_ok: "mh = 0 \<or> mh = 100 \<Longrightarrow> net_ok (wit_requested p mh)"
proof -
  assume mh: "mh = 0 \<or> mh = 100"
  have e: "\<not> p_useMac wit_params" "tuple_keyed wit_reply"
    using wit_reply_clean by (simp_all add: wit_params_def tuple_clean_def)
  have "net_ok (snd (wit_first mh))"
    unfolding wit_first_def by (rule getFlow_ok(1) [OF wit_start_ok [OF mh] e prod.collapse [symmetric]])
  then show "net_ok (wit_requested p mh)"
    unfolding wit_requested_def Let_def by (rule update_ptr_net_ok) (simp_all add: request_swap_def)
qed

lemma wit_both_known:
  "\<forall>f\<in>set (concat (table (n_flows (wit_requested 2 100)))). peers_paired f"
  "r_flow (fst (getFlow wit_params wit_reply 0 True True False (wit_requested 2 100))) \<noteq> None"
  by code_simp+

theorem one_flow_per_conversation_witness:
  "\<exists>f' r' n''. getFlow wit_params (reversed wit_reply) 0 True True False
      (snd (getFlow wit_params wit_reply 0 True True False (wit_requested 2 100))) = (r', n'')
    \<and> r_flow r' = Some f' \<and> \<not> r_new r'"
proof -
  obtain r n' f where g: "getFlow wit_params wit_reply 0 True True False (wit_requested 2 100) = (r, n')" "r_flow r = Some f"
    using wit_both_known(2) by (metis fst_conv not_None_eq surj_pair)
  have "\<not> p_useMac wit_params" "tuple_keyed wit_reply"
    using wit_reply_clean by (simp_all add: wit_params_def tuple_clean_def)
  from one_flow_per_conversation [OF wit_requested_ok this wit_both_known(1) g, of "reversed wit_reply" 0 True True False]
  show ?thesis using g(1) by auto
qed

definition wit_one_host_flow :: net_flow where
  "wit_one_host_flow = hd (flow_bucket wit_reply (n_flows (wit_requested 1 0)))"

lemma wit_half_facts:
  "let c = flow_bucket wit_reply (n_flows (wit_requested 1 0)); f = hd c
   in map ptr c = [1] \<and> flow_matches wit_reply f \<and> swap_requested f \<and> ptr f = 1
      \<and> cli_host_at f \<noteq> None \<and> srv_host_at f = None \<and> cli_ip_addr f = Some (wit_ip 2)
      \<and> srv_ip_addr f = Some (IpAddress_copy no_nets (wit_ip 1) (IpAddress_new no_nets))
      \<and> flow_key f = flow_key (Flow_computeKey f)"
  by code_simp

lemma wit_half:
  "map ptr (flow_bucket wit_reply (n_flows (wit_requested 1 0))) = [1]"
  "flow_matches wit_reply wit_one_host_flow" "swap_requested wit_one_host_flow" "ptr wit_one_host_flow = 1"
  "cli_host_at wit_one_host_flow \<noteq> None" "srv_host_at wit_one_host_flow = None"
  "cli_ip_addr wit_one_host_flow = Some (wit_ip 2)"
  "srv_ip_addr wit_one_host_flow = Some (IpAddress_copy no_nets (wit_ip 1) (IpAddress_new no_nets))"
  "flow_key wit_one_host_flow = flow_key (Flow_computeKey wit_one_host_flow)"
  using wit_half_facts unfolding wit_one_host_flow_def Let_def by blast+

lemma wit_addresses_differ: "\<not> IpAddress_equal (t_src_ip wit_reply) (t_dst_ip wit_reply)" by code_simp

lemma wit_ports_differ: "t_src_port wit_reply \<noteq> t_dst_port wit_reply" by (simp add: wit_reply_def)

lemma wit_half_next:
  "r_flow (fst (getFlow wit_params (reversed wit_reply) 0 True True False
     (snd (getFlow wit_params wit_reply 0 True True False (wit_requested 1 0))))) \<noteq> None"
  by code_simp

theorem half_known_flow_split_by_swap_witness:
  "\<exists>f. r_flow (fst (getFlow wit_params (reversed wit_reply) 0 True True False
     (snd (getFlow wit_params wit_reply 0 True True False (wit_requested 1 0))))) = Some f \<and> ptr f \<noteq> 1"
proof -
  obtain r n' where g: "getFlow wit_params wit_reply 0 True True False (wit_requested 1 0) = (r, n')" by fastforce
  obtain r' n'' where g': "getFlow wit_params (reversed wit_reply) 0 True True False n' = (r', n'')" by fastforce
  obtain f' where f': "r_flow r' = Some f'" using wit_half_next g g' by auto
  have one: "flow_bucket wit_reply (n_flows (wit_requested 1 0)) = [wit_one_host_flow]"
    using wit_half(1) by (auto simp: wit_one_host_flow_def)
  have keyed: "flow_keyed wit_one_host_flow"
    using wit_half(9) wit_ip_ok IpAddress_copy_ok [of "wit_ip 1"]
    by (auto simp: flow_keyed_def wit_half(7) wit_half(8))
  have e: "\<not> p_useMac wit_params" "p_swap_heuristic wit_params" "tuple_keyed wit_reply"
    using wit_reply_clean by (simp_all add: wit_params_def tuple_clean_def)
  have half: "\<not> peers_paired wit_one_host_flow" using wit_half(5) wit_half(6) by (simp add: peers_paired_def)
  have "net_ok (wit_requested 1 0)" by (rule wit_requested_ok) simp
  moreover have "wit_one_host_flow \<in> set (flow_bucket wit_reply (n_flows (wit_requested 1 0)))"
    "\<forall>e\<in>set (flow_bucket wit_reply (n_flows (wit_requested 1 0))). flow_matches wit_reply e \<longrightarrow> e = wit_one_host_flow"
    unfolding one by simp_all
  ultimately have "ptr f' \<noteq> ptr wit_one_host_flow"
    using half_known_flow_split_by_swap [OF _ e wit_ports_differ wit_addresses_differ _ wit_half(2) keyed
      wit_half(3) half _ g disjI2 [OF refl] g' f'] by blast
  then show ?thesis using g g' f' by (simp add: wit_half(4))
qed

end
