(* ===== verification/Spec2Isabelle.thy ===== *)
theory Spec2Isabelle
  imports Bitmaps Bloom_Filter SPSC_Queue Recipients Traffic_Tables Host_Checks Flow_Traffic_Stats Flow_Alerts
    Traffic_Counters Tcp_Flow Packet_Tunnels Packet_Headers Packet_Flows
begin

text \<open>
  A model of the core of ntopng and the theorems that make it correct.

  \<^bold>\<open>The program.\<close> ntopng observes traffic on interfaces. Each packet, or each flow record
  sent by a probe, is assigned to a \<open>Flow\<close> between two \<open>Host\<close>s; flows, hosts, MACs, VLANs,
  autonomous systems and so on are entries of hash tables (\<open>GenericHash\<close>) that a purge
  thread empties of what is idle. Flows count their traffic; the counts reach the hosts and the
  interface as deltas. Periodic checks look at flows and hosts and trigger alerts, which
  add to the scores of the hosts and travel over a lockless ring to a notification thread,
  which hands a copy to the queue of every recipient that wants it.

  \<^bold>\<open>The theories\<close>, from the bottom up (paths under src/):
  \<^item> \<open>Prelude\<close>: widths of the C integers, the error values, shared lemmas.
  \<^item> \<open>Bitmaps\<close>, \<open>Pow2\<close>, \<open>Bloom_Filter\<close>: include/Bitmap.h, UintBitmap.h, Bitmask and Bloom,
    Utils::pow2.
  \<^item> \<open>Fifo_Queues\<close>, \<open>SPSC_Queue\<close>: include/FifoQueue.h and its subclasses, and the
    single-producer single-consumer ring of include/SPSCQueue.h. Both are interpretations of the
    locale of bounded queues.
  \<^item> \<open>Recipients\<close>: src/RecipientQueue.cpp, src/Recipients.cpp, AlertFifoItem.
  \<^item> \<open>Hash_Entry\<close>, \<open>Generic_Hash\<close>, \<open>Traffic_Tables\<close>: src/GenericHashEntry.cpp,
    src/GenericHash.cpp, the tables of flows, hosts, MACs, VLANs, autonomous systems,
    observation points, countries and virtual hosts, the identity of a flow
    and the conditions under which entries become idle.
  \<^item> \<open>Byte_Order\<close>, \<open>Ip_Address\<close>, \<open>Icmp_Info\<close>: src/IpAddress.cpp with its helpers in
    src/Utils.cpp, and the dissection of ICMP errors in src/ICMPinfo.cpp.
  \<^item> \<open>Scores\<close>, \<open>Host_Alerts\<close>, \<open>Host_Checks\<close>: src/ScoreCounter.cpp, ScoreStats.cpp, Score.cpp;
    the life of a host alert in src/Host.cpp and HostAlertableEntity.cpp; AlertCounter,
    HostChecksExecutor and the flood and contact checks of src/host_checks.
  \<^item> \<open>Flow_Traffic_Stats\<close>, \<open>Flow_Alerts\<close>: src/PartializableFlowTrafficStats.cpp and its use in
    src/Flow.cpp, DnsStats, HTTPstats; the alerts of a flow in src/Flow.cpp and
    src/FlowAlert.cpp with their queue in src/NetworkInterface.cpp.
  \<^item> \<open>Traffic_Counters\<close>: EthStats, PacketStats, LocalTrafficStats, DSCPStats, TcpPacketStats,
    TcpFlowStats, nDPIStats with its counters, ICMPstats and RoundTripStats; the
    locale \<open>mergeable\<close> states what a view needs of the counters it sums.
  \<^item> \<open>Tcp_Flow\<close>: the TCP side of src/Flow.cpp: flags, handshake, connection state,
    sequence numbers, and the counters of hosts, networks and interface they drive.
  \<^item> \<open>Packet_Dissector\<close>, \<open>Packet_Tunnels\<close>: NetworkInterface::dissectPacket, from the link
    layer through VLAN tags, MPLS labels and tunnels to the IP header, and its invariance when a
    frame is carried inside of another.
  \<^item> \<open>Packet_Headers\<close>, \<open>Packet_Flows\<close>: the headers that NetworkInterface::processPacket parses with
    the lengths it trusts, and the flow and hosts of a packet: getFlow, findFlowHosts and what
    Flow::Flow, Host::Host and Flow::swap decide of the identity of a conversation.

  \<^bold>\<open>How the state corresponds.\<close> A class is a record whose fields have the names of the
  members; a subclass extends the record. Machine integers are words of the C width, so
  that they wrap; \<open>time_t\<close> and \<open>int\<close> arithmetic is on \<open>int\<close>. An object that other parts
  point to lives in a heap, a map from addresses to objects, in which \<open>delete\<close> leaves
  \<open>None\<close>; following such an address is the error \<open>Use_after_free\<close>. Exits, null pointers
  and accesses outside of a block are the other values of \<open>c_error\<close>. A region under a lock is
  one step; the two sides of the ring are separate steps that any schedule may
  interleave. Histories of calls are lists of operations or inductive step relations.

  \<^bold>\<open>What is shown.\<close> Every operation preserves the invariant of its component and
  behaves as its specification on every branch: tables never lose or
  duplicate an entry and find what was added; queues deliver what they accepted, in order;
  alerts are never read after their deletion as long as the ring has room; the counters and
  scores they add are given back; deltas neither lose nor repeat traffic; counters of
  several interfaces add up; a handshake establishes a TCP flow once and in-order
  traffic is charged with no anomaly; no packet makes the dissector read outside
  of it, a tunnelled frame is seen as the frame alone, what a TCP frame says is what the parser
  returns, and the packets of a conversation reach one flow from both sides. Where the code
  does otherwise, the theorem states what it does and the manifest lists the finding.

  \<^bold>\<open>Bounds and fuel.\<close> The loops of the model are structural
  recursions on lists or end by a proved measure, with one exception: the jumps between the labels of
  dissectPacket are counted, since on some links they do not end; 131073 jumps are enough
  on all the others, by the offsets that grow up to 65536. Bounds that occur as
  hypotheses (the sizes accepted by \<open>pow2\<close>, scores below \<open>2 ^ 32\<close>, the 128 alert types of a
  bitmap) are those of the C types and constants.

  \<^bold>\<open>Configuration.\<close> The community build: NTOPNG_PRO, HAVE_NEDGE, MAKE_OBSERVATION_POINT_KEY,
  USE_MAC_IN_KEY_WITH_DHCP and DONT_MERGE_ICMP_FLOWS are not defined. nDPI, libc, json-c,
  Lua, Redis, sqlite, ZeroMQ and the other libraries are outside src/; what the modelled code reads
  from them is an argument of the definitions.

  \<^bold>\<open>Not modelled.\<close> The Lua bindings and the REST and web front end, storage back ends
  (ClickHouse, SQLite, Elasticsearch, time series), preferences and Redis, collection of
  ZMQ, NetFlow, sFlow and syslog records, packet capture, SNMP, discovery, RADIUS,
  threading primitives and all serialisation and printing: they move data to and from libraries
  that are not part of the repository. Floating-point statistics
  (throughput, jitter, behavioural counters) are left out since their rounding is
  that of the machine.
\<close>

end
